(* ===== verification/EaPrelude.thy ===== *)
theory EaPrelude
  imports Main "HOL-Library.Word" "HOL-Library.List_Lexorder" "HOL-Library.Product_Lexorder"
    "HOL-Library.Option_ord" "HOL-Library.Multiset"
begin

text \<open>
  Shared vocabulary of the development: the byte, hash and integer types of the crates, the
  result monad that stands for Rust's \<^verbatim>\<open>Result\<close> and its \<^verbatim>\<open>?\<close> operator, checked and saturating
  machine arithmetic, big-endian byte strings, and the slice operations of the Rust standard
  library the crates use (\<^verbatim>\<open>dedup\<close>, \<^verbatim>\<open>chunk_by\<close>, \<^verbatim>\<open>windows(2)\<close>, \<^verbatim>\<open>binary_search\<close>,
  \<^verbatim>\<open>partition_point\<close>). Byte strings compare lexicographically, as Rust slices and arrays do;
  \<^verbatim>\<open>Option\<close> puts \<^verbatim>\<open>None\<close> below every \<^verbatim>\<open>Some\<close> and tuples compare componentwise from the
  left, as the derived \<^verbatim>\<open>Ord\<close> instances do.
\<close>

named_theorems result_simps \<open>how results of the error monad are taken apart\<close>
named_theorems slice_simps \<open>what the slice operations of the standard library return\<close>

section \<open>Types\<close>

type_synonym byte = "8 word"
type_synonym bytes = "byte list"
type_synonym u16 = "16 word"
type_synonym u64 = "64 word"

text \<open>
  Identifiers (\<^verbatim>\<open>Id16\<close>) and hashes (\<^verbatim>\<open>Hash32\<close>) are byte arrays; the newtypes around them
  carry no behaviour of their own.
\<close>

type_synonym id16 = bytes
type_synonym hash32 = bytes

text \<open>The bytes of a literal of ASCII characters.\<close>

definition ascii :: "string \<Rightarrow> bytes" where
  "ascii s = map of_char s"

section \<open>Results\<close>

definition bindE :: "'e + 'a \<Rightarrow> ('a \<Rightarrow> 'e + 'b) \<Rightarrow> 'e + 'b" where
  "bindE r f = (case r of Inl e \<Rightarrow> Inl e | Inr x \<Rightarrow> f x)"

lemma bindE_simps [simp]:
  "bindE (Inl e) f = Inl e"
  "bindE (Inr x) f = f x"
  by (simp_all add: bindE_def)

lemma bindE_cong [fundef_cong]:
  "r = r' \<Longrightarrow> (\<And>x. r' = Inr x \<Longrightarrow> f x = g x) \<Longrightarrow> bindE r f = bindE r' g"
  by (cases r') simp_all

lemma bindE_eq_Inr [result_simps]:
  "bindE r f = Inr y \<longleftrightarrow> (\<exists>x. r = Inr x \<and> f x = Inr y)"
  by (cases r) auto

lemma bindE_eq_Inl [result_simps]:
  "bindE r f = Inl e \<longleftrightarrow> r = Inl e \<or> (\<exists>x. r = Inr x \<and> f x = Inl e)"
  by (cases r) auto

text \<open>\<^verbatim>\<open>Option::ok_or\<close> and the guard \<^verbatim>\<open>if cond { return Err(e) }\<close>.\<close>

definition ok_or :: "'e \<Rightarrow> 'a option \<Rightarrow> 'e + 'a" where
  "ok_or e x = (case x of None \<Rightarrow> Inl e | Some y \<Rightarrow> Inr y)"

lemma ok_or_simps [simp]:
  "ok_or e None = Inl e"
  "ok_or e (Some y) = Inr y"
  by (simp_all add: ok_or_def)

lemma ok_or_eq_Inr [result_simps]: "ok_or e x = Inr y \<longleftrightarrow> x = Some y"
  by (cases x) auto

lemma ok_or_eq_Inl [result_simps]: "ok_or e x = Inl e' \<longleftrightarrow> x = None \<and> e' = e"
  by (cases x) auto

definition reject_if :: "bool \<Rightarrow> 'e \<Rightarrow> 'e + unit" where
  "reject_if c e = (if c then Inl e else Inr ())"

lemma reject_if_eq_Inr [result_simps]: "reject_if c e = Inr u \<longleftrightarrow> \<not> c"
  by (simp add: reject_if_def)

lemma reject_if_eq_Inl [result_simps]: "reject_if c e = Inl e' \<longleftrightarrow> c \<and> e' = e"
  by (auto simp: reject_if_def)

lemma reject_if_simps [simp]:
  "reject_if True e = Inl e"
  "reject_if False e = Inr ()"
  by (simp_all add: reject_if_def)

text \<open>\<^verbatim>\<open>Result::map_err\<close>.\<close>

definition map_errE :: "('e \<Rightarrow> 'f) \<Rightarrow> 'e + 'a \<Rightarrow> 'f + 'a" where
  "map_errE f r = (case r of Inl e \<Rightarrow> Inl (f e) | Inr x \<Rightarrow> Inr x)"

lemma map_errE_simps [simp]:
  "map_errE f (Inl e) = Inl (f e)"
  "map_errE f (Inr x) = Inr x"
  by (simp_all add: map_errE_def)

lemma map_errE_eq_Inr [result_simps]: "map_errE f r = Inr x \<longleftrightarrow> r = Inr x"
  by (cases r) auto

lemma map_errE_eq_Inl [result_simps]: "map_errE f r = Inl e' \<longleftrightarrow> (\<exists>e. r = Inl e \<and> e' = f e)"
  by (cases r) auto

text \<open>A loop whose body may return early: the first error ends it.\<close>

fun foldE :: "('a \<Rightarrow> 's \<Rightarrow> 'e + 's) \<Rightarrow> 'a list \<Rightarrow> 's \<Rightarrow> 'e + 's" where
  "foldE f [] s = Inr s"
| "foldE f (x # xs) s = bindE (f x s) (foldE f xs)"

lemma foldE_append: "foldE f (xs @ ys) s = bindE (foldE f xs s) (foldE f ys)"
  by (induction xs arbitrary: s) (auto simp: bindE_def split: sum.splits)

lemma foldE_invariant:
  assumes "foldE f xs s = Inr s'" and "I s"
    and "\<And>x s s'. x \<in> set xs \<Longrightarrow> I s \<Longrightarrow> f x s = Inr s' \<Longrightarrow> I s'"
  shows "I s'"
  using assms by (induction xs arbitrary: s) (auto simp: result_simps)

section \<open>Machine integers\<close>

text \<open>
  \<^verbatim>\<open>usize\<close> is a natural number bounded by \<open>usize_max\<close>, the bound of a 64-bit target. \<^verbatim>\<open>i64\<close>
  values (\<^verbatim>\<open>UnixMillis\<close>) are integers in the \<open>i64\<close> range. \<^verbatim>\<open>u64\<close> counters keep their width.
\<close>

definition usize_max :: nat where
  "usize_max = 2 ^ 64 - 1"

definition checked_add_usize :: "nat \<Rightarrow> nat \<Rightarrow> nat option" where
  "checked_add_usize a b = (if a + b \<le> usize_max then Some (a + b) else None)"

lemma checked_add_usize_Some:
  "checked_add_usize a b = Some c \<longleftrightarrow> c = a + b \<and> a + b \<le> usize_max"
  by (auto simp: checked_add_usize_def)

definition checked_add_word :: "'w::len word \<Rightarrow> 'w word \<Rightarrow> 'w word option" where
  "checked_add_word a b = (if unat a + unat b < 2 ^ LENGTH('w) then Some (a + b) else None)"

definition checked_succ :: "'w::len word \<Rightarrow> 'w word option" where
  "checked_succ a = checked_add_word a 1"

lemma checked_succ_Some:
  "checked_succ (a::'w::len word) = Some b \<longleftrightarrow> unat b = Suc (unat a)"
proof -
  have bound: "unat b < 2 ^ LENGTH('w)" by (rule unsigned_less)
  have step: "unat (a + 1) = Suc (unat a)" if "Suc (unat a) < 2 ^ LENGTH('w)"
    using that by (simp add: unat_word_ariths)
  show ?thesis
  proof (cases "Suc (unat a) < 2 ^ LENGTH('w)")
    case True
    with step show ?thesis
      by (auto simp: checked_succ_def checked_add_word_def word_unat_eq_iff)
  next
    case False
    with bound have "unat b \<noteq> Suc (unat a)" by linarith
    with False show ?thesis by (simp add: checked_succ_def checked_add_word_def)
  qed
qed

lemma checked_succ_eq_Some_nat:
  "checked_succ (a::'w::len word) = Some b \<Longrightarrow> unat b = Suc (unat a)"
  by (simp add: checked_succ_Some)

definition i64_min :: int where "i64_min = - (2 ^ 63)"
definition i64_max :: int where "i64_max = 2 ^ 63 - 1"

definition is_i64 :: "int \<Rightarrow> bool" where
  "is_i64 x \<longleftrightarrow> i64_min \<le> x \<and> x \<le> i64_max"

section \<open>Big-endian byte strings\<close>

definition to_be_bytes :: "nat \<Rightarrow> u64 \<Rightarrow> bytes" where
  "to_be_bytes n x = map (\<lambda>i. ucast (drop_bit (8 * i) x)) (rev [0..<n])"

text \<open>The fold \<^verbatim>\<open>(value << 8) | u64::from(byte)\<close>, on the 64-bit accumulator.\<close>

definition from_be_bytes :: "bytes \<Rightarrow> u64" where
  "from_be_bytes bs = foldl (\<lambda>value b. or (push_bit 8 value) (ucast b)) 0 bs"

definition be_nat :: "bytes \<Rightarrow> nat" where
  "be_nat bs = foldl (\<lambda>value b. value * 256 + unat b) 0 bs"

section \<open>Slices\<close>

text \<open>\<^verbatim>\<open>slice.get(from..to)\<close>.\<close>

definition slice_get :: "'a list \<Rightarrow> nat \<Rightarrow> nat \<Rightarrow> 'a list option" where
  "slice_get xs from until =
     (if from \<le> until \<and> until \<le> length xs then Some (take (until - from) (drop from xs)) else None)"

definition slice :: "'a list \<Rightarrow> nat \<Rightarrow> nat \<Rightarrow> 'a list" where
  "slice xs from until = take (until - from) (drop from xs)"

fun chunk_by :: "('a \<Rightarrow> 'a \<Rightarrow> bool) \<Rightarrow> 'a list \<Rightarrow> 'a list list" where
  "chunk_by P [] = []"
| "chunk_by P [x] = [[x]]"
| "chunk_by P (x # y # ys) =
     (if P x y then (case chunk_by P (y # ys) of [] \<Rightarrow> [[x]] | g # gs \<Rightarrow> (x # g) # gs)
      else [x] # chunk_by P (y # ys))"

definition windows2 :: "'a list \<Rightarrow> ('a \<times> 'a) list" where
  "windows2 xs = zip xs (tl xs)"

text \<open>\<^verbatim>\<open>Vec::dedup\<close> drops repeated neighbours: the library's \<^const>\<open>remdups_adj\<close>.\<close>

text \<open>\<^verbatim>\<open>binary_search_by(|x| f(x).cmp(&k)).is_ok()\<close>: bisection on the slice.\<close>

function binary_search :: "('a \<Rightarrow> 'k::linorder) \<Rightarrow> 'k \<Rightarrow> 'a list \<Rightarrow> bool" where
  "binary_search f k xs =
     (if xs = [] then False
      else let m = length xs div 2; x = xs ! m
           in if f x = k then True
              else if f x < k then binary_search f k (drop (Suc m) xs)
              else binary_search f k (take m xs))"
  by pat_completeness auto
termination
  by (relation "measure (\<lambda>(f, k, xs). length xs)") auto

declare binary_search.simps [simp del]

text \<open>\<^verbatim>\<open>partition_point(pred)\<close>: the length of the leading run on which \<open>pred\<close> holds.\<close>

definition partition_point :: "('a \<Rightarrow> bool) \<Rightarrow> 'a list \<Rightarrow> nat" where
  "partition_point P xs = length (takeWhile P xs)"

subsection \<open>Laws of big-endian byte strings\<close>

lemma be_nat_Nil [simp]: "be_nat [] = 0" by (simp add: be_nat_def)

lemma be_nat_snoc [simp]: "be_nat (bs @ [b]) = be_nat bs * 256 + unat b"
  by (simp add: be_nat_def)

lemma be_nat_less: "be_nat bs < 256 ^ length bs"
proof (induction bs rule: rev_induct)
  case (snoc b bs)
  have "unat b < 256" using unsigned_less [of b, where ?'a = nat] by simp
  with snoc show ?case by simp
qed simp

lemma from_be_bytes_snoc:
  "from_be_bytes (bs @ [b]) = or (push_bit 8 (from_be_bytes bs)) (ucast b)"
  by (simp add: from_be_bytes_def)

lemma unat_from_be_bytes: "length bs \<le> 8 \<Longrightarrow> unat (from_be_bytes bs) = be_nat bs"
proof (induction bs rule: rev_induct)
  case Nil show ?case by (simp add: from_be_bytes_def)
next
  case (snoc b bs)
  let ?v = "from_be_bytes bs"
  have v: "unat ?v = be_nat bs" using snoc by simp
  have b: "unat b < 256" using unsigned_less [of b, where ?'a = nat] by simp
  have "be_nat bs < 256 ^ length bs" by (rule be_nat_less)
  also have "(256::nat) ^ length bs \<le> 256 ^ 7"
    using snoc.prems by (intro power_increasing) auto
  finally have small: "be_nat bs < 2 ^ 56" by simp
  have shift: "push_bit 8 ?v = ?v * 256" by (simp add: push_bit_eq_mult)
  have disj: "or (push_bit 8 ?v) (ucast b) = push_bit 8 ?v + (ucast b :: u64)"
    by (rule disjunctive_add [symmetric]) (auto simp: bit_simps dest: bit_imp_le_length)
  have "unat (?v * 256 + (ucast b :: u64)) = be_nat bs * 256 + unat b"
    using v b small by (simp add: unat_word_ariths unsigned_ucast_eq take_bit_eq_mod)
  then show ?case unfolding from_be_bytes_snoc disj unfolding shift by simp
qed

lemma length_to_be_bytes [simp]: "length (to_be_bytes n x) = n"
  by (simp add: to_be_bytes_def)

lemma to_be_bytes_Suc: "to_be_bytes (Suc n) x = ucast (drop_bit (8 * n) x) # to_be_bytes n x"
  by (simp add: to_be_bytes_def)

lemma be_nat_Cons: "be_nat (b # bs) = unat b * 256 ^ length bs + be_nat bs"
proof (induction bs rule: rev_induct)
  case Nil show ?case by (simp add: be_nat_def)
next
  case (snoc c bs)
  have "be_nat (b # bs @ [c]) = be_nat (b # bs) * 256 + unat c"
    using be_nat_snoc [of "b # bs" c] by simp
  with snoc show ?case by (simp add: algebra_simps)
qed

lemma be_nat_to_be_bytes: "be_nat (to_be_bytes n x) = unat x mod 256 ^ n"
proof (induction n)
  case 0 show ?case by (simp add: to_be_bytes_def)
next
  case (Suc n)
  have e: "(256::nat) ^ n = 2 ^ (8 * n)" by (simp add: power_mult)
  have "unat (ucast (drop_bit (8 * n) x) :: byte) = unat x div 256 ^ n mod 256"
    by (simp add: unsigned_ucast_eq unat_drop_bit_eq e take_bit_eq_mod) (simp add: drop_bit_eq_div)
  then have "be_nat (to_be_bytes (Suc n) x) = unat x div 256 ^ n mod 256 * 256 ^ n + unat x mod 256 ^ n"
    by (simp add: to_be_bytes_Suc be_nat_Cons Suc)
  also have "\<dots> = unat x mod (256 ^ n * 256)"
    by (simp add: mod_mult2_eq)
  finally show ?case by (simp add: mult.commute)
qed

lemma be_nat_inject:
  "length bs = length cs \<Longrightarrow> be_nat bs = be_nat cs \<Longrightarrow> bs = cs"
proof (induction bs cs rule: list_induct2)
  case (Cons b bs c cs)
  have lb: "be_nat bs < 256 ^ length cs" using be_nat_less [of bs] Cons.hyps by simp
  have lc: "be_nat cs < 256 ^ length cs" by (rule be_nat_less)
  have eq: "unat b * 256 ^ length cs + be_nat bs = unat c * 256 ^ length cs + be_nat cs"
    using Cons.prems Cons.hyps by (simp add: be_nat_Cons)
  have "unat b = unat c"
    using arg_cong [OF eq, of "\<lambda>x. x div 256 ^ length cs"] lb lc by simp
  with eq Cons.IH show ?case by (simp add: word_unat_eq_iff)
qed simp

lemma from_to_be_bytes:
  "n \<le> 8 \<Longrightarrow> unat x < 256 ^ n \<Longrightarrow> from_be_bytes (to_be_bytes n x) = x"
  by (simp add: word_unat_eq_iff unat_from_be_bytes be_nat_to_be_bytes)

lemma to_from_be_bytes:
  assumes "length bs \<le> 8" "n = length bs"
  shows "to_be_bytes n (from_be_bytes bs) = bs"
proof (rule be_nat_inject)
  show "be_nat (to_be_bytes n (from_be_bytes bs)) = be_nat bs"
    using assms be_nat_less [of bs] by (simp add: be_nat_to_be_bytes unat_from_be_bytes)
qed (use assms in simp)

subsection \<open>Laws of the slice operations\<close>

lemma chunk_by_eq_Nil [simp]: "chunk_by P xs = [] \<longleftrightarrow> xs = []"
  by (induction P xs rule: chunk_by.induct) (simp_all split: list.split)

lemma chunk_by_Cons_obtain:
  obtains g gs where "chunk_by P (x # xs) = g # gs"
  by (cases "chunk_by P (x # xs)") auto

lemma chunk_by_induct [case_names Nil Single Join Cut]:
  assumes "Q []" and "\<And>x. Q [x]"
    and "\<And>x y ys g gs. P x y \<Longrightarrow> chunk_by P (y # ys) = g # gs \<Longrightarrow>
      chunk_by P (x # y # ys) = (x # g) # gs \<Longrightarrow> Q (y # ys) \<Longrightarrow> Q (x # y # ys)"
    and "\<And>x y ys. \<not> P x y \<Longrightarrow>
      chunk_by P (x # y # ys) = [x] # chunk_by P (y # ys) \<Longrightarrow> Q (y # ys) \<Longrightarrow> Q (x # y # ys)"
  shows "Q xs"
proof (induction xs rule: induct_list012)
  case (3 x y ys)
  obtain g gs where g: "chunk_by P (y # ys) = g # gs" by (rule chunk_by_Cons_obtain)
  show ?case
  proof (cases "P x y")
    case True
    then show ?thesis using g 3 by (intro assms(3) [of x y ys g gs]) simp_all
  next
    case False
    then show ?thesis using 3 by (intro assms(4)) simp_all
  qed
qed (use assms in simp_all)

lemma concat_chunk_by [slice_simps]: "concat (chunk_by P xs) = xs"
  by (induction xs rule: chunk_by_induct [of _ P]) simp_all

lemma chunk_by_nonempty [slice_simps]: "g \<in> set (chunk_by P xs) \<Longrightarrow> g \<noteq> []"
  by (induction xs rule: chunk_by_induct [of _ P]) auto

lemma set_chunk_by: "(\<Union>g \<in> set (chunk_by P xs). set g) = set xs"
  using concat_chunk_by [of P xs] by (metis set_concat)

lemma hd_hd_chunk_by: "xs \<noteq> [] \<Longrightarrow> hd (hd (chunk_by P xs)) = hd xs"
  by (induction xs rule: chunk_by_induct [of _ P]) simp_all

text \<open>
  A list sorted by a key splits, by equality of that key, into groups of one key each, with
  strictly increasing keys from group to group.
\<close>

lemma chunk_by_same_key:
  "g \<in> set (chunk_by (\<lambda>x y. f x = f y) xs) \<Longrightarrow> x \<in> set g \<Longrightarrow> f x = f (hd g)"
proof (induction xs arbitrary: g x rule: chunk_by_induct [of _ "\<lambda>x y. f x = f y"])
  case (Join a b ys h hs)
  have "hd h = b" using hd_hd_chunk_by [of "b # ys" "\<lambda>x y. f x = f y"] Join.hyps(2) by simp
  then have in_h: "f z = f b" if "z \<in> set h" for z
    using Join.IH [of h z] Join.hyps(2) that by simp
  from Join.prems(1) Join.hyps(3) consider "g = a # h" | "g \<in> set hs" by auto
  then show ?case
  proof cases
    case 1
    then have "x = a \<or> x \<in> set h" using Join.prems(2) by simp
    then have "f x = f b" using Join.hyps(1) in_h [of x] by blast
    then show ?thesis using 1 Join.hyps(1) by simp
  next
    case 2
    then show ?thesis using Join.IH [of g x] Join.hyps(2) Join.prems(2) by simp
  qed
next
  case (Cut a b ys)
  show ?case
  proof (cases "g = [a]")
    case False
    with Cut.prems(1) Cut.hyps(2) have "g \<in> set (chunk_by (\<lambda>x y. f x = f y) (b # ys))" by simp
    then show ?thesis using Cut.prems(2) by (rule Cut.IH)
  qed (use Cut.prems(2) in simp)
qed auto

lemma chunk_by_keys_increase:
  "sorted (map f xs) \<Longrightarrow>
   sorted_wrt (<) (map (\<lambda>g. f (hd g)) (chunk_by (\<lambda>x y. f x = f y) xs))"
proof (induction xs rule: chunk_by_induct [of _ "\<lambda>x y. f x = f y"])
  case (Join a b ys h hs)
  have "hd h = b" using hd_hd_chunk_by [of "b # ys" "\<lambda>x y. f x = f y"] Join.hyps(2) by simp
  with Join show ?case by simp
next
  case (Cut a b ys)
  obtain h hs where h: "chunk_by (\<lambda>x y. f x = f y) (b # ys) = h # hs"
    by (rule chunk_by_Cons_obtain)
  have "hd h = b" using hd_hd_chunk_by [of "b # ys" "\<lambda>x y. f x = f y"] h by simp
  moreover have "f a < f b" using Cut by (simp add: less_le)
  ultimately show ?case using Cut h by (auto intro: order.strict_trans)
qed simp_all

lemma windows2_Cons [simp]: "windows2 (x # y # ys) = (x, y) # windows2 (y # ys)"
  by (simp add: windows2_def)

lemma windows2_short [simp]: "windows2 [] = []" "windows2 [x] = []"
  by (simp_all add: windows2_def)

lemma in_windows2_iff:
  "(a, b) \<in> set (windows2 xs) \<longleftrightarrow> (\<exists>us vs. xs = us @ a # b # vs)"
proof (induction xs rule: induct_list012)
  case (3 x y zs)
  show ?case
  proof
    assume "(a, b) \<in> set (windows2 (x # y # zs))"
    then consider "a = x" "b = y" | "(a, b) \<in> set (windows2 (y # zs))" by auto
    then show "\<exists>us vs. x # y # zs = us @ a # b # vs"
    proof cases
      case 1 then show ?thesis by (metis append_Nil)
    next
      case 2 then show ?thesis using 3 by (metis append_Cons)
    qed
  next
    assume "\<exists>us vs. x # y # zs = us @ a # b # vs"
    then obtain us vs where *: "x # y # zs = us @ a # b # vs" by blast
    show "(a, b) \<in> set (windows2 (x # y # zs))"
    proof (cases us)
      case Nil with * show ?thesis by simp
    next
      case (Cons u us')
      with * have "y # zs = us' @ a # b # vs" by simp
      then have "(a, b) \<in> set (windows2 (y # zs))" using "3.IH"(2) by blast
      then show ?thesis by simp
    qed
  qed
qed auto

lemma windows2_eq_Nil: "windows2 xs = [] \<longleftrightarrow> length xs \<le> 1"
  by (induction xs rule: induct_list012) auto

lemma binary_search_iff:
  "sorted (map f xs) \<Longrightarrow> binary_search f k xs \<longleftrightarrow> k \<in> f ` set xs"
proof (induction f k xs rule: binary_search.induct)
  case (1 f k xs)
  show ?case
  proof (cases "xs = []")
    case True then show ?thesis by (simp add: Let_def binary_search.simps)
  next
    case False
    define m where "m = length xs div 2"
    have m: "m < length xs" using False by (simp add: m_def)
    have xs: "xs = take m xs @ xs ! m # drop (Suc m) xs" by (rule id_take_nth_drop [OF m])
    have srt: "sorted (map f (take m xs @ xs ! m # drop (Suc m) xs))" using "1.prems" xs by simp
    have lo: "\<forall>y \<in> set (take m xs). f y \<le> f (xs ! m)"
      and hi: "\<forall>y \<in> set (drop (Suc m) xs). f (xs ! m) \<le> f y"
      and st: "sorted (map f (take m xs))" "sorted (map f (drop (Suc m) xs))"
      using srt by (auto simp: sorted_append)
    have set: "set xs = insert (xs ! m) (set (take m xs) \<union> set (drop (Suc m) xs))"
      by (subst xs) auto
    consider "f (xs ! m) = k" | "f (xs ! m) < k" | "k < f (xs ! m)" by fastforce
    then show ?thesis
    proof cases
      case 1
      then show ?thesis using False set by (auto simp: Let_def binary_search.simps [of f k xs] m_def [symmetric])
    next
      case 2
      then have "binary_search f k xs = binary_search f k (drop (Suc m) xs)"
        using False by (auto simp: Let_def binary_search.simps [of f k xs] m_def [symmetric])
      also have "\<dots> \<longleftrightarrow> k \<in> f ` set (drop (Suc m) xs)"
        using "1.IH"(1) [OF False m_def refl] 2 st by simp
      finally show ?thesis using set lo 2 by fastforce
    next
      case 3
      then have "binary_search f k xs = binary_search f k (take m xs)"
        using False by (auto simp: Let_def binary_search.simps [of f k xs] m_def [symmetric])
      also have "\<dots> \<longleftrightarrow> k \<in> f ` set (take m xs)"
        using "1.IH"(2) [OF False m_def refl] 3 st by simp
      finally show ?thesis using set hi 3 by fastforce
    qed
  qed
qed

lemma sorted_map_remdups_adj: "sorted (map f xs) \<Longrightarrow> sorted (map f (remdups_adj xs))"
  by (induction xs rule: remdups_adj.induct) (auto split: if_splits)

lemma sorted_fst: "sorted (map (\<lambda>x. (f x, g x)) xs) \<Longrightarrow> sorted (map f xs)"
  by (induction xs) auto

text \<open>What the groups of one key are, for a list sorted by that key.\<close>

lemma chunk_by_sublist: "g \<in> set (chunk_by P xs) \<Longrightarrow> \<exists>us vs. xs = us @ g @ vs"
  using concat_chunk_by [of P xs] by (metis concat.simps(2) concat_append split_list)

lemma group_set:
  assumes "sorted (map f xs)" and g: "g \<in> set (chunk_by (\<lambda>x y. f x = f y) xs)"
  shows "set g = {x \<in> set xs. f x = f (hd g)}"
proof (intro set_eqI iffI)
  fix x assume "x \<in> set g"
  then show "x \<in> {x \<in> set xs. f x = f (hd g)}"
    using chunk_by_same_key [OF g] g set_chunk_by [of "\<lambda>x y. f x = f y" xs] by blast
next
  fix x assume x: "x \<in> {x \<in> set xs. f x = f (hd g)}"
  then obtain h where h: "h \<in> set (chunk_by (\<lambda>x y. f x = f y) xs)" "x \<in> set h"
    using set_chunk_by [of "\<lambda>x y. f x = f y" xs] by blast
  have key: "f (hd h) = f (hd g)" using chunk_by_same_key [OF h] x by simp
  have "sorted_wrt (<) (map (\<lambda>g. f (hd g)) (chunk_by (\<lambda>x y. f x = f y) xs))"
    using assms(1) by (rule chunk_by_keys_increase)
  then have "distinct (map (\<lambda>g. f (hd g)) (chunk_by (\<lambda>x y. f x = f y) xs))"
    by (simp add: strict_sorted_iff)
  with key h(1) g have "h = g" unfolding distinct_map inj_on_def by blast
  with h(2) show "x \<in> set g" by simp
qed

lemma group_of:
  assumes "x \<in> set xs"
  obtains g where "g \<in> set (chunk_by (\<lambda>x y. f x = f y) xs)" "x \<in> set g" "f (hd g) = f x"
  using assms set_chunk_by [of "\<lambda>x y. f x = f y" xs] chunk_by_same_key [of _ f xs x] by (metis UN_E)

lemma group_sorted:
  assumes "sorted (map (\<lambda>x. (f x, h x)) xs)" and g: "g \<in> set (chunk_by (\<lambda>x y. f x = f y) xs)"
  shows "sorted (map h g)"
proof -
  obtain us vs where xs: "xs = us @ g @ vs" using chunk_by_sublist [OF g] by blast
  with assms(1) have "sorted (map (\<lambda>x. (f x, h x)) g)" by (simp add: sorted_append)
  then show ?thesis
    using chunk_by_same_key [OF g]
    by (auto simp: sorted_iff_nth_mono)
qed

text \<open>In a list with strictly increasing keys, keys that follow each other are neighbours.\<close>

lemma neighbours_in_windows:
  fixes f :: "'a \<Rightarrow> 'w::len word"
  assumes "sorted_wrt (<) (map f xs)" and "a \<in> set xs" and "b \<in> set xs" and "unat (f b) = Suc (unat (f a))"
  shows "(a, b) \<in> set (windows2 xs)"
  using assms
proof (induction xs rule: induct_list012)
  case (3 x y zs)
  have lt: "f a < f b" using 3(6) by (simp add: word_less_nat_alt)
  show ?case
  proof (cases "a = x")
    case True
    have "b \<noteq> x" using lt True by auto
    moreover have "b \<notin> set zs"
    proof
      assume "b \<in> set zs"
      then have "f x < f y" "f y < f b" using 3(3) by auto
      with 3(6) True show False by (simp add: word_less_nat_alt)
    qed
    ultimately show ?thesis using 3(5) True by simp
  next
    case False
    then have "a \<in> set (y # zs)" using 3(4) by simp
    moreover from this have "b \<in> set (y # zs)" using 3(3,5) lt by auto
    ultimately show ?thesis using 3 by simp
  qed
qed auto

lemma windows_ordered:
  "sorted_wrt (<) (map f xs) \<Longrightarrow> (a, b) \<in> set (windows2 xs) \<Longrightarrow> a \<in> set xs \<and> b \<in> set xs \<and> f a < f b"
  by (induction xs rule: induct_list012) auto

end
