(* ===== verification/EaRetry.thy ===== *)
theory EaRetry
  imports EaPrelude
begin

text \<open>
  The error classes of the archive and the bounded retry policy
  (\<^verbatim>\<open>crates/ea-types/src/error.rs\<close>). Every technical error belongs to one class and every class
  prescribes one disposition; only the class of temporary transport errors may be turned into a
  \<^verbatim>\<open>RetryPolicy\<close>. The policy is a state machine over a 16-bit counter of failed attempts; the
  jitter source is a parameter, a function from its own state and a ceiling to a delay. A panic
  of \<^verbatim>\<open>expect\<close> is the value \<^const>\<open>None\<close>.
\<close>

section \<open>Error classes\<close>

datatype error_class =
    Domain | LocalResource | TemporaryTransport | TrustSecurity | Format | Evidence
  | RecoveryDestruction

datatype retry_disposition =
    CorrectInput | RetainDraftAndBlock | BoundedRetry | FailClosed | IsolateObject
  | PreserveEntryAndReport | ReportExactPartialState

fun disposition :: "error_class \<Rightarrow> retry_disposition" where
  "disposition Domain = CorrectInput"
| "disposition LocalResource = RetainDraftAndBlock"
| "disposition TemporaryTransport = BoundedRetry"
| "disposition TrustSecurity = FailClosed"
| "disposition Format = IsolateObject"
| "disposition Evidence = PreserveEntryAndReport"
| "disposition RecoveryDestruction = ReportExactPartialState"

datatype technical_error_code =
    InvalidInput | LocalResourceUnavailable | TemporaryTransportCode | TrustViolation
  | InvalidObject | EvidenceUnavailable | RecoveryPartialState

fun class_of :: "technical_error_code \<Rightarrow> error_class" where
  "class_of InvalidInput = Domain"
| "class_of LocalResourceUnavailable = LocalResource"
| "class_of TemporaryTransportCode = TemporaryTransport"
| "class_of TrustViolation = TrustSecurity"
| "class_of InvalidObject = Format"
| "class_of EvidenceUnavailable = Evidence"
| "class_of RecoveryPartialState = RecoveryDestruction"

fun code_of :: "technical_error_code \<Rightarrow> string" where
  "code_of InvalidInput = ''EA-DOMAIN-INVALID-INPUT''"
| "code_of LocalResourceUnavailable = ''EA-LOCAL-RESOURCE-UNAVAILABLE''"
| "code_of TemporaryTransportCode = ''EA-TRANSPORT-TEMPORARY''"
| "code_of TrustViolation = ''EA-TRUST-VIOLATION''"
| "code_of InvalidObject = ''EA-FORMAT-INVALID-OBJECT''"
| "code_of EvidenceUnavailable = ''EA-EVIDENCE-UNAVAILABLE''"
| "code_of RecoveryPartialState = ''EA-RECOVERY-PARTIAL-STATE''"

record technical_error =
  te_code :: technical_error_code
  te_attempt :: "u64 option"
  te_secret :: "string option"

definition technical_error_new :: "technical_error_code \<Rightarrow> technical_error" where
  "technical_error_new c = \<lparr>te_code = c, te_attempt = None, te_secret = None\<rparr>"

section \<open>The retry policy\<close>

record retry_config =
  max_retries :: "8 word"
  base_delay_ms :: u64
  cap_delay_ms :: u64

definition retry_config_new :: "8 word \<Rightarrow> u64 \<Rightarrow> u64 \<Rightarrow> retry_config option" where
  "retry_config_new retries base cap =
     (if retries = 0 \<or> base = 0 \<or> cap = 0 then None
      else Some \<lparr>max_retries = retries, base_delay_ms = base, cap_delay_ms = cap\<rparr>)"

datatype retry_state = Active u16 | Exhausted u16

record retry_policy =
  rp_config :: retry_config
  rp_state :: retry_state

definition into_retry_policy :: "technical_error \<Rightarrow> retry_config \<Rightarrow> technical_error + retry_policy" where
  "into_retry_policy e config =
     (if class_of (te_code e) \<noteq> TemporaryTransport then Inl e
      else Inr \<lparr>rp_config = config, rp_state = Active 0\<rparr>)"

datatype retry_decision = RetryAfter u64 | RetryExhausted u16

definition saturating_mul_u64 :: "u64 \<Rightarrow> u64 \<Rightarrow> u64" where
  "saturating_mul_u64 a b = (if unat a * unat b < 2 ^ 64 then a * b else - 1)"

text \<open>\<^verbatim>\<open>1_u64.checked_shl(exponent).unwrap_or(u64::MAX)\<close>.\<close>

definition shl_one_or_max :: "nat \<Rightarrow> u64" where
  "shl_one_or_max exponent = (if exponent < 64 then push_bit exponent 1 else - 1)"

definition ceiling_ms :: "retry_config \<Rightarrow> u16 \<Rightarrow> u64" where
  "ceiling_ms config failed_attempts =
     (let multiplier = shl_one_or_max (unat (failed_attempts - 1))
      in min (saturating_mul_u64 (base_delay_ms config) multiplier) (cap_delay_ms config))"

definition retry_next ::
    "('j \<Rightarrow> u64 \<Rightarrow> u64 \<times> 'j) \<Rightarrow> 'j \<Rightarrow> retry_policy \<Rightarrow> (retry_decision \<times> 'j \<times> retry_policy) option" where
  "retry_next jitter_ms j p =
     (case rp_state p of
        Exhausted failed_attempts \<Rightarrow> Some (RetryExhausted failed_attempts, j, p)
      | Active previous \<Rightarrow>
          (case checked_succ previous of
             None \<Rightarrow> None
           | Some failed_attempts \<Rightarrow>
               if failed_attempts > ucast (max_retries (rp_config p))
               then Some (RetryExhausted failed_attempts, j, p\<lparr>rp_state := Exhausted failed_attempts\<rparr>)
               else let ceiling = ceiling_ms (rp_config p) failed_attempts;
                        (raw, j') = jitter_ms j ceiling
                    in Some (RetryAfter (min raw ceiling), j',
                             p\<lparr>rp_state := Active failed_attempts\<rparr>)))"

text \<open>Consecutive calls of \<^verbatim>\<open>next\<close> on one policy, with the decisions in order.\<close>

fun retry_run ::
    "('j \<Rightarrow> u64 \<Rightarrow> u64 \<times> 'j) \<Rightarrow> nat \<Rightarrow> 'j \<Rightarrow> retry_policy \<Rightarrow>
       (retry_decision list \<times> 'j \<times> retry_policy) option" where
  "retry_run jitter_ms 0 j p = Some ([], j, p)"
| "retry_run jitter_ms (Suc n) j p =
     (case retry_next jitter_ms j p of
        None \<Rightarrow> None
      | Some (d, j', p') \<Rightarrow>
          (case retry_run jitter_ms n j' p' of
             None \<Rightarrow> None
           | Some (ds, j'', p'') \<Rightarrow> Some (d # ds, j'', p'')))"

section \<open>The policy is bounded\<close>

text \<open>The states a policy can be in: the counter never exceeds the configured number by more than one.\<close>

fun retry_state_ok :: "retry_config \<Rightarrow> retry_state \<Rightarrow> bool" where
  "retry_state_ok c (Active n) = (unat n \<le> unat (max_retries c))"
| "retry_state_ok c (Exhausted n) = (unat n = Suc (unat (max_retries c)))"

text \<open>What the decision after \<open>k\<close> earlier calls has to be.\<close>

fun decision_ok :: "retry_config \<Rightarrow> nat \<Rightarrow> retry_decision \<Rightarrow> bool" where
  "decision_ok c k (RetryAfter d) =
     (k < unat (max_retries c) \<and> unat d \<le> unat (cap_delay_ms c) \<and>
      unat d \<le> unat (base_delay_ms c) * 2 ^ k)"
| "decision_ok c k (RetryExhausted n) =
     (unat (max_retries c) \<le> k \<and> unat n = Suc (unat (max_retries c)))"

fun state_after :: "retry_config \<Rightarrow> nat \<Rightarrow> retry_state" where
  "state_after c k =
     (if k \<le> unat (max_retries c) then Active (of_nat k)
      else Exhausted (of_nat (Suc (unat (max_retries c)))))"

lemma max_retries_bound: "unat (max_retries c) < 256"
  using unsigned_less [of "max_retries c", where ?'a = nat] by simp

lemma unat_of_nat_u16: "k < 65536 \<Longrightarrow> unat (of_nat k :: u16) = k"
  by (simp add: unat_of_nat)

lemma saturating_mul_bound: "unat (saturating_mul_u64 a b) \<le> unat a * unat b"
  by (simp add: saturating_mul_u64_def unat_word_ariths unsigned_minus_1_eq_mask mask_eq_exp_minus_1)

lemma shl_one_bound: "unat (shl_one_or_max k) \<le> 2 ^ k"
proof (cases "k < 64")
  case True
  have "(push_bit k 1 :: u64) = of_nat (2 ^ k)" by (simp add: push_bit_eq_mult)
  moreover have "(2::nat) ^ k < 2 ^ 64" using True by (intro power_strict_increasing) auto
  ultimately have "unat (push_bit k 1 :: u64) = 2 ^ k"
    by (simp add: unat_of_nat del: of_nat_power)
  with True show ?thesis by (simp add: shl_one_or_max_def)
next
  case False
  have "(2::nat) ^ 64 \<le> 2 ^ k" using False by (intro power_increasing) auto
  with False show ?thesis
    by (simp add: shl_one_or_max_def unsigned_minus_1_eq_mask mask_eq_exp_minus_1)
qed

lemma ceiling_ms_bounds:
  assumes "unat n = Suc k"
  shows "unat (ceiling_ms c n) \<le> unat (base_delay_ms c) * 2 ^ k"
    and "unat (ceiling_ms c n) \<le> unat (cap_delay_ms c)"
proof -
  have n: "unat (n - 1) = k"
  proof -
    have "(1::u16) \<le> n" using assms by (simp add: word_le_nat_alt)
    then show ?thesis using assms by (simp add: unat_sub)
  qed
  let ?m = "saturating_mul_u64 (base_delay_ms c) (shl_one_or_max k)"
  have "unat ?m \<le> unat (base_delay_ms c) * unat (shl_one_or_max k)" by (rule saturating_mul_bound)
  also have "\<dots> \<le> unat (base_delay_ms c) * 2 ^ k" using shl_one_bound by simp
  finally have m: "unat ?m \<le> unat (base_delay_ms c) * 2 ^ k" .
  show "unat (ceiling_ms c n) \<le> unat (base_delay_ms c) * 2 ^ k"
    using m by (auto simp: ceiling_ms_def n Let_def min_def word_le_nat_alt)
  show "unat (ceiling_ms c n) \<le> unat (cap_delay_ms c)"
    by (auto simp: ceiling_ms_def Let_def min_def word_le_nat_alt)
qed

lemma retry_next_step:
  fixes p :: retry_policy
  assumes "rp_config p = c" "rp_state p = state_after c k"
  obtains d j' where "retry_next jit j p = Some (d, j', p\<lparr>rp_state := state_after c (Suc k)\<rparr>)"
    and "decision_ok c k d"
proof (cases "k \<le> unat (max_retries c)")
  case False
  then have "rp_state p = Exhausted (of_nat (Suc (unat (max_retries c))))" using assms by simp
  then have "retry_next jit j p =
      Some (RetryExhausted (of_nat (Suc (unat (max_retries c)))), j, p\<lparr>rp_state := state_after c (Suc k)\<rparr>)"
    using False by (simp add: retry_next_def)
  moreover have "decision_ok c k (RetryExhausted (of_nat (Suc (unat (max_retries c)))))"
    using False max_retries_bound [of c] by (simp add: unat_of_nat_u16 del: of_nat_Suc)
  ultimately show thesis by (rule that)
next
  case True
  let ?n = "of_nat (Suc k) :: u16"
  have k: "k < 65535" using True max_retries_bound [of c] by simp
  have st: "rp_state p = Active (of_nat k)" using True assms by simp
  have n: "unat ?n = Suc k" using k by (simp add: unat_of_nat_u16 del: of_nat_Suc)
  have succ: "checked_succ (of_nat k :: u16) = Some ?n"
    using k n by (simp add: checked_succ_Some unat_of_nat_u16)
  have cmp: "?n > ucast (max_retries c) \<longleftrightarrow> unat (max_retries c) < Suc k"
    using n max_retries_bound [of c] by (simp add: word_less_nat_alt unsigned_ucast_eq take_bit_eq_mod)
  show thesis
  proof (cases "k = unat (max_retries c)")
    case True
    then have "retry_next jit j p = Some (RetryExhausted ?n, j, p\<lparr>rp_state := state_after c (Suc k)\<rparr>)"
      using st succ cmp assms(1) by (simp add: retry_next_def)
    moreover have "decision_ok c k (RetryExhausted ?n)" using True n by simp
    ultimately show thesis by (rule that)
  next
    case False
    with True have less: "k < unat (max_retries c)" by simp
    obtain raw j' where jit: "jit j (ceiling_ms c ?n) = (raw, j')" by force
    let ?d = "min raw (ceiling_ms c ?n)"
    have "retry_next jit j p = Some (RetryAfter ?d, j', p\<lparr>rp_state := state_after c (Suc k)\<rparr>)"
      using st succ cmp less jit assms(1) by (simp add: retry_next_def Let_def)
    moreover have "unat ?d \<le> unat (ceiling_ms c ?n)"
      by (simp add: min_def word_le_nat_alt)
    then have "decision_ok c k (RetryAfter ?d)"
      using less ceiling_ms_bounds [OF n, of c] by simp
    ultimately show thesis by (rule that)
  qed
qed

lemma retry_run_from:
  assumes "rp_config p = c" "rp_state p = state_after c k"
  shows "\<exists>ds j'. retry_run jit n j p = Some (ds, j', p\<lparr>rp_state := state_after c (k + n)\<rparr>) \<and>
    length ds = n \<and> (\<forall>i < n. decision_ok c (k + i) (ds ! i))"
  using assms
proof (induction n arbitrary: k j p)
  case 0
  then have "p\<lparr>rp_state := state_after c k\<rparr> = p" by (metis retry_policy.surjective retry_policy.update_convs(2))
  then show ?case by simp
next
  case (Suc n)
  obtain d j1 where step: "retry_next jit j p = Some (d, j1, p\<lparr>rp_state := state_after c (Suc k)\<rparr>)"
    and d: "decision_ok c k d"
    using Suc.prems by (rule retry_next_step)
  let ?p = "p\<lparr>rp_state := state_after c (Suc k)\<rparr>"
  obtain ds j2 where run: "retry_run jit n j1 ?p = Some (ds, j2, ?p\<lparr>rp_state := state_after c (Suc k + n)\<rparr>)"
    and len: "length ds = n" and ds: "\<forall>i < n. decision_ok c (Suc k + i) (ds ! i)"
    using Suc.IH [of ?p "Suc k" j1] Suc.prems by auto
  have "\<forall>i < Suc n. decision_ok c (k + i) ((d # ds) ! i)"
    using d ds by (auto simp: nth_Cons split: nat.split simp del: decision_ok.simps)
  then show ?case using step run len by (simp del: decision_ok.simps state_after.simps)
qed

text \<open>
  C38. A policy obtained from a temporary transport error never panics and is bounded: whatever
  the jitter source returns, the first \<^verbatim>\<open>max_retries\<close> decisions are retries whose delay is at
  most the cap and at most the base delay doubled once per earlier attempt, and every later
  decision is \<^verbatim>\<open>Exhausted\<close> with the count \<^verbatim>\<open>max_retries + 1\<close>.
\<close>

theorem retry_policy_bounded:
  assumes "into_retry_policy e c = Inr p"
  shows "\<exists>ds j'. retry_run jit n j p = Some (ds, j', p\<lparr>rp_state := state_after c n\<rparr>) \<and>
    length ds = n \<and> (\<forall>i < n. decision_ok c i (ds ! i))"
proof -
  have "rp_config p = c" "rp_state p = state_after c 0"
    using assms by (auto simp: into_retry_policy_def split: if_splits)
  from retry_run_from [OF this] show ?thesis by (simp del: state_after.simps decision_ok.simps)
qed

theorem retry_policy_bounded_witness:
  "\<exists>c p ds j'. into_retry_policy (technical_error_new TemporaryTransportCode) c = Inr p \<and>
    retry_run (\<lambda>j m. (m, j)) 5 () p = Some (ds, j', p\<lparr>rp_state := state_after c 5\<rparr>) \<and>
    (\<forall>i < 5. decision_ok c i (ds ! i))"
proof -
  let ?c = "\<lparr>max_retries = 2, base_delay_ms = 100, cap_delay_ms = 1000\<rparr>"
  let ?p = "\<lparr>rp_config = ?c, rp_state = Active 0\<rparr>"
  have h: "into_retry_policy (technical_error_new TemporaryTransportCode) ?c = Inr ?p"
    by (simp add: into_retry_policy_def technical_error_new_def)
  from h retry_policy_bounded [OF h, of "\<lambda>j m. (m, j)" 5 "()"] show ?thesis by blast
qed

end
