(* ===== verification/EaSyncRetry.thy ===== *)
theory EaSyncRetry
  imports EaRetry
begin

text \<open>
  The durable resume counter of the writer synchronisation
  (\<^verbatim>\<open>crates/ea-sync-client/src/retry.rs\<close>). The table \<^verbatim>\<open>sync_retry\<close> is a map from entry object
  hashes to rows; a database that does not answer makes every statement fail. Each booking of a
  failure rebuilds the retry policy of \<^verbatim>\<open>ea-types\<close> from its configuration and winds it forward
  to the stored counter, so the bound holds across restarts of the process: nothing but the
  table is carried from one call to the next.
\<close>

datatype sync_client_error = RetryStateUnreadable

record retry_row =
  row_failed_attempts :: int
  row_next_attempt_at_ms :: int
  row_cursor :: "bytes option"
  row_recorded_at_ms :: int

record retry_store =
  rs_answers :: bool
  rs_table :: "hash32 \<rightharpoonup> retry_row"
  rs_config :: retry_config
  rs_max_attempts :: u16

record retry_schedule =
  failed_attempts :: u16
  next_attempt_at :: int
  cursor :: "bytes option"

definition schedule_fresh :: retry_schedule where
  "schedule_fresh = \<lparr>failed_attempts = 0, next_attempt_at = 0, cursor = None\<rparr>"

definition is_due :: "retry_schedule \<Rightarrow> int \<Rightarrow> bool" where
  "is_due s now \<longleftrightarrow> next_attempt_at s \<le> now"

definition retry_load :: "retry_store \<Rightarrow> hash32 \<Rightarrow> sync_client_error + retry_schedule" where
  "retry_load s entry =
     (if \<not> rs_answers s then Inl RetryStateUnreadable
      else case rs_table s entry of
        None \<Rightarrow> Inr schedule_fresh
      | Some row \<Rightarrow>
          let n = max (row_failed_attempts row) 0
          in if n \<ge> 2 ^ 16 then Inl RetryStateUnreadable
             else Inr \<lparr>failed_attempts = word_of_int n,
                       next_attempt_at = row_next_attempt_at_ms row, cursor = row_cursor row\<rparr>)"

text \<open>The upsert; the table checks the length of its key.\<close>

definition write_row ::
    "hash32 \<Rightarrow> u16 \<Rightarrow> int \<Rightarrow> bytes option \<Rightarrow> int \<Rightarrow> retry_store \<Rightarrow> sync_client_error + retry_store" where
  "write_row entry attempts next_at cur now s =
     (if \<not> rs_answers s \<or> length entry \<noteq> 32 then Inl RetryStateUnreadable
      else Inr (s\<lparr>rs_table := (rs_table s)(entry \<mapsto>
             \<lparr>row_failed_attempts = uint attempts, row_next_attempt_at_ms = next_at,
              row_cursor = cur, row_recorded_at_ms = now\<rparr>)\<rparr>))"

text \<open>\<^verbatim>\<open>let mut decision = policy.next(jitter); for _ in 1..failed_attempts { decision = policy.next(jitter) }\<close>.\<close>

definition retry_advance ::
    "('j \<Rightarrow> u64 \<Rightarrow> u64 \<times> 'j) \<Rightarrow> retry_policy \<Rightarrow> u16 \<Rightarrow> 'j \<Rightarrow> (retry_decision \<times> 'j) option" where
  "retry_advance jitter_ms p attempts j =
     (case retry_run jitter_ms (Suc (unat attempts - 1)) j p of
        None \<Rightarrow> None
      | Some (ds, j', p') \<Rightarrow> Some (last ds, j'))"

definition saturating_succ_u16 :: "u16 \<Rightarrow> u16" where
  "saturating_succ_u16 n = (case checked_succ n of None \<Rightarrow> - 1 | Some m \<Rightarrow> m)"

definition saturating_add_i64 :: "int \<Rightarrow> int \<Rightarrow> int" where
  "saturating_add_i64 a b = max i64_min (min i64_max (a + b))"

definition next_attempt :: "int \<Rightarrow> u64 \<Rightarrow> int" where
  "next_attempt now delay_ms =
     saturating_add_i64 now (if uint delay_ms \<le> i64_max then uint delay_ms else i64_max)"

text \<open>The outer \<^const>\<open>None\<close> is a panic of the policy; the store changes only through \<^const>\<open>write_row\<close>.\<close>

definition record_failure ::
    "('j \<Rightarrow> u64 \<Rightarrow> u64 \<times> 'j) \<Rightarrow> hash32 \<Rightarrow> int \<Rightarrow> retry_store \<Rightarrow> 'j \<Rightarrow>
       ((sync_client_error + retry_schedule option) \<times> retry_store \<times> 'j) option" where
  "record_failure jitter_ms entry now s j =
     (case retry_load s entry of
        Inl e \<Rightarrow> Some (Inl e, s, j)
      | Inr previous \<Rightarrow>
          let attempts = saturating_succ_u16 (failed_attempts previous)
          in case into_retry_policy (technical_error_new TemporaryTransportCode) (rs_config s) of
               Inl _ \<Rightarrow> None
             | Inr policy \<Rightarrow>
                 (case retry_advance jitter_ms policy attempts j of
                    None \<Rightarrow> None
                  | Some (RetryExhausted _, j') \<Rightarrow>
                      (case write_row entry attempts (next_attempt_at previous) (cursor previous) now s of
                         Inl e \<Rightarrow> Some (Inl e, s, j')
                       | Inr s' \<Rightarrow> Some (Inr None, s', j'))
                  | Some (RetryAfter delay_ms, j') \<Rightarrow>
                      if attempts \<ge> rs_max_attempts s
                      then (case write_row entry attempts (next_attempt_at previous) (cursor previous) now s of
                              Inl e \<Rightarrow> Some (Inl e, s, j')
                            | Inr s' \<Rightarrow> Some (Inr None, s', j'))
                      else let next_at = next_attempt now delay_ms
                           in case write_row entry attempts next_at (cursor previous) now s of
                                Inl e \<Rightarrow> Some (Inl e, s, j')
                              | Inr s' \<Rightarrow>
                                  Some (Inr (Some \<lparr>failed_attempts = attempts,
                                    next_attempt_at = next_at, cursor = cursor previous\<rparr>), s', j')))"

definition record_cursor :: "hash32 \<Rightarrow> bytes \<Rightarrow> int \<Rightarrow> retry_store \<Rightarrow> (sync_client_error + unit) \<times> retry_store" where
  "record_cursor entry cur now s =
     (case retry_load s entry of
        Inl e \<Rightarrow> (Inl e, s)
      | Inr previous \<Rightarrow>
          (case write_row entry (failed_attempts previous) (next_attempt_at previous) (Some cur) now s of
             Inl e \<Rightarrow> (Inl e, s)
           | Inr s' \<Rightarrow> (Inr (), s')))"

definition retry_clear :: "hash32 \<Rightarrow> retry_store \<Rightarrow> (sync_client_error + unit) \<times> retry_store" where
  "retry_clear entry s =
     (if \<not> rs_answers s then (Inl RetryStateUnreadable, s)
      else (Inr (), s\<lparr>rs_table := (rs_table s)(entry := None)\<rparr>))"

text \<open>A run of failed attempts of one entry, at the given times, with the answers in order.\<close>

fun fail_run ::
    "('j \<Rightarrow> u64 \<Rightarrow> u64 \<times> 'j) \<Rightarrow> hash32 \<Rightarrow> int list \<Rightarrow> retry_store \<Rightarrow> 'j \<Rightarrow>
       ((sync_client_error + retry_schedule option) list \<times> retry_store) option" where
  "fail_run jitter_ms entry [] s j = Some ([], s)"
| "fail_run jitter_ms entry (now # nows) s j =
     (case record_failure jitter_ms entry now s j of
        None \<Rightarrow> None
      | Some (r, s', j') \<Rightarrow>
          (case fail_run jitter_ms entry nows s' j' of
             None \<Rightarrow> None
           | Some (rs, s'') \<Rightarrow> Some (r # rs, s'')))"

section \<open>The durable counter is exhausted after a bounded number of failures\<close>

lemma saturating_succ_small: "unat n < 65535 \<Longrightarrow> unat (saturating_succ_u16 n) = Suc (unat n)"
proof -
  assume n: "unat n < 65535"
  have "\<exists>m. checked_succ n = Some m"
    using n by (simp add: checked_succ_def checked_add_word_def)
  then obtain m where m: "checked_succ n = Some m" by blast
  from m checked_succ_eq_Some_nat [OF m] show ?thesis by (simp add: saturating_succ_u16_def)
qed

lemma advance_decision:
  assumes "rp_config p = c" "rp_state p = Active 0" "unat n = Suc k"
  obtains d j' where "retry_advance jit p n j = Some (d, j')" "decision_ok c k d"
proof -
  have "rp_state p = state_after c 0" using assms(2) by simp
  from retry_run_from [OF assms(1) this, of jit "Suc k" j] obtain ds j' where
    run: "retry_run jit (Suc k) j p = Some (ds, j', p\<lparr>rp_state := state_after c (Suc k)\<rparr>)"
    and len: "length ds = Suc k" and ok: "\<forall>i < Suc k. decision_ok c i (ds ! i)"
    by (auto simp del: state_after.simps decision_ok.simps retry_run.simps)
  have "last ds = ds ! k" using len by (cases ds rule: rev_cases) auto
  then have "retry_advance jit p n j = Some (ds ! k, j')"
    using run assms(3) by (simp add: retry_advance_def del: retry_run.simps)
  moreover have "decision_ok c k (ds ! k)" using ok by blast
  ultimately show thesis by (rule that)
qed

definition bound_reached :: "retry_store \<Rightarrow> nat \<Rightarrow> bool" where
  "bound_reached s n \<longleftrightarrow> unat (rs_max_attempts s) \<le> n \<or> unat (max_retries (rs_config s)) < n"

lemma load_after_write:
  assumes "write_row e n a c now s = Inr s'"
  shows "retry_load s' e = Inr \<lparr>failed_attempts = n, next_attempt_at = a, cursor = c\<rparr>"
proof -
  have "uint n < 2 ^ 16" using uint_lt2p [of n] by simp
  then show ?thesis using assms
    by (auto simp: write_row_def retry_load_def split: if_splits)
qed

lemma write_row_frame:
  assumes "write_row e n a c now s = Inr s'"
  shows "rs_answers s'" "rs_config s' = rs_config s" "rs_max_attempts s' = rs_max_attempts s"
    and "e' \<noteq> e \<Longrightarrow> rs_table s' e' = rs_table s e'"
  using assms by (auto simp: write_row_def split: if_splits)

lemma write_row_succeeds:
  "rs_answers s \<Longrightarrow> length e = 32 \<Longrightarrow> \<exists>s'. write_row e n a c now s = Inr s'"
  by (simp add: write_row_def)

lemma record_failure_step:
  assumes ans: "rs_answers s" and len: "length e = 32"
    and prev: "retry_load s e = Inr prev" and k: "unat (failed_attempts prev) = k" "k < 65535"
  obtains r s' j' a where "record_failure jit e now s j = Some (Inr r, s', j')"
    and "write_row e (saturating_succ_u16 (failed_attempts prev)) a (cursor prev) now s = Inr s'"
    and "r = None \<longleftrightarrow> bound_reached s (Suc k)"
proof -
  let ?n = "saturating_succ_u16 (failed_attempts prev)"
  let ?c = "rs_config s"
  let ?p = "\<lparr>rp_config = ?c, rp_state = Active 0\<rparr>"
  have n: "unat ?n = Suc k" using k saturating_succ_small by simp
  have pol: "into_retry_policy (technical_error_new TemporaryTransportCode) ?c = Inr ?p"
    by (simp add: into_retry_policy_def technical_error_new_def)
  obtain d j' where adv: "retry_advance jit ?p ?n j = Some (d, j')" and d: "decision_ok ?c k d"
    by (rule advance_decision [of ?p ?c ?n k]) (use n in simp_all)
  have cmp: "rs_max_attempts s \<le> ?n \<longleftrightarrow> unat (rs_max_attempts s) \<le> Suc k"
    by (simp add: word_le_nat_alt n)
  show thesis
  proof (cases d)
    case (RetryAfter delay)
    then have le: "k < unat (max_retries ?c)" using d by simp
    show thesis
    proof (cases "rs_max_attempts s \<le> ?n")
      case True
      obtain s' where w: "write_row e ?n (next_attempt_at prev) (cursor prev) now s = Inr s'"
        using write_row_succeeds [OF ans len] by blast
      have "record_failure jit e now s j = Some (Inr None, s', j')"
        using prev pol adv RetryAfter True w by (simp add: record_failure_def)
      then show thesis using w True cmp by (intro that) (simp_all add: bound_reached_def)
    next
      case False
      obtain s' where w: "write_row e ?n (next_attempt now delay) (cursor prev) now s = Inr s'"
        using write_row_succeeds [OF ans len] by blast
      have "record_failure jit e now s j = Some (Inr (Some \<lparr>failed_attempts = ?n,
          next_attempt_at = next_attempt now delay, cursor = cursor prev\<rparr>), s', j')"
        using prev pol adv RetryAfter False w by (simp add: record_failure_def Let_def)
      then show thesis using w False cmp le by (intro that) (auto simp: bound_reached_def)
    qed
  next
    case (RetryExhausted m)
    then have ge: "unat (max_retries ?c) \<le> k" using d by simp
    obtain s' where w: "write_row e ?n (next_attempt_at prev) (cursor prev) now s = Inr s'"
      using write_row_succeeds [OF ans len] by blast
    have "record_failure jit e now s j = Some (Inr None, s', j')"
      using prev pol adv RetryExhausted w by (simp add: record_failure_def)
    then show thesis using w ge by (intro that) (simp_all add: bound_reached_def)
  qed
qed

lemma fail_run_from:
  assumes "rs_answers s" "length e = 32" "retry_load s e = Inr prev"
    and "unat (failed_attempts prev) + length nows \<le> 65535"
  shows "\<exists>rs s'. fail_run jit e nows s j = Some (rs, s') \<and> length rs = length nows \<and>
    (\<forall>i < length nows. \<exists>r. rs ! i = Inr r \<and>
       (r = None \<longleftrightarrow> bound_reached s (unat (failed_attempts prev) + Suc i))) \<and>
    (\<forall>e'. e' \<noteq> e \<longrightarrow> rs_table s' e' = rs_table s e')"
  using assms
proof (induction nows arbitrary: s j prev)
  case (Cons now nows)
  let ?n = "saturating_succ_u16 (failed_attempts prev)"
  obtain r s1 j1 a where step: "record_failure jit e now s j = Some (Inr r, s1, j1)"
    and w: "write_row e ?n a (cursor prev) now s = Inr s1"
    and r: "r = None \<longleftrightarrow> bound_reached s (Suc (unat (failed_attempts prev)))"
    by (rule record_failure_step [OF Cons.prems(1-3) refl]) (use Cons.prems(4) in auto)
  note frame = write_row_frame [OF w]
  let ?prev = "\<lparr>failed_attempts = ?n, next_attempt_at = a, cursor = cursor prev\<rparr>"
  have n: "unat ?n = Suc (unat (failed_attempts prev))"
    using Cons.prems(4) by (intro saturating_succ_small) simp
  have b: "bound_reached s1 m = bound_reached s m" for m
    by (simp add: bound_reached_def frame)
  obtain rs s2 where run: "fail_run jit e nows s1 j1 = Some (rs, s2)" and len: "length rs = length nows"
    and rs: "\<forall>i < length nows. \<exists>r. rs ! i = Inr r \<and>
       (r = None \<longleftrightarrow> bound_reached s (Suc (unat (failed_attempts prev)) + Suc i))"
    and same: "\<forall>e'. e' \<noteq> e \<longrightarrow> rs_table s2 e' = rs_table s1 e'"
    using Cons.IH [of s1 ?prev j1] frame(1) Cons.prems(2,4) load_after_write [OF w] n
    by (auto simp: b)
  have "\<forall>i < Suc (length nows). \<exists>q. (Inr r # rs) ! i = Inr q \<and>
      (q = None \<longleftrightarrow> bound_reached s (unat (failed_attempts prev) + Suc i))"
    using r rs by (auto simp: nth_Cons split: nat.split)
  then show ?case using step run len same frame(4) by auto
qed simp

lemma fresh_load: "rs_answers s \<Longrightarrow> rs_table s e = None \<Longrightarrow> retry_load s e = Inr schedule_fresh"
  by (simp add: retry_load_def)

text \<open>
  C39. The bound of the profile survives restarts: for an entry the table does not know yet, the
  answer to the \<open>n\<close>-th failure in a row is the durable exhaustion (\<^verbatim>\<open>Ok(None)\<close>) exactly when
  \<open>n\<close> has reached the attempts of the profile or passed the retries of the policy; before that
  every failure gets a next attempt. No booking panics or fails, and no other entry's counter is
  touched.
\<close>

theorem sync_retry_exhaustion:
  assumes "rs_answers s" "length e = 32" "rs_table s e = None" "length nows \<le> 65535"
  shows "\<exists>rs s'. fail_run jit e nows s j = Some (rs, s') \<and> length rs = length nows \<and>
    (\<forall>i < length nows. \<exists>r. rs ! i = Inr r \<and>
       (r = None \<longleftrightarrow> unat (rs_max_attempts s) \<le> Suc i \<or> unat (max_retries (rs_config s)) < Suc i)) \<and>
    (\<forall>e'. e' \<noteq> e \<longrightarrow> rs_table s' e' = rs_table s e')"
  using fail_run_from [OF assms(1,2) fresh_load [OF assms(1,3)], of nows jit j] assms(4)
  by (simp add: schedule_fresh_def bound_reached_def)

theorem sync_retry_exhaustion_witness:
  "\<exists>rs s'. fail_run (\<lambda>j m. (m, j)) (replicate 32 7) [10, 20, 30]
      \<lparr>rs_answers = True, rs_table = Map.empty,
       rs_config = \<lparr>max_retries = 5, base_delay_ms = 100, cap_delay_ms = 1000\<rparr>,
       rs_max_attempts = 2\<rparr> () = Some (rs, s') \<and>
    (\<exists>v. rs ! 0 = Inr (Some v)) \<and> rs ! 1 = Inr None \<and> rs ! 2 = Inr None"
proof -
  let ?s = "\<lparr>rs_answers = True, rs_table = Map.empty,
       rs_config = \<lparr>max_retries = 5, base_delay_ms = 100, cap_delay_ms = 1000\<rparr>,
       rs_max_attempts = 2\<rparr>"
  from sync_retry_exhaustion [of ?s "replicate 32 7" "[10, 20, 30]" "\<lambda>j m. (m, j)" "()"]
  obtain rs s' where run: "fail_run (\<lambda>j m. (m, j)) (replicate 32 7) [10, 20, 30] ?s () = Some (rs, s')"
    and rs: "\<forall>i < 3. \<exists>r. rs ! i = Inr r \<and> (r = None \<longleftrightarrow> 2 \<le> Suc i \<or> 5 < Suc i)"
    by auto
  have "\<exists>r. rs ! 0 = Inr r \<and> (r = None \<longleftrightarrow> 2 \<le> Suc 0 \<or> 5 < Suc 0)"
    "\<exists>r. rs ! 1 = Inr r \<and> (r = None \<longleftrightarrow> 2 \<le> Suc 1 \<or> 5 < Suc 1)"
    "\<exists>r. rs ! 2 = Inr r \<and> (r = None \<longleftrightarrow> 2 \<le> Suc 2 \<or> 5 < Suc 2)"
    by (rule rs [rule_format], simp)+
  with run show ?thesis by auto
qed

end
