(* ===== verification/EaTime.thy ===== *)
theory EaTime
  imports EaPrelude
begin

text \<open>
  Trusted time (\<^verbatim>\<open>crates/ea-time/src/model.rs\<close> and \<^verbatim>\<open>evaluate.rs\<close>). A trusted time state is a
  floor below which time never falls and the best independent time reference seen so far.
  \<^verbatim>\<open>UnixMillis\<close> is an integer; the checked conversion back to 64 bits is written out in
  \<open>checked_add_millis\<close>. References are ranked by a later verified time, then by kind, then by the
  smaller object hash.
\<close>

section \<open>Model\<close>

datatype time_error = Overflow | StateMonotonicity

datatype independent_time_kind = Receipt | Checkpoint | Tsa

fun tag :: "independent_time_kind \<Rightarrow> nat" where
  "tag Receipt = 0"
| "tag Checkpoint = 1"
| "tag Tsa = 2"

record independent_time_input =
  in_kind :: independent_time_kind
  in_object_hash :: hash32
  in_verified_time :: int

record independent_time_reference =
  ref_kind :: independent_time_kind
  ref_object_hash :: hash32
  verified_time :: int

definition from_input :: "independent_time_input \<Rightarrow> independent_time_reference" where
  "from_input i = \<lparr>ref_kind = in_kind i, ref_object_hash = in_object_hash i,
     verified_time = in_verified_time i\<rparr>"

definition is_preferred_to :: "independent_time_reference \<Rightarrow> independent_time_reference \<Rightarrow> bool" where
  "is_preferred_to r other =
     (if verified_time other < verified_time r then True
      else if verified_time r < verified_time other then False
      else if tag (ref_kind r) < tag (ref_kind other) then True
      else if tag (ref_kind other) < tag (ref_kind r) then False
      else ref_object_hash r < ref_object_hash other)"

record trusted_time_state =
  floor_ms :: int
  independent_reference :: "independent_time_reference option"

definition initial :: "int \<Rightarrow> trusted_time_state" where
  "initial f = \<lparr>floor_ms = f, independent_reference = None\<rparr>"

definition validate_state :: "trusted_time_state \<Rightarrow> time_error + unit" where
  "validate_state s =
     (case independent_reference s of
        None \<Rightarrow> Inr ()
      | Some r \<Rightarrow> reject_if (verified_time r > floor_ms s) StateMonotonicity)"

definition from_persisted :: "int \<Rightarrow> independent_time_input option \<Rightarrow> time_error + trusted_time_state" where
  "from_persisted f i =
     (let s = \<lparr>floor_ms = f, independent_reference = map_option from_input i\<rparr>
      in bindE (validate_state s) (\<lambda>_. Inr s))"

record time_advance =
  adv_state :: trusted_time_state
  changed :: bool

record time_warnings =
  clock_rollback :: bool
  independent_time_unavailable :: bool

datatype future_skew = WithinLimit | UnprovableWithoutIndependentReference | Blocked

record time_evaluation =
  raw_now :: int
  warnings :: time_warnings
  ev_future_skew :: future_skew

section \<open>Operations\<close>

fun select_reference ::
    "independent_time_reference option \<Rightarrow> independent_time_input list \<Rightarrow>
       independent_time_reference option" where
  "select_reference selected [] = selected"
| "select_reference selected (i # is) =
     (let candidate = from_input i
      in if (case selected of None \<Rightarrow> True | Some current \<Rightarrow> is_preferred_to candidate current)
         then select_reference (Some candidate) is
         else select_reference selected is)"

definition merge_independent_references ::
    "trusted_time_state \<Rightarrow> independent_time_input list \<Rightarrow> time_error + time_advance" where
  "merge_independent_references persisted verified_inputs =
     bindE (validate_state persisted) (\<lambda>_.
       let selected = select_reference (independent_reference persisted) verified_inputs;
           f = (case selected of
                  None \<Rightarrow> floor_ms persisted
                | Some r \<Rightarrow> max (floor_ms persisted) (verified_time r))
       in Inr \<lparr>adv_state = \<lparr>floor_ms = f, independent_reference = selected\<rparr>,
               changed = (selected \<noteq> independent_reference persisted)\<rparr>)"

text \<open>The sum in 128 bits, then the checked conversion to 64 bits.\<close>

definition checked_add_millis :: "int \<Rightarrow> u64 \<Rightarrow> time_error + int" where
  "checked_add_millis t delta =
     (let s = t + uint delta
      in if s < - (2 ^ 127) \<or> 2 ^ 127 \<le> s then Inl Overflow
         else if is_i64 s then Inr s else Inl Overflow)"

definition evaluate_preexisting_time ::
    "int \<Rightarrow> trusted_time_state \<Rightarrow> u64 \<Rightarrow> time_error + time_evaluation" where
  "evaluate_preexisting_time os_wall_clock s max_skew =
     bindE (validate_state s) (\<lambda>_.
     bindE (case independent_reference s of
              None \<Rightarrow> Inr (True, UnprovableWithoutIndependentReference)
            | Some r \<Rightarrow>
                bindE (checked_add_millis (verified_time r) max_skew) (\<lambda>future_limit.
                Inr (False, if os_wall_clock \<le> future_limit then WithinLimit else Blocked)))
       (\<lambda>(unavailable, skew).
         Inr \<lparr>raw_now = max os_wall_clock (floor_ms s),
              warnings = \<lparr>clock_rollback = (os_wall_clock < floor_ms s),
                          independent_time_unavailable = unavailable\<rparr>,
              ev_future_skew = skew\<rparr>))"

definition advance_registry_floor :: "trusted_time_state \<Rightarrow> int \<Rightarrow> int \<Rightarrow> trusted_time_state" where
  "advance_registry_floor s issued_at not_before =
     \<lparr>floor_ms = max (max (floor_ms s) issued_at) not_before,
      independent_reference = independent_reference s\<rparr>"

section \<open>The preference order\<close>

text \<open>A state is monotone when its reference is not later than its floor.\<close>

definition monotone_state :: "trusted_time_state \<Rightarrow> bool" where
  "monotone_state s \<longleftrightarrow>
     (\<forall>r. independent_reference s = Some r \<longrightarrow> verified_time r \<le> floor_ms s)"

definition ref_rank :: "independent_time_reference \<Rightarrow> int \<times> nat \<times> hash32" where
  "ref_rank r = (- verified_time r, tag (ref_kind r), ref_object_hash r)"

text \<open>
  What a selection by a strict preference gives when the preference comes from an injective rank:
  the loop keeps the one candidate of least rank, whatever the order of the candidates.
\<close>

locale preference =
  fixes better :: "'a \<Rightarrow> 'a \<Rightarrow> bool"
    and rank :: "'a \<Rightarrow> 'r::linorder"
  assumes better_iff: "better a b \<longleftrightarrow> rank a < rank b"
    and rank_inj: "rank a = rank b \<Longrightarrow> a = b"
begin

definition pick :: "'a \<Rightarrow> 'a option \<Rightarrow> 'a option" where
  "pick x selected =
     (if (case selected of None \<Rightarrow> True | Some c \<Rightarrow> better x c) then Some x else selected)"

definition best :: "'a set \<Rightarrow> 'a \<Rightarrow> bool" where
  "best A r \<longleftrightarrow> r \<in> A \<and> (\<forall>c\<in>A. c = r \<or> better r c)"

lemma best_unique: "best A r \<Longrightarrow> best A s \<Longrightarrow> r = s"
  unfolding best_def by (metis better_iff order_less_asym)

lemma best_iff_rank: "best A r \<longleftrightarrow> r \<in> A \<and> (\<forall>c\<in>A. rank r \<le> rank c)"
  unfolding best_def better_iff by (metis order_le_less rank_inj)

lemma best_pick:
  "(\<exists>r. pick x selected = Some r) \<and> best (insert x (set_option selected)) (the (pick x selected))"
  by (cases selected) (auto simp: pick_def best_iff_rank better_iff)

lemma fold_pick:
  "fold pick xs selected = Some r \<longleftrightarrow> best (set xs \<union> set_option selected) r"
proof (induction xs arbitrary: selected)
  case Nil
  show ?case by (cases selected) (auto simp: best_iff_rank)
next
  case (Cons x xs)
  obtain s where s: "pick x selected = Some s" and bs: "best (insert x (set_option selected)) s"
    using best_pick [of x selected] by auto
  have "best (set xs \<union> {s}) r \<longleftrightarrow> best (set (x # xs) \<union> set_option selected) r"
  proof
    assume "best (set xs \<union> {s}) r"
    with bs show "best (set (x # xs) \<union> set_option selected) r"
      unfolding best_iff_rank by (auto intro: order_trans)
  next
    assume r: "best (set (x # xs) \<union> set_option selected) r"
    have "r = s" if "r \<in> insert x (set_option selected)"
      using that r bs unfolding best_iff_rank by (metis Un_iff insert_iff list.set(2) order_antisym rank_inj)
    with r bs show "best (set xs \<union> {s}) r"
      unfolding best_iff_rank by auto
  qed
  with Cons.IH [of "Some s"] s show ?case by simp
qed

lemma fold_pick_None: "fold pick xs selected = None \<longleftrightarrow> xs = [] \<and> selected = None"
proof (induction xs arbitrary: selected)
  case (Cons x xs)
  then show ?case using best_pick [of x selected] by auto
qed simp

lemma fold_pick_eqI:
  "(\<And>r. fold pick xs a = Some r \<longleftrightarrow> fold pick ys b = Some r) \<Longrightarrow> fold pick xs a = fold pick ys b"
  by (metis not_None_eq)

lemma fold_pick_cong:
  "set xs \<union> set_option a = set ys \<union> set_option b \<Longrightarrow> fold pick xs a = fold pick ys b"
  by (rule fold_pick_eqI) (simp only: fold_pick)

lemma fold_pick_changed:
  "fold pick xs a \<noteq> a \<longleftrightarrow> (\<exists>c\<in>set xs. \<forall>r. a = Some r \<longrightarrow> better c r)"
proof (cases a)
  case None
  then show ?thesis using fold_pick_None [of xs a] by (cases xs) auto
next
  case (Some r)
  have "fold pick xs a = Some r \<longleftrightarrow> (\<forall>c\<in>set xs. \<not> better c r)"
    unfolding fold_pick best_iff_rank better_iff using Some by (simp add: not_less)
  with Some show ?thesis by auto
qed

end

lemma is_preferred_to_rank: "is_preferred_to a b \<longleftrightarrow> ref_rank a < ref_rank b"
  by (auto simp: is_preferred_to_def ref_rank_def)

lemma tag_inject [simp]: "tag a = tag b \<longleftrightarrow> a = b"
  by (cases a; cases b) simp_all

interpretation refs: preference is_preferred_to ref_rank
  by unfold_locales (auto simp: is_preferred_to_rank ref_rank_def)

lemma select_reference_fold:
  "select_reference s xs = fold refs.pick (map from_input xs) s"
  by (induction xs arbitrary: s) (simp_all add: refs.pick_def Let_def)

section \<open>Properties\<close>

text \<open>The references a merge chooses from.\<close>

definition candidates ::
    "trusted_time_state \<Rightarrow> independent_time_input list \<Rightarrow> independent_time_reference set" where
  "candidates s inputs = from_input ` set inputs \<union> set_option (independent_reference s)"

lemma finite_candidates [simp]: "finite (candidates s inputs)"
  by (simp add: candidates_def)

lemma validate_state_Inr: "validate_state s = Inr u \<longleftrightarrow> monotone_state s"
  by (auto simp: validate_state_def monotone_state_def result_simps split: option.splits)

lemma validate_state_eq:
  "validate_state s = (if monotone_state s then Inr () else Inl StateMonotonicity)"
  by (auto simp: validate_state_def monotone_state_def reject_if_def split: option.splits)

lemma select_reference_Some:
  "select_reference (independent_reference s) inputs = Some r \<longleftrightarrow> refs.best (candidates s inputs) r"
  by (simp add: select_reference_fold refs.fold_pick candidates_def)

lemma select_reference_None:
  "select_reference (independent_reference s) inputs = None \<longleftrightarrow> candidates s inputs = {}"
  by (cases "independent_reference s") (auto simp: select_reference_fold refs.fold_pick_None candidates_def)

lemma best_latest:
  "refs.best A r \<Longrightarrow> c \<in> A \<Longrightarrow> verified_time c \<le> verified_time r"
  by (auto simp: refs.best_iff_rank ref_rank_def)

lemma merged_floor:
  "(case select_reference (independent_reference s) inputs of
      None \<Rightarrow> floor_ms s | Some r \<Rightarrow> max (floor_ms s) (verified_time r))
   = Max (insert (floor_ms s) (verified_time ` candidates s inputs))"
proof (cases "select_reference (independent_reference s) inputs")
  case None
  moreover from this have "candidates s inputs = {}" by (simp only: select_reference_None)
  ultimately show ?thesis by simp
next
  case (Some r)
  then have best: "refs.best (candidates s inputs) r" by (simp add: select_reference_Some)
  then have "r \<in> candidates s inputs" by (simp add: refs.best_def)
  with best_latest [OF best] have "Max (verified_time ` candidates s inputs) = verified_time r"
    by (intro Max_eqI) auto
  with Some \<open>r \<in> candidates s inputs\<close> show ?thesis by (subst Max_insert) auto
qed

lemma merge_eq:
  "merge_independent_references s inputs =
     (if monotone_state s
      then Inr \<lparr>adv_state = \<lparr>
             floor_ms = Max (insert (floor_ms s) (verified_time ` candidates s inputs)),
             independent_reference = select_reference (independent_reference s) inputs\<rparr>,
           changed = (select_reference (independent_reference s) inputs \<noteq> independent_reference s)\<rparr>
      else Inl StateMonotonicity)"
  by (simp add: merge_independent_references_def validate_state_eq Let_def merged_floor)

lemma monotone_merged:
  "monotone_state \<lparr>floor_ms = Max (insert f (verified_time ` candidates s inputs)),
     independent_reference = select_reference (independent_reference s) inputs\<rparr>"
  by (auto simp: monotone_state_def select_reference_Some refs.best_def intro!: Max_ge)

lemma select_changed:
  "select_reference (independent_reference s) inputs \<noteq> independent_reference s \<longleftrightarrow>
     (\<exists>c\<in>candidates s inputs. \<forall>r. independent_reference s = Some r \<longrightarrow> is_preferred_to c r)"
  unfolding select_reference_fold refs.fold_pick_changed
  by (cases "independent_reference s") (auto simp: candidates_def is_preferred_to_rank)

text \<open>
  C24. Merging independent time references fails exactly on a persisted state whose reference is
  later than its floor. Otherwise the reference of the result is the one candidate that is
  preferred to all others, the floor is the latest of the old floor and all candidate times (so it
  never falls), the state is again monotone, and \<open>changed\<close> says exactly that some candidate was
  preferred to the persisted reference.
\<close>

theorem merge_selects_best:
  "merge_independent_references s inputs = r \<longleftrightarrow>
     (if \<not> monotone_state s then r = Inl StateMonotonicity
      else \<exists>s'. r = Inr \<lparr>adv_state = s', changed =
               (\<exists>c\<in>candidates s inputs. \<forall>p. independent_reference s = Some p \<longrightarrow> is_preferred_to c p)\<rparr>
         \<and> monotone_state s' \<and> floor_ms s \<le> floor_ms s'
         \<and> floor_ms s' = Max (insert (floor_ms s) (verified_time ` candidates s inputs))
         \<and> (\<forall>p. independent_reference s' = Some p \<longleftrightarrow>
               p \<in> candidates s inputs \<and> (\<forall>c\<in>candidates s inputs. c = p \<or> is_preferred_to p c)))"
    (is "?l = ?r")
proof (cases "monotone_state s")
  case True
  let ?s' = "\<lparr>floor_ms = Max (insert (floor_ms s) (verified_time ` candidates s inputs)),
     independent_reference = select_reference (independent_reference s) inputs\<rparr>"
  have uniq: "s' = ?s'" if "floor_ms s' = floor_ms ?s'"
      "\<forall>p. independent_reference s' = Some p \<longleftrightarrow> independent_reference ?s' = Some p" for s'
    using that by (cases s') (auto, metis not_None_eq)
  show ?thesis
    unfolding merge_eq select_changed refs.best_def [symmetric] select_reference_Some [symmetric]
    using True monotone_merged [of "floor_ms s" s inputs] uniq by auto
qed (auto simp: merge_eq)

theorem merge_selects_best_witness:
  "merge_independent_references (initial 5)
     [\<lparr>in_kind = Tsa, in_object_hash = [1], in_verified_time = 9\<rparr>,
      \<lparr>in_kind = Receipt, in_object_hash = [7], in_verified_time = 9\<rparr>,
      \<lparr>in_kind = Receipt, in_object_hash = [3], in_verified_time = 9\<rparr>]
   = Inr \<lparr>adv_state = \<lparr>floor_ms = 9, independent_reference =
        Some \<lparr>ref_kind = Receipt, ref_object_hash = [3], verified_time = 9\<rparr>\<rparr>, changed = True\<rparr>"
  unfolding merge_selects_best
  by (auto simp: initial_def monotone_state_def candidates_def from_input_def is_preferred_to_def)

lemma select_reference_append:
  assumes "set zs = set xs \<union> set ys"
  shows "select_reference (select_reference r xs) ys = select_reference r zs"
proof -
  have "select_reference (select_reference r xs) ys = fold refs.pick (map from_input (xs @ ys)) r"
    by (simp add: select_reference_fold)
  also have "\<dots> = select_reference r zs"
    unfolding select_reference_fold using assms by (intro refs.fold_pick_cong) auto
  finally show ?thesis .
qed

lemma Max_insert_Max:
  fixes f :: int
  assumes "finite A" and "finite B" and "C \<subseteq> A"
  shows "Max (insert (Max (insert f (v ` A))) (v ` (B \<union> C))) = Max (insert f (v ` (A \<union> B)))"
proof -
  have "finite C" using assms finite_subset by blast
  then have "Max (insert (Max (insert f (v ` A))) (v ` (B \<union> C))) \<le> z \<longleftrightarrow>
      Max (insert f (v ` (A \<union> B))) \<le> z" for z
    using assms by (auto simp del: Max_insert)
  from this [of "Max (insert f (v ` (A \<union> B)))"]
    this [of "Max (insert (Max (insert f (v ` A))) (v ` (B \<union> C)))"]
  show ?thesis by linarith
qed

lemma merge_in_batches:
  assumes "merge_independent_references s xs = Inr a" and "set zs = set xs \<union> set ys"
  shows "\<exists>b c. merge_independent_references (adv_state a) ys = Inr b
        \<and> merge_independent_references s zs = Inr c \<and> adv_state b = adv_state c
        \<and> changed c = (changed a \<or> changed b)"
proof -
  let ?r = "independent_reference s"
  have mono: "monotone_state s" and a: "a = \<lparr>adv_state = \<lparr>
      floor_ms = Max (insert (floor_ms s) (verified_time ` candidates s xs)),
      independent_reference = select_reference ?r xs\<rparr>, changed = (select_reference ?r xs \<noteq> ?r)\<rparr>"
    using assms(1) by (auto simp: merge_eq split: if_splits)
  have twice: "select_reference (select_reference ?r xs) ys = select_reference ?r zs"
    using assms(2) by (rule select_reference_append)
  have cands: "candidates s zs = candidates s xs \<union> from_input ` set ys"
    using assms(2) by (auto simp: candidates_def)
  have sub: "set_option (select_reference ?r xs) \<subseteq> candidates s xs"
    by (auto simp: select_reference_Some refs.best_def)
  have floors: "Max (insert (floor_ms (adv_state a)) (verified_time ` candidates (adv_state a) ys))
      = Max (insert (floor_ms s) (verified_time ` candidates s zs))"
    using Max_insert_Max [OF _ _ sub, of "from_input ` set ys" "floor_ms s" verified_time]
    by (simp add: a cands candidates_def [of "\<lparr>floor_ms = _, independent_reference = _\<rparr>"] del: Max_insert)
  have "changed a" if "select_reference ?r zs = ?r" "select_reference ?r xs \<noteq> ?r"
    using that by (simp add: a)
  moreover have "select_reference ?r zs \<noteq> ?r" if "select_reference ?r xs \<noteq> ?r"
    using that unfolding select_changed cands by blast
  ultimately show ?thesis
    using mono floors twice monotone_merged [of "floor_ms s" s xs] by (auto simp: merge_eq a)
qed

text \<open>
  C37. The result of a merge depends on the set of candidate references only, not on their order
  or multiplicity, and merging two batches one after the other gives the state of merging them
  at once.
\<close>

theorem merge_batches:
  assumes "merge_independent_references s xs = Inr a" and "set zs = set xs \<union> set ys"
  shows "\<exists>b c. merge_independent_references (adv_state a) ys = Inr b
        \<and> merge_independent_references s zs = Inr c \<and> adv_state b = adv_state c
        \<and> changed c = (changed a \<or> changed b)"
  using assms by (rule merge_in_batches)

theorem merge_batches_witness:
  "\<exists>b c. merge_independent_references \<lparr>floor_ms = 9, independent_reference =
        Some \<lparr>ref_kind = Tsa, ref_object_hash = [1], verified_time = 9\<rparr>\<rparr>
        [\<lparr>in_kind = Receipt, in_object_hash = [2], in_verified_time = 9\<rparr>] = Inr b
     \<and> merge_independent_references (initial 5)
        [\<lparr>in_kind = Receipt, in_object_hash = [2], in_verified_time = 9\<rparr>,
         \<lparr>in_kind = Tsa, in_object_hash = [1], in_verified_time = 9\<rparr>] = Inr c
     \<and> adv_state b = adv_state c \<and> changed c"
  using merge_batches [of "initial 5" "[\<lparr>in_kind = Tsa, in_object_hash = [1], in_verified_time = 9\<rparr>]"
      "\<lparr>adv_state = \<lparr>floor_ms = 9, independent_reference =
        Some \<lparr>ref_kind = Tsa, ref_object_hash = [1], verified_time = 9\<rparr>\<rparr>, changed = True\<rparr>"
      "[\<lparr>in_kind = Receipt, in_object_hash = [2], in_verified_time = 9\<rparr>,
         \<lparr>in_kind = Tsa, in_object_hash = [1], in_verified_time = 9\<rparr>]"
      "[\<lparr>in_kind = Receipt, in_object_hash = [2], in_verified_time = 9\<rparr>]"]
  by (auto simp: merge_independent_references_def initial_def validate_state_def from_input_def)



end
