(* ===== verification/EaTrustState.thy ===== *)
theory EaTrustState
  imports EaTime
begin

text \<open>
  The trust state a device keeps (\<^verbatim>\<open>crates/ea-trust/src/state.rs\<close>): the persisted record with its
  revision, trusted time and pinned registry head, the commits, the errors of a store, and the
  contract of the trait \<^verbatim>\<open>TrustStateStore\<close> as the locale \<open>trust_state_store\<close>. The locale is
  interpreted here on the ephemeral store of the verifier (\<^verbatim>\<open>crates/ea-verify/src/state.rs\<close>) and in
  \<^verbatim>\<open>EaOperatorStore\<close> on the durable store of the operator. An operation of a store takes the store
  and returns its result together with the store after it.
\<close>

section \<open>Data\<close>

record trust_state_key =
  organization_id :: id16
  device_id :: id16

record registry_head_pin =
  registry_version :: u64
  registry_head_hash :: hash32

record persisted_trust_record =
  revision :: u64
  trusted_time :: trusted_time_state
  pinned_head :: "registry_head_pin option"

record trust_state_snapshot =
  snap_key :: trust_state_key
  snap_record :: persisted_trust_record

record clock_release_replay_key =
  rk_organization_id :: id16
  rk_target_device_id :: id16
  rk_nonce :: bytes

datatype admin_replay_dimension = DimAuthorizationId id16 | DimNonce bytes

record admin_replay_key =
  ark_organization_id :: id16
  ark_dimension :: admin_replay_dimension

definition pair_of :: "id16 \<Rightarrow> id16 \<Rightarrow> bytes \<Rightarrow> admin_replay_key list" where
  "pair_of org auth nonce =
     [\<lparr>ark_organization_id = org, ark_dimension = DimAuthorizationId auth\<rparr>,
      \<lparr>ark_organization_id = org, ark_dimension = DimNonce nonce\<rparr>]"

record independent_time_commit =
  itc_next_trusted_time :: trusted_time_state

record registry_selection_commit =
  next_trusted_time :: trusted_time_state
  next_head :: registry_head_pin
  replay_key :: "clock_release_replay_key option"

definition advance_head ::
    "trusted_time_state \<Rightarrow> registry_head_pin \<Rightarrow> clock_release_replay_key option \<Rightarrow>
       registry_selection_commit" where
  "advance_head t h k = \<lparr>next_trusted_time = t, next_head = h, replay_key = k\<rparr>"

definition compare_and_affirm ::
    "trusted_time_state \<Rightarrow> registry_head_pin \<Rightarrow> clock_release_replay_key option \<Rightarrow>
       registry_selection_commit" where
  "compare_and_affirm t current k =
     \<lparr>next_trusted_time = t, next_head = current, replay_key = k\<rparr>"

datatype state_store_error = Conflict | ReplayAlreadyConsumed | MonotonicityViolation | Unavailable

text \<open>The enum \<^verbatim>\<open>TrustError\<close> of the crate (\<^verbatim>\<open>error.rs\<close>).\<close>

datatype trust_error =
    TSource | TSourceCountLimit | TSourceByteLimit | TAnchorShape | TAnchorHash | TAnchorPin
  | TBootstrapPair | TSignature | TSignerInactive | TSubjectMismatch | TSelfAuthorization
  | TAuthReplay | TAuthNotYetValid | TAuthExpired | TActionMismatch | TTimeSourceUnsupported
  | TTimeOverflow | TClockReleaseReplay | TStateConflict | TStateMonotonicity | TStateUnavailable
  | TEscrowEnrollmentMismatch | TEscrowInactive | TEscrowConflict | TApproversInsufficient

fun map_store_error :: "state_store_error \<Rightarrow> trust_error" where
  "map_store_error Conflict = TStateConflict"
| "map_store_error ReplayAlreadyConsumed = TClockReleaseReplay"
| "map_store_error MonotonicityViolation = TStateMonotonicity"
| "map_store_error Unavailable = TStateUnavailable"

type_synonym 's load_op = "'s \<Rightarrow> trust_state_key \<Rightarrow> state_store_error + persisted_trust_record"
type_synonym ('s, 'c) commit_op =
  "'s \<Rightarrow> trust_state_key \<Rightarrow> u64 \<Rightarrow> 'c \<Rightarrow> (state_store_error + persisted_trust_record) \<times> 's"

definition load_trust_state ::
    "'s load_op \<Rightarrow> 's \<Rightarrow> trust_state_key \<Rightarrow> trust_error + trust_state_snapshot" where
  "load_trust_state load s key =
     bindE (map_errE map_store_error (load s key)) (\<lambda>record.
     bindE (reject_if (case independent_reference (trusted_time record) of
                None \<Rightarrow> False
              | Some r \<Rightarrow> verified_time r > floor_ms (trusted_time record)) TStateMonotonicity) (\<lambda>_.
     Inr \<lparr>snap_key = key, snap_record = record\<rparr>))"

section \<open>The contract of a store\<close>

text \<open>
  What the clients rely on. A commit either fails and changes nothing, or compares and swaps: the
  expected revision was the stored one, the revision grows by exactly one, the floor does not fall,
  the returned record is what a later load gives, and nothing is forgotten of the consumed
  releases. A release is accepted once. A store serves a single key.
\<close>

locale trust_state_store =
  fixes load :: "'s load_op"
    and commit_time :: "('s, independent_time_commit) commit_op"
    and commit_sel :: "('s, registry_selection_commit) commit_op"
    and consumed :: "'s \<Rightarrow> clock_release_replay_key \<Rightarrow> state_store_error + bool"
  assumes commit_time_fail: "commit_time s key n c = (Inl e, s') \<Longrightarrow> s' = s"
    and commit_selection_fail: "commit_sel s key n d = (Inl e, s') \<Longrightarrow> s' = s"
    and commit_time_cas: "commit_time s key n c = (Inr r, s') \<Longrightarrow>
      \<exists>r0. load s key = Inr r0 \<and> revision r0 = n \<and> unat (revision r) = Suc (unat n)
         \<and> floor_ms (trusted_time r0) \<le> floor_ms (trusted_time r)
         \<and> trusted_time r = itc_next_trusted_time c \<and> pinned_head r = pinned_head r0"
    and commit_selection_cas: "commit_sel s key n d = (Inr r, s') \<Longrightarrow>
      \<exists>r0. load s key = Inr r0 \<and> revision r0 = n \<and> unat (revision r) = Suc (unat n)
         \<and> floor_ms (trusted_time r0) \<le> floor_ms (trusted_time r)
         \<and> trusted_time r = next_trusted_time d \<and> pinned_head r = Some (next_head d)"
    and commit_time_load: "commit_time s key n c = (Inr r, s') \<Longrightarrow> load s' key = Inr r"
    and commit_selection_load: "commit_sel s key n d = (Inr r, s') \<Longrightarrow> load s' key = Inr r"
    and commit_time_consumed: "commit_time s key n c = (Inr r, s') \<Longrightarrow>
      consumed s k = Inr b \<Longrightarrow> consumed s' k = Inr b"
    and commit_selection_consumed: "commit_sel s key n d = (Inr r, s') \<Longrightarrow>
      consumed s k = Inr b \<Longrightarrow> consumed s' k = Inr (b \<or> replay_key d = Some k)"
    and commit_selection_fresh: "commit_sel s key n d = (Inr r, s') \<Longrightarrow>
      replay_key d = Some k \<Longrightarrow> consumed s k = Inr False"
    and load_single: "load s key = Inr r \<Longrightarrow> load s key' = Inr r' \<Longrightarrow> key' = key"

text \<open>
  A run of a store: any sequence of commits that succeed. Failed commits change nothing, so they
  do not appear.
\<close>

inductive store_run ::
    "('s, independent_time_commit) commit_op \<Rightarrow> ('s, registry_selection_commit) commit_op \<Rightarrow>
       's \<Rightarrow> 's \<Rightarrow> bool"
  for commit_time commit_sel where
  run_refl: "store_run commit_time commit_sel s s"
| run_time: "store_run commit_time commit_sel s t \<Longrightarrow>
    commit_time t key n c = (Inr r, t') \<Longrightarrow> store_run commit_time commit_sel s t'"
| run_selection: "store_run commit_time commit_sel s t \<Longrightarrow>
    commit_sel t key n d = (Inr r, t') \<Longrightarrow> store_run commit_time commit_sel s t'"

inductive_cases store_runE: "store_run ct cs s t"

lemma refused_unchanged:
  "(\<And>x u. p \<noteq> (Inr x, u)) \<Longrightarrow> (\<And>e u. p = (Inl e, u) \<Longrightarrow> u = t) \<Longrightarrow> \<exists>e. p = (Inl e, t)"
  by (cases p; cases "fst p") auto

context trust_state_store
begin

lemma run_trans: "store_run commit_time commit_sel s t \<Longrightarrow>
    store_run commit_time commit_sel t u \<Longrightarrow> store_run commit_time commit_sel s u"
  by (rotate_tac, induction rule: store_run.induct) (auto intro: store_run.intros)

lemma consumed_stays:
  assumes "store_run commit_time commit_sel s t" and "consumed s k = Inr b"
  shows "\<exists>b'. consumed t k = Inr b' \<and> (b \<longrightarrow> b')"
  using assms by induction (auto dest: commit_time_consumed commit_selection_consumed)

lemma commit_consumes:
  assumes "commit_sel s key n d = (Inr r, t)" and "replay_key d = Some k"
  shows "consumed t k = Inr True"
  using commit_selection_consumed [OF assms(1) commit_selection_fresh [OF assms]] assms(2) by simp

lemma release_once:
  assumes "commit_sel s key n d = (Inr r, t)" and "replay_key d = Some k"
    and "store_run commit_time commit_sel t u" and "replay_key d' = Some k"
  shows "\<exists>e. commit_sel u key' n' d' = (Inl e, u)"
proof (rule refused_unchanged)
  have "consumed u k = Inr True"
    using consumed_stays [OF assms(3) commit_consumes [OF assms(1,2)]] by auto
  then show "commit_sel u key' n' d' \<noteq> (Inr r', u')" for r' u'
    using commit_selection_fresh [of u key' n' d' r' u' k] assms(4) by auto
qed (rule commit_selection_fail)

lemma commit_monotone:
  assumes "load s key = Inr r" and "commit_time s key' n c = (Inr r', t) \<or>
      commit_sel s key' n d = (Inr r', t)"
  shows "load t key = Inr r' \<and> unat (revision r') = Suc (unat (revision r))
       \<and> floor_ms (trusted_time r) \<le> floor_ms (trusted_time r')"
  using assms(2)
proof
  assume c: "commit_time s key' n c = (Inr r', t)"
  with load_single [OF assms(1)] commit_time_cas [OF c] have "key' = key" by blast
  with commit_time_cas [OF c] commit_time_load [OF c] assms(1) show ?thesis by auto
next
  assume c: "commit_sel s key' n d = (Inr r', t)"
  with load_single [OF assms(1)] commit_selection_cas [OF c] have "key' = key" by blast
  with commit_selection_cas [OF c] commit_selection_load [OF c] assms(1) show ?thesis by auto
qed

lemma run_monotone:
  assumes "store_run commit_time commit_sel s t" and "load s key = Inr r"
  shows "\<exists>r'. load t key = Inr r' \<and> floor_ms (trusted_time r) \<le> floor_ms (trusted_time r')
           \<and> (t = s \<or> unat (revision r) < unat (revision r'))"
  using assms
proof (induction rule: store_run.induct)
  case (run_refl s)
  then show ?case by blast
next
  case (run_time s t key' n c r1 t')
  from run_time.IH [OF run_time.prems] obtain r0 where r0: "load t key = Inr r0"
      "floor_ms (trusted_time r) \<le> floor_ms (trusted_time r0)" "unat (revision r) \<le> unat (revision r0)"
    using run_time.prems by fastforce
  have "load t' key = Inr r1 \<and> unat (revision r1) = Suc (unat (revision r0))
       \<and> floor_ms (trusted_time r0) \<le> floor_ms (trusted_time r1)"
    by (rule commit_monotone [OF r0(1)]) (rule disjI1, rule run_time.hyps(2))
  with r0 show ?case by (intro exI [of _ r1]) simp
next
  case (run_selection s t key' n d r1 t')
  from run_selection.IH [OF run_selection.prems] obtain r0 where r0: "load t key = Inr r0"
      "floor_ms (trusted_time r) \<le> floor_ms (trusted_time r0)" "unat (revision r) \<le> unat (revision r0)"
    using run_selection.prems by fastforce
  have "load t' key = Inr r1 \<and> unat (revision r1) = Suc (unat (revision r0))
       \<and> floor_ms (trusted_time r0) \<le> floor_ms (trusted_time r1)"
    by (rule commit_monotone [OF r0(1)]) (rule disjI2, rule run_selection.hyps(2))
  with r0 show ?case by (intro exI [of _ r1]) simp
qed

text \<open>No lost update: a revision that a commit has used up is refused ever after.\<close>

lemma stale_commit_refused:
  assumes "load s key = Inr r" and "unat n < unat (revision r)"
    and "store_run commit_time commit_sel s t"
  shows "(\<exists>e. commit_time t key n c = (Inl e, t)) \<and> (\<exists>e. commit_sel t key n d = (Inl e, t))"
proof -
  obtain r' where "load t key = Inr r'" "revision r' \<noteq> n"
    using run_monotone [OF assms(3,1)] assms(1,2) by fastforce
  then have "commit_time t key n c \<noteq> (Inr x, u)" "commit_sel t key n d \<noteq> (Inr x, u)" for x u
    using commit_time_cas [of t key n c x u] commit_selection_cas [of t key n d x u] by auto
  then show ?thesis
    by (auto intro!: refused_unchanged dest: commit_time_fail commit_selection_fail)
qed

end

section \<open>The ephemeral store of the verifier\<close>

text \<open>
  \<^verbatim>\<open>EphemeralTrustStateStore\<close>. The copies \<^verbatim>\<open>ConsumedRelease\<close> that it keeps of the replay keys
  have the same three fields, so the keys themselves are kept.
\<close>

definition verification_state_key :: "id16 \<Rightarrow> trust_state_key" where
  "verification_state_key org = \<lparr>organization_id = org, device_id = replicate 16 0\<rparr>"

record ephemeral_store =
  eph_key :: trust_state_key
  eph_revision :: u64
  eph_trusted_time :: trusted_time_state
  eph_pinned_head :: "registry_head_pin option"
  consumed_releases :: "clock_release_replay_key list"

definition eph_new :: "trust_state_key \<Rightarrow> int \<Rightarrow> ephemeral_store" where
  "eph_new key f = \<lparr>eph_key = key, eph_revision = 0, eph_trusted_time = initial f,
     eph_pinned_head = None, consumed_releases = []\<rparr>"

definition with_pin :: "trust_state_key \<Rightarrow> int \<Rightarrow> registry_head_pin option \<Rightarrow> ephemeral_store" where
  "with_pin key f pin = (eph_new key f)\<lparr>eph_pinned_head := pin\<rparr>"

definition eph_record :: "ephemeral_store \<Rightarrow> persisted_trust_record" where
  "eph_record s = \<lparr>revision = eph_revision s, trusted_time = eph_trusted_time s,
     pinned_head = eph_pinned_head s\<rparr>"

definition check_cas :: "ephemeral_store \<Rightarrow> trust_state_key \<Rightarrow> u64 \<Rightarrow> state_store_error + unit" where
  "check_cas s key n = reject_if (key \<noteq> eph_key s \<or> n \<noteq> eph_revision s) Conflict"

definition eph_advance ::
    "ephemeral_store \<Rightarrow> trusted_time_state \<Rightarrow> registry_head_pin option \<Rightarrow>
       (state_store_error + persisted_trust_record) \<times> ephemeral_store" where
  "eph_advance s t pin =
     (if floor_ms t < floor_ms (eph_trusted_time s) then (Inl MonotonicityViolation, s)
      else case checked_succ (eph_revision s) of
        None \<Rightarrow> (Inl Unavailable, s)
      | Some n \<Rightarrow>
          let s' = s\<lparr>eph_revision := n, eph_trusted_time := t, eph_pinned_head := pin\<rparr>
          in (Inr (eph_record s'), s'))"

definition eph_load :: "ephemeral_store load_op" where
  "eph_load s key = bindE (check_cas s key (eph_revision s)) (\<lambda>_. Inr (eph_record s))"

definition eph_commit_independent_time :: "(ephemeral_store, independent_time_commit) commit_op" where
  "eph_commit_independent_time s key n c =
     (case check_cas s key n of
        Inl e \<Rightarrow> (Inl e, s)
      | Inr _ \<Rightarrow> eph_advance s (itc_next_trusted_time c) (eph_pinned_head s))"

definition eph_clock_release_consumed ::
    "ephemeral_store \<Rightarrow> clock_release_replay_key \<Rightarrow> state_store_error + bool" where
  "eph_clock_release_consumed s k = Inr (k \<in> set (consumed_releases s))"

definition eph_commit_registry_selection :: "(ephemeral_store, registry_selection_commit) commit_op" where
  "eph_commit_registry_selection s key n d =
     (case check_cas s key n of
        Inl e \<Rightarrow> (Inl e, s)
      | Inr _ \<Rightarrow>
          if independent_reference (next_trusted_time d) \<noteq> independent_reference (eph_trusted_time s)
          then (Inl MonotonicityViolation, s)
          else if (case replay_key d of None \<Rightarrow> False | Some k \<Rightarrow> k \<in> set (consumed_releases s))
          then (Inl ReplayAlreadyConsumed, s)
          else case eph_advance s (next_trusted_time d) (Some (next_head d)) of
            (Inl e, s') \<Rightarrow> (Inl e, s')
          | (Inr record, s') \<Rightarrow>
              (Inr record,
               case replay_key d of
                 None \<Rightarrow> s'
               | Some k \<Rightarrow> s'\<lparr>consumed_releases := consumed_releases s' @ [k]\<rparr>))"

lemma check_cas_eq [simp]:
  "check_cas s key n = (if key = eph_key s \<and> n = eph_revision s then Inr () else Inl Conflict)"
  by (auto simp: check_cas_def reject_if_def)

lemma eph_load_Inr: "eph_load s key = Inr r \<longleftrightarrow> key = eph_key s \<and> r = eph_record s"
  by (auto simp: eph_load_def)

lemma eph_advance_Inr:
  "eph_advance s t pin = (Inr r, s') \<longleftrightarrow>
     floor_ms (eph_trusted_time s) \<le> floor_ms t
     \<and> (\<exists>n. checked_succ (eph_revision s) = Some n
          \<and> s' = s\<lparr>eph_revision := n, eph_trusted_time := t, eph_pinned_head := pin\<rparr>
          \<and> r = \<lparr>revision = n, trusted_time = t, pinned_head = pin\<rparr>)"
  by (auto simp: eph_advance_def Let_def eph_record_def split: option.splits)

lemma eph_advance_Inl: "eph_advance s t pin = (Inl e, s') \<Longrightarrow> s' = s"
  by (auto simp: eph_advance_def Let_def split: if_splits option.splits)

lemma eph_commit_time_Inr:
  "eph_commit_independent_time s key n c = (Inr r, s') \<longleftrightarrow>
     key = eph_key s \<and> n = eph_revision s
     \<and> eph_advance s (itc_next_trusted_time c) (eph_pinned_head s) = (Inr r, s')"
  by (auto simp: eph_commit_independent_time_def)

lemma eph_commit_selection_Inr:
  "eph_commit_registry_selection s key n d = (Inr r, s') \<longleftrightarrow>
     key = eph_key s \<and> n = eph_revision s
     \<and> independent_reference (next_trusted_time d) = independent_reference (eph_trusted_time s)
     \<and> (\<forall>k. replay_key d = Some k \<longrightarrow> k \<notin> set (consumed_releases s))
     \<and> (\<exists>t. eph_advance s (next_trusted_time d) (Some (next_head d)) = (Inr r, t)
          \<and> s' = t\<lparr>consumed_releases :=
                consumed_releases s @ (case replay_key d of None \<Rightarrow> [] | Some k \<Rightarrow> [k])\<rparr>)"
  by (cases "eph_advance s (next_trusted_time d) (Some (next_head d))"; cases "replay_key d")
    (auto simp: eph_commit_registry_selection_def eph_advance_Inr split: sum.splits)

lemma eph_commit_Inl:
  "eph_commit_independent_time s key n c = (Inl e, s') \<Longrightarrow> s' = s"
  "eph_commit_registry_selection s key n d = (Inl e, s') \<Longrightarrow> s' = s"
  by (auto simp: eph_commit_independent_time_def eph_commit_registry_selection_def
      dest: eph_advance_Inl split: if_splits sum.splits prod.splits)

lemmas eph_commits = eph_commit_time_Inr eph_commit_selection_Inr eph_advance_Inr eph_load_Inr

interpretation eph: trust_state_store eph_load eph_commit_independent_time
  eph_commit_registry_selection eph_clock_release_consumed
proof (unfold_locales, goal_cases)
  case (1 s key n c e s')
  then show ?case by (rule eph_commit_Inl)
next
  case (2 s key n d e s')
  then show ?case by (rule eph_commit_Inl)
next
  case (3 s key n c r s')
  then show ?case
    by (auto simp: eph_commits eph_record_def dest!: checked_succ_eq_Some_nat)
next
  case (4 s key n d r s')
  then show ?case
    by (auto simp: eph_commits eph_record_def dest!: checked_succ_eq_Some_nat)
next
  case (5 s key n c r s')
  then show ?case by (auto simp: eph_commits eph_record_def)
next
  case (6 s key n d r s')
  then show ?case by (auto simp: eph_commits eph_record_def)
next
  case (7 s key n c r s' k b)
  then show ?case by (auto simp: eph_commits eph_clock_release_consumed_def)
next
  case (8 s key n d r s' k b)
  then show ?case by (auto simp: eph_commits eph_clock_release_consumed_def split: option.splits)
next
  case (9 s key n d r s' k)
  then show ?case by (auto simp: eph_commits eph_clock_release_consumed_def)
next
  case (10 s key r key' r')
  then show ?case by (simp add: eph_load_Inr)
qed

section \<open>Properties of the ephemeral store\<close>

text \<open>
  C29. A clock release is accepted at most once by the ephemeral store: after a registry selection
  committed with a release, every later commit with the same release is refused and leaves the
  store as it was, whatever commits happen in between.
\<close>

theorem ephemeral_release_once:
  assumes "eph_commit_registry_selection s key n d = (Inr r, t)" and "replay_key d = Some k"
    and "store_run eph_commit_independent_time eph_commit_registry_selection t u"
    and "replay_key d' = Some k"
  shows "eph_clock_release_consumed u k = Inr True
       \<and> (\<exists>e. eph_commit_registry_selection u key' n' d' = (Inl e, u))"
  using eph.release_once [OF assms] eph.consumed_stays [OF assms(3) eph.commit_consumes [OF assms(1,2)]]
  by auto

definition sample_key :: trust_state_key where
  "sample_key = \<lparr>organization_id = [1], device_id = [2]\<rparr>"

definition sample_release :: clock_release_replay_key where
  "sample_release = \<lparr>rk_organization_id = [1], rk_target_device_id = [2], rk_nonce = [3]\<rparr>"

definition sample_commit :: registry_selection_commit where
  "sample_commit = advance_head (initial 7) \<lparr>registry_version = 1, registry_head_hash = [4]\<rparr>
     (Some sample_release)"

lemma sample_run:
  "eph_commit_registry_selection (eph_new sample_key 5) sample_key 0 sample_commit =
     (Inr \<lparr>revision = 1, trusted_time = initial 7,
        pinned_head = Some \<lparr>registry_version = 1, registry_head_hash = [4]\<rparr>\<rparr>,
      \<lparr>eph_key = sample_key, eph_revision = 1, eph_trusted_time = initial 7,
        eph_pinned_head = Some \<lparr>registry_version = 1, registry_head_hash = [4]\<rparr>,
        consumed_releases = [sample_release]\<rparr>)"
  by (simp add: sample_commit_def eph_commit_registry_selection_def eph_new_def eph_advance_def
      eph_record_def advance_head_def initial_def checked_succ_def checked_add_word_def Let_def)

theorem ephemeral_release_once_witness:
  "\<exists>e. eph_commit_registry_selection (snd (eph_commit_registry_selection (eph_new sample_key 5)
        sample_key 0 sample_commit)) sample_key 1 sample_commit
     = (Inl e, snd (eph_commit_registry_selection (eph_new sample_key 5) sample_key 0 sample_commit))"
  using ephemeral_release_once [OF sample_run _ run_refl, of sample_release sample_commit sample_key 1]
  by (simp add: sample_run) (simp add: sample_commit_def advance_head_def)

text \<open>
  C30. The ephemeral store never loses an update and never goes back: along any run of commits the
  floor does not fall and the revision grows by every commit, and a commit that names a revision
  that has been used up is refused and changes nothing.
\<close>

theorem ephemeral_no_lost_update:
  assumes "eph_load s key = Inr r"
    and "store_run eph_commit_independent_time eph_commit_registry_selection s t"
  shows "\<exists>r'. eph_load t key = Inr r' \<and> floor_ms (trusted_time r) \<le> floor_ms (trusted_time r')
       \<and> (t = s \<or> unat (revision r) < unat (revision r'))
       \<and> (\<forall>n c d. unat n < unat (revision r') \<longrightarrow>
            (\<exists>e. eph_commit_independent_time t key n c = (Inl e, t))
            \<and> (\<exists>e. eph_commit_registry_selection t key n d = (Inl e, t)))"
  using eph.run_monotone [OF assms(2,1)] eph.stale_commit_refused [OF _ _ run_refl]
  by blast

theorem ephemeral_no_lost_update_witness:
  "\<exists>r'. eph_load (snd (eph_commit_registry_selection (eph_new sample_key 5) sample_key 0 sample_commit))
        sample_key = Inr r' \<and> 5 \<le> floor_ms (trusted_time r')
       \<and> (\<exists>e. eph_commit_registry_selection (snd (eph_commit_registry_selection
              (eph_new sample_key 5) sample_key 0 sample_commit)) sample_key 0 sample_commit = (Inl e,
            snd (eph_commit_registry_selection (eph_new sample_key 5) sample_key 0 sample_commit)))"
proof -
  have load: "eph_load (eph_new sample_key 5) sample_key =
      Inr \<lparr>revision = 0, trusted_time = initial 5, pinned_head = None\<rparr>"
    by (simp add: eph_load_Inr eph_new_def eph_record_def)
  have run: "store_run eph_commit_independent_time eph_commit_registry_selection (eph_new sample_key 5)
      (snd (eph_commit_registry_selection (eph_new sample_key 5) sample_key 0 sample_commit))"
    unfolding sample_run snd_conv by (rule run_selection [OF run_refl]) (rule sample_run)
  from ephemeral_no_lost_update [OF load run] obtain r' where
    r': "eph_load (snd (eph_commit_registry_selection (eph_new sample_key 5) sample_key 0 sample_commit))
        sample_key = Inr r'" "5 \<le> floor_ms (trusted_time r')"
      "unat n < unat (revision r') \<Longrightarrow> \<exists>e. eph_commit_registry_selection
          (snd (eph_commit_registry_selection (eph_new sample_key 5) sample_key 0 sample_commit))
          sample_key n d = (Inl e,
            snd (eph_commit_registry_selection (eph_new sample_key 5) sample_key 0 sample_commit))" for n d
    by (auto simp: initial_def)
  moreover from r'(1) have "revision r' = 1" by (auto simp: sample_run eph_load_Inr eph_record_def)
  ultimately show ?thesis by simp
qed

end
