(* ===== verification/EaOperatorStore.thy ===== *)
theory EaOperatorStore
  imports EaTrustState
begin

text \<open>
  The durable trust state of the operator (\<^verbatim>\<open>crates/ea-admin/src/operator_trust_store.rs\<close>) over the
  tables of \<^verbatim>\<open>migrations/0005_operator_trust.sql\<close>. A table is a map or set keyed by its primary
  key; a nullable column is an option; the \<^verbatim>\<open>CHECK\<close> clauses of the schema are the predicates
  \<open>row_check\<close>, \<open>clock_check\<close> and \<open>admin_check\<close>, and a statement that violates one fails. A transaction
  keeps its writes only when its work succeeds. Failures of the database engine itself (input and
  output errors, a corrupt file) are not modelled.
\<close>

section \<open>Tables\<close>

record trust_row =
  col_chain_id :: bytes
  col_trust_anchor_hash :: bytes
  col_revision :: bytes
  col_floor_ms :: int
  col_independent_kind :: "int option"
  col_independent_hash :: "bytes option"
  col_independent_time_ms :: "int option"
  col_pin_version :: "bytes option"
  col_pin_hash :: "bytes option"

record operator_db =
  trust_rows :: "id16 \<times> id16 \<Rightarrow> trust_row option"
  clock_replay :: "(bytes \<times> bytes \<times> bytes) set"
  admin_replay :: "(bytes \<times> int \<times> bytes) set"

definition length_check :: "nat \<Rightarrow> bytes option \<Rightarrow> bool" where
  "length_check n c = (case c of None \<Rightarrow> True | Some b \<Rightarrow> length b = n)"

definition row_check :: "trust_row \<Rightarrow> bool" where
  "row_check w \<longleftrightarrow>
     length (col_chain_id w) = 16 \<and> length (col_trust_anchor_hash w) = 32 \<and> length (col_revision w) = 8
     \<and> (case col_independent_kind w of None \<Rightarrow> True | Some k \<Rightarrow> k \<in> {0, 1, 2})
     \<and> length_check 32 (col_independent_hash w)
     \<and> length_check 8 (col_pin_version w) \<and> length_check 32 (col_pin_hash w)
     \<and> (col_independent_kind w = None \<and> col_independent_hash w = None \<and> col_independent_time_ms w = None
        \<or> col_independent_kind w \<noteq> None \<and> col_independent_hash w \<noteq> None
          \<and> (case col_independent_time_ms w of None \<Rightarrow> False | Some t \<Rightarrow> t \<le> col_floor_ms w))
     \<and> (col_pin_version w = None \<longleftrightarrow> col_pin_hash w = None)"

definition clock_check :: "bytes \<times> bytes \<times> bytes \<Rightarrow> bool" where
  "clock_check = (\<lambda>(org, dev, nonce). length org = 16 \<and> length dev = 16 \<and> length nonce = 32)"

definition admin_check :: "bytes \<times> int \<times> bytes \<Rightarrow> bool" where
  "admin_check = (\<lambda>(org, dim, v). length org = 16 \<and> (dim = 0 \<and> length v = 16 \<or> dim = 1 \<and> length v = 32))"

text \<open>\<^verbatim>\<open>INSERT .. ON CONFLICT DO NOTHING\<close> into a table that is all primary key: the rows inserted.\<close>

definition insert_ignore :: "('r \<Rightarrow> bool) \<Rightarrow> 'r \<Rightarrow> 'r set \<Rightarrow> state_store_error + (nat \<times> 'r set)" where
  "insert_ignore check r T =
     (if \<not> check r then Inl Unavailable
      else if r \<in> T then Inr (0, T) else Inr (1, insert r T))"

definition transaction ::
    "(operator_db \<Rightarrow> state_store_error + ('r \<times> operator_db)) \<Rightarrow> operator_db \<Rightarrow>
       (state_store_error + 'r) \<times> operator_db" where
  "transaction work db = (case work db of Inl e \<Rightarrow> (Inl e, db) | Inr (r, db') \<Rightarrow> (Inr r, db'))"

section \<open>The store\<close>

record operator_store =
  op_key :: trust_state_key
  op_chain_id :: id16
  op_trust_anchor_hash :: hash32
  op_db :: operator_db

definition row_key :: "operator_store \<Rightarrow> id16 \<times> id16" where
  "row_key s = (organization_id (op_key s), device_id (op_key s))"

definition require_key :: "operator_store \<Rightarrow> trust_state_key \<Rightarrow> state_store_error + unit" where
  "require_key s key = (if key = op_key s then Inr () else Inl Conflict)"

definition require_clock_key :: "operator_store \<Rightarrow> clock_release_replay_key \<Rightarrow> state_store_error + unit" where
  "require_clock_key s k =
     require_key s \<lparr>organization_id = rk_organization_id k, device_id = rk_target_device_id k\<rparr>"

text \<open>\<^verbatim>\<open>unsigned\<close> and \<^verbatim>\<open>object_hash\<close> read a column of fixed length; a NULL is the wrong shape.\<close>

definition unsigned_col :: "bytes option \<Rightarrow> state_store_error + u64" where
  "unsigned_col c =
     (case c of
        Some b \<Rightarrow> if length b = 8 then Inr (from_be_bytes b) else Inl Unavailable
      | None \<Rightarrow> Inl Unavailable)"

definition object_hash_col :: "bytes option \<Rightarrow> state_store_error + hash32" where
  "object_hash_col c =
     (case c of
        Some b \<Rightarrow> if length b = 32 then Inr b else Inl Unavailable
      | None \<Rightarrow> Inl Unavailable)"

definition kind_of_col :: "int \<Rightarrow> state_store_error + independent_time_kind" where
  "kind_of_col k =
     (if k = 0 then Inr Receipt else if k = 1 then Inr Checkpoint else if k = 2 then Inr Tsa
      else Inl Unavailable)"

definition decode_reference :: "trust_row \<Rightarrow> state_store_error + independent_time_input option" where
  "decode_reference w =
     (case (col_independent_kind w, col_independent_hash w, col_independent_time_ms w) of
        (None, None, None) \<Rightarrow> Inr None
      | (Some k, Some h, Some t) \<Rightarrow>
          bindE (kind_of_col k) (\<lambda>kind.
          bindE (object_hash_col (Some h)) (\<lambda>hash.
          Inr (Some \<lparr>in_kind = kind, in_object_hash = hash, in_verified_time = t\<rparr>)))
      | _ \<Rightarrow> Inl Unavailable)"

definition decode_pin :: "trust_row \<Rightarrow> state_store_error + registry_head_pin option" where
  "decode_pin w =
     (case (col_pin_version w, col_pin_hash w) of
        (None, None) \<Rightarrow> Inr None
      | (Some v, Some h) \<Rightarrow>
          bindE (unsigned_col (Some v)) (\<lambda>version.
          bindE (object_hash_col (Some h)) (\<lambda>hash.
          Inr (Some \<lparr>registry_version = version, registry_head_hash = hash\<rparr>)))
      | _ \<Rightarrow> Inl Unavailable)"

definition decode :: "operator_store \<Rightarrow> trust_row option \<Rightarrow> state_store_error + persisted_trust_record" where
  "decode s row =
     bindE (ok_or Unavailable row) (\<lambda>w.
     bindE (reject_if (col_chain_id w \<noteq> op_chain_id s \<or> col_trust_anchor_hash w \<noteq> op_trust_anchor_hash s)
              Conflict) (\<lambda>_.
     bindE (decode_reference w) (\<lambda>reference.
     bindE (map_errE (\<lambda>_. MonotonicityViolation) (from_persisted (col_floor_ms w) reference)) (\<lambda>time.
     bindE (decode_pin w) (\<lambda>pin.
     bindE (unsigned_col (Some (col_revision w))) (\<lambda>rev.
     Inr \<lparr>revision = rev, trusted_time = time, pinned_head = pin\<rparr>))))))"

definition read_in :: "operator_store \<Rightarrow> operator_db \<Rightarrow> state_store_error + persisted_trust_record" where
  "read_in s db = decode s (trust_rows db (row_key s))"

definition as_input :: "independent_time_reference \<Rightarrow> independent_time_input" where
  "as_input r = \<lparr>in_kind = ref_kind r, in_object_hash = ref_object_hash r, in_verified_time = verified_time r\<rparr>"

definition require_monotonic_time ::
    "trusted_time_state \<Rightarrow> trusted_time_state \<Rightarrow> state_store_error + unit" where
  "require_monotonic_time current nxt =
     bindE (reject_if (floor_ms nxt < floor_ms current) MonotonicityViolation) (\<lambda>_.
     bindE (map_errE (\<lambda>_. MonotonicityViolation)
             (merge_independent_references nxt
               (case independent_reference current of None \<Rightarrow> [] | Some r \<Rightarrow> [as_input r]))) (\<lambda>merged.
     reject_if (adv_state merged \<noteq> nxt) MonotonicityViolation))"

definition pin_regresses :: "registry_head_pin option \<Rightarrow> registry_head_pin option \<Rightarrow> bool" where
  "pin_regresses current nxt =
     (case (current, nxt) of
        (Some c, Some p) \<Rightarrow>
          registry_version p < registry_version c
          \<or> registry_version p = registry_version c \<and> registry_head_hash p \<noteq> registry_head_hash c
      | _ \<Rightarrow> False)"

definition row_of :: "operator_store \<Rightarrow> u64 \<Rightarrow> trusted_time_state \<Rightarrow> registry_head_pin option \<Rightarrow> trust_row" where
  "row_of s v t pin = \<lparr>
     col_chain_id = op_chain_id s, col_trust_anchor_hash = op_trust_anchor_hash s,
     col_revision = to_be_bytes 8 v, col_floor_ms = floor_ms t,
     col_independent_kind = map_option (\<lambda>r. int (tag (ref_kind r))) (independent_reference t),
     col_independent_hash = map_option ref_object_hash (independent_reference t),
     col_independent_time_ms = map_option verified_time (independent_reference t),
     col_pin_version = map_option (\<lambda>p. to_be_bytes 8 (registry_version p)) pin,
     col_pin_hash = map_option registry_head_hash pin\<rparr>"

text \<open>
  The \<^verbatim>\<open>UPDATE\<close> of a commit: the row must have the expected revision, chain and anchor; the
  columns it does not set are the ones it compares, so the new row is \<open>row_of\<close>. The number of rows
  changed is returned.
\<close>

definition update_row ::
    "operator_store \<Rightarrow> u64 \<Rightarrow> u64 \<Rightarrow> trusted_time_state \<Rightarrow> registry_head_pin option \<Rightarrow> operator_db \<Rightarrow>
       state_store_error + (nat \<times> operator_db)" where
  "update_row s expected v t pin db =
     (case trust_rows db (row_key s) of
        None \<Rightarrow> Inr (0, db)
      | Some w \<Rightarrow>
          if col_revision w = to_be_bytes 8 expected \<and> col_chain_id w = op_chain_id s
             \<and> col_trust_anchor_hash w = op_trust_anchor_hash s
          then if row_check (row_of s v t pin)
               then Inr (1, db\<lparr>trust_rows := (trust_rows db)(row_key s \<mapsto> row_of s v t pin)\<rparr>)
               else Inl Unavailable
          else Inr (0, db))"

definition clock_parameters :: "clock_release_replay_key \<Rightarrow> bytes \<times> bytes \<times> bytes" where
  "clock_parameters k = (rk_organization_id k, rk_target_device_id k, rk_nonce k)"

definition consume_release ::
    "clock_release_replay_key option \<Rightarrow> operator_db \<Rightarrow> state_store_error + operator_db" where
  "consume_release replay db =
     (case replay of
        None \<Rightarrow> Inr db
      | Some k \<Rightarrow>
          bindE (insert_ignore clock_check (clock_parameters k) (clock_replay db)) (\<lambda>(inserted, T).
            if inserted = 0 then Inl ReplayAlreadyConsumed
            else if inserted \<noteq> 1 then Inl Unavailable
            else Inr (db\<lparr>clock_replay := T\<rparr>)))"

definition commit_work ::
    "operator_store \<Rightarrow> u64 \<Rightarrow> trusted_time_state \<Rightarrow> registry_head_pin option \<Rightarrow>
       clock_release_replay_key option \<Rightarrow> operator_db \<Rightarrow>
       state_store_error + (persisted_trust_record \<times> operator_db)" where
  "commit_work s expected next_time next_pin replay db =
     bindE (read_in s db) (\<lambda>current.
     bindE (reject_if (revision current \<noteq> expected) Conflict) (\<lambda>_.
     bindE (require_monotonic_time (trusted_time current) next_time) (\<lambda>_.
     let pin = (case next_pin of Some p \<Rightarrow> Some p | None \<Rightarrow> pinned_head current) in
     bindE (reject_if (pin_regresses (pinned_head current) pin) MonotonicityViolation) (\<lambda>_.
     bindE (ok_or MonotonicityViolation (checked_succ expected)) (\<lambda>v.
     bindE (consume_release replay db) (\<lambda>db1.
     bindE (update_row s expected v next_time pin db1) (\<lambda>(rows, db2).
     bindE (reject_if (rows \<noteq> 1) Conflict) (\<lambda>_.
     Inr (\<lparr>revision = v, trusted_time = next_time, pinned_head = pin\<rparr>, db2)))))))))"

definition op_commit ::
    "operator_store \<Rightarrow> trust_state_key \<Rightarrow> u64 \<Rightarrow> trusted_time_state \<Rightarrow> registry_head_pin option \<Rightarrow>
       clock_release_replay_key option \<Rightarrow> (state_store_error + persisted_trust_record) \<times> operator_store" where
  "op_commit s key expected next_time next_pin replay =
     (case require_key s key of
        Inl e \<Rightarrow> (Inl e, s)
      | Inr _ \<Rightarrow>
     (case (case replay of None \<Rightarrow> Inr () | Some k \<Rightarrow> require_clock_key s k) of
        Inl e \<Rightarrow> (Inl e, s)
      | Inr _ \<Rightarrow>
     (case transaction (commit_work s expected next_time next_pin replay) (op_db s) of
        (r, db) \<Rightarrow> (r, s\<lparr>op_db := db\<rparr>))))"

definition op_load :: "operator_store load_op" where
  "op_load s key = bindE (require_key s key) (\<lambda>_. decode s (trust_rows (op_db s) (row_key s)))"

definition op_commit_independent_time :: "(operator_store, independent_time_commit) commit_op" where
  "op_commit_independent_time s key n c = op_commit s key n (itc_next_trusted_time c) None None"

definition op_commit_registry_selection :: "(operator_store, registry_selection_commit) commit_op" where
  "op_commit_registry_selection s key n d =
     op_commit s key n (next_trusted_time d) (Some (next_head d)) (replay_key d)"

definition op_clock_release_consumed ::
    "operator_store \<Rightarrow> clock_release_replay_key \<Rightarrow> state_store_error + bool" where
  "op_clock_release_consumed s k =
     bindE (require_clock_key s k) (\<lambda>_.
     bindE (read_in s (op_db s)) (\<lambda>_.
     Inr (clock_parameters k \<in> clock_replay (op_db s))))"

text \<open>
  Asking whether an administrative authorization is consumed consumes it: the insert is the answer.
\<close>

definition admin_consumed_work ::
    "operator_store \<Rightarrow> admin_replay_key \<Rightarrow> operator_db \<Rightarrow> state_store_error + (bool \<times> operator_db)" where
  "admin_consumed_work s k db =
     (let row = (case ark_dimension k of
                   DimAuthorizationId i \<Rightarrow> (ark_organization_id k, 0, i)
                 | DimNonce n \<Rightarrow> (ark_organization_id k, 1, n))
      in bindE (read_in s db) (\<lambda>_.
         bindE (insert_ignore admin_check row (admin_replay db)) (\<lambda>(inserted, T).
           if inserted = 0 then Inr (True, db\<lparr>admin_replay := T\<rparr>)
           else if inserted = 1 then Inr (False, db\<lparr>admin_replay := T\<rparr>)
           else Inl Unavailable)))"

definition op_admin_authorization_consumed ::
    "operator_store \<Rightarrow> admin_replay_key \<Rightarrow> (state_store_error + bool) \<times> operator_store" where
  "op_admin_authorization_consumed s k =
     (if ark_organization_id k \<noteq> organization_id (op_key s) then (Inl Conflict, s)
      else case transaction (admin_consumed_work s k) (op_db s) of
        (r, db) \<Rightarrow> (r, s\<lparr>op_db := db\<rparr>))"

text \<open>Opening inserts the initial row unless the key has one, and must be able to read it.\<close>

definition open_work :: "operator_store \<Rightarrow> int \<Rightarrow> operator_db \<Rightarrow> state_store_error + (unit \<times> operator_db)" where
  "open_work s initial_floor db =
     (let row = row_of s 0 (initial initial_floor) None
      in bindE (reject_if (length (fst (row_key s)) \<noteq> 16 \<or> length (snd (row_key s)) \<noteq> 16
                  \<or> \<not> row_check row) Unavailable) (\<lambda>_.
         let db' = (if trust_rows db (row_key s) = None
                    then db\<lparr>trust_rows := (trust_rows db)(row_key s \<mapsto> row)\<rparr> else db)
         in bindE (read_in s db') (\<lambda>_. Inr ((), db'))))"

definition op_open ::
    "operator_db \<Rightarrow> trust_state_key \<Rightarrow> id16 \<Rightarrow> hash32 \<Rightarrow> int \<Rightarrow>
       (state_store_error + operator_store) \<times> operator_db" where
  "op_open db key chain anchor initial_floor =
     (let s = \<lparr>op_key = key, op_chain_id = chain, op_trust_anchor_hash = anchor, op_db = db\<rparr>
      in case transaction (open_work s initial_floor) db of
           (Inl e, db') \<Rightarrow> (Inl e, db')
         | (Inr _, db') \<Rightarrow> (Inr (s\<lparr>op_db := db'\<rparr>), db'))"

section \<open>The row codec\<close>

lemma u64_bytes [simp]: "from_be_bytes (to_be_bytes 8 x) = (x :: u64)" "length (to_be_bytes 8 x) = 8"
proof -
  have "unat x < 2 ^ LENGTH(64)" by (rule unsigned_less)
  then show "from_be_bytes (to_be_bytes 8 x) = (x :: u64)" by (intro from_to_be_bytes) simp_all
qed (simp add: length_to_be_bytes)

lemma bytes_u64: "length b = 8 \<Longrightarrow> to_be_bytes 8 (from_be_bytes b) = b"
  by (rule to_from_be_bytes) simp_all

lemma kind_of_col_tag [simp]: "kind_of_col (int (tag k)) = Inr k"
  by (cases k) (simp_all add: kind_of_col_def)

lemma from_as_input [simp]: "from_input (as_input r) = r"
  by (simp add: from_input_def as_input_def)

lemma decode_row_of:
  assumes "row_check (row_of s v t pin)"
  shows "decode s (Some (row_of s v t pin)) = Inr \<lparr>revision = v, trusted_time = t, pinned_head = pin\<rparr>"
proof -
  have ref: "decode_reference (row_of s v t pin) = Inr (map_option as_input (independent_reference t))"
    using assms by (cases "independent_reference t")
      (auto simp: decode_reference_def row_of_def row_check_def object_hash_col_def length_check_def as_input_def)
  have mono: "monotone_state t"
    using assms by (auto simp: row_check_def row_of_def monotone_state_def)
  then have time: "from_persisted (floor_ms t) (map_option as_input (independent_reference t)) = Inr t"
    by (cases t) (simp add: from_persisted_def Let_def validate_state_eq option.map_comp o_def option.map_ident)
  have pin: "decode_pin (row_of s v t pin) = Inr pin"
    using assms by (cases pin)
      (auto simp: decode_pin_def row_of_def row_check_def object_hash_col_def unsigned_col_def length_check_def)
  show ?thesis
    unfolding decode_def using ref time pin by (simp add: row_of_def unsigned_col_def)
qed

section \<open>The contract holds\<close>

lemma decode_Inr_row:
  assumes "decode s row = Inr r"
  shows "\<exists>w. row = Some w \<and> col_chain_id w = op_chain_id s
     \<and> col_trust_anchor_hash w = op_trust_anchor_hash s \<and> col_revision w = to_be_bytes 8 (revision r)"
  using assms by (auto simp: decode_def result_simps unsigned_col_def bytes_u64 split: if_splits)

lemma decode_monotone: "decode s row = Inr r \<Longrightarrow> monotone_state (trusted_time r)"
  by (auto simp: decode_def result_simps from_persisted_def Let_def validate_state_Inr)

lemma op_decode_frame [simp]: "decode (s\<lparr>op_db := db\<rparr>) row = decode s row" "row_key (s\<lparr>op_db := db\<rparr>) = row_key s"
    "read_in (s\<lparr>op_db := db\<rparr>) db' = read_in s db'"
  by (simp_all add: decode_def row_key_def read_in_def)

lemma require_key_Inr [result_simps]: "require_key s key = Inr u \<longleftrightarrow> key = op_key s"
  by (simp add: require_key_def)

lemma merge_unchanged:
  assumes "monotone_state t" and "select_reference (independent_reference t) xs = independent_reference t"
  shows "Max (insert (floor_ms t) (verified_time ` candidates t xs)) = floor_ms t"
  using assms unfolding merged_floor [symmetric]
  by (cases "independent_reference t") (auto simp: monotone_state_def)

lemma merge_fixed:
  "(\<exists>a. merge_independent_references t xs = Inr a \<and> adv_state a = t) \<longleftrightarrow>
     monotone_state t \<and> select_reference (independent_reference t) xs = independent_reference t"
  using merge_unchanged [of t xs] by (cases t) (auto simp: merge_eq split: if_splits)

lemma is_preferred_to_irrefl [simp]: "\<not> is_preferred_to r r"
  by (simp add: is_preferred_to_rank)

lemma is_preferred_to_total: "\<not> is_preferred_to r p \<longleftrightarrow> p = r \<or> is_preferred_to p r"
  using refs.rank_inj [of p r] by (auto simp: is_preferred_to_rank)

lemma require_monotonic_time_Inr:
  "require_monotonic_time c t = Inr u \<longleftrightarrow>
     floor_ms c \<le> floor_ms t \<and> monotone_state t
     \<and> (\<forall>r. independent_reference c = Some r \<longrightarrow>
          (\<exists>p. independent_reference t = Some p \<and> (p = r \<or> is_preferred_to p r)))"
proof -
  let ?in = "case independent_reference c of None \<Rightarrow> [] | Some r \<Rightarrow> [as_input r]"
  have "require_monotonic_time c t = Inr u \<longleftrightarrow> floor_ms c \<le> floor_ms t
      \<and> (\<exists>a. merge_independent_references t ?in = Inr a \<and> adv_state a = t)"
    by (auto simp: require_monotonic_time_def result_simps)
  moreover have "select_reference (independent_reference t) ?in = independent_reference t \<longleftrightarrow>
      (\<forall>r. independent_reference c = Some r \<longrightarrow>
          (\<exists>p. independent_reference t = Some p \<and> (p = r \<or> is_preferred_to p r)))"
    by (cases "independent_reference c"; cases "independent_reference t")
      (auto simp: is_preferred_to_total [symmetric])
  ultimately show ?thesis unfolding merge_fixed by blast
qed

lemma consume_release_Inr:
  "consume_release replay db = Inr db' \<longleftrightarrow>
     db' = (case replay of None \<Rightarrow> db
            | Some k \<Rightarrow> db\<lparr>clock_replay := insert (clock_parameters k) (clock_replay db)\<rparr>)
     \<and> (\<forall>k. replay = Some k \<longrightarrow> clock_check (clock_parameters k) \<and> clock_parameters k \<notin> clock_replay db)"
  by (cases replay) (auto simp: consume_release_def insert_ignore_def)

lemma update_row_Inr:
  "update_row s n v t pin db = Inr (Suc 0, db') \<Longrightarrow>
     row_check (row_of s v t pin)
     \<and> db' = db\<lparr>trust_rows := (trust_rows db)(row_key s \<mapsto> row_of s v t pin)\<rparr>"
  by (auto simp: update_row_def split: option.splits if_splits)

lemma commit_work_Inr:
  assumes "commit_work s n t next_pin replay db = Inr (r, db')"
  obtains r0 v pin db1 where "read_in s db = Inr r0" "revision r0 = n" "checked_succ n = Some v"
    "require_monotonic_time (trusted_time r0) t = Inr ()"
    "pin = (case next_pin of Some p \<Rightarrow> Some p | None \<Rightarrow> pinned_head r0)"
    "\<not> pin_regresses (pinned_head r0) pin" "consume_release replay db = Inr db1"
    "row_check (row_of s v t pin)" "r = \<lparr>revision = v, trusted_time = t, pinned_head = pin\<rparr>"
    "db' = db1\<lparr>trust_rows := (trust_rows db1)(row_key s \<mapsto> row_of s v t pin)\<rparr>"
  using assms unfolding commit_work_def Let_def
  by (auto simp: bindE_eq_Inr reject_if_eq_Inr ok_or_eq_Inr split: prod.splits dest!: update_row_Inr)

lemma op_commit_Inr:
  assumes "op_commit s key n t next_pin replay = (Inr r, s')"
  obtains db' where "key = op_key s" "\<forall>k. replay = Some k \<longrightarrow> require_clock_key s k = Inr ()"
    "commit_work s n t next_pin replay (op_db s) = Inr (r, db')" "s' = s\<lparr>op_db := db'\<rparr>"
  using assms
  by (auto simp: op_commit_def transaction_def result_simps split: sum.splits option.splits prod.splits)

lemma op_commit_Inl: "op_commit s key n t next_pin replay = (Inl e, s') \<Longrightarrow> s' = s"
  by (auto simp: op_commit_def transaction_def split: sum.splits prod.splits)

text \<open>The durable store promises more than the trait: the pin and the reference only advance.\<close>

definition pin_advances :: "registry_head_pin option \<Rightarrow> registry_head_pin option \<Rightarrow> bool" where
  "pin_advances p q \<longleftrightarrow> (\<forall>c. p = Some c \<longrightarrow>
     (\<exists>d. q = Some d \<and> (registry_version c < registry_version d \<or> d = c)))"

definition time_advances :: "trusted_time_state \<Rightarrow> trusted_time_state \<Rightarrow> bool" where
  "time_advances s t \<longleftrightarrow> floor_ms s \<le> floor_ms t \<and> (\<forall>r. independent_reference s = Some r \<longrightarrow>
     (\<exists>p. independent_reference t = Some p \<and> (p = r \<or> is_preferred_to p r)))"

definition record_advances :: "persisted_trust_record \<Rightarrow> persisted_trust_record \<Rightarrow> bool" where
  "record_advances a b \<longleftrightarrow> time_advances (trusted_time a) (trusted_time b)
     \<and> monotone_state (trusted_time b) \<and> pin_advances (pinned_head a) (pinned_head b)"

lemma pin_regresses_Some:
  "pin_regresses (Some c) (Some d) \<longleftrightarrow> \<not> (registry_version c < registry_version d \<or> d = c)"
  by (cases c; cases d) (auto simp: pin_regresses_def)

lemma pin_regresses_None [simp]: "\<not> pin_regresses None q"
  by (simp add: pin_regresses_def)

lemma pin_regresses_iff:
  "\<not> pin_regresses p (case q of Some x \<Rightarrow> Some x | None \<Rightarrow> p) \<longleftrightarrow>
     pin_advances p (case q of Some x \<Rightarrow> Some x | None \<Rightarrow> p)"
  by (cases p; cases q) (auto simp: pin_regresses_Some pin_advances_def)

lemma pin_advances_trans: "pin_advances a b \<Longrightarrow> pin_advances b c \<Longrightarrow> pin_advances a c"
  by (cases a; cases b; cases c) (auto simp: pin_advances_def)

lemma time_advances_trans: "time_advances a b \<Longrightarrow> time_advances b c \<Longrightarrow> time_advances a c"
  by (cases "independent_reference a"; cases "independent_reference b"; cases "independent_reference c")
    (auto simp: time_advances_def is_preferred_to_rank)

lemma record_advances_trans:
  "record_advances a b \<Longrightarrow> record_advances b c \<Longrightarrow> record_advances a c"
  unfolding record_advances_def by (blast intro: pin_advances_trans time_advances_trans)

lemma op_commit_facts:
  assumes "op_commit s key n t next_pin replay = (Inr r, s')"
  shows "\<exists>r0. op_load s key = Inr r0 \<and> revision r0 = n \<and> unat (revision r) = Suc (unat n)
      \<and> trusted_time r = t \<and> record_advances r0 r
      \<and> pinned_head r = (case next_pin of Some p \<Rightarrow> Some p | None \<Rightarrow> pinned_head r0)"
    and "op_load s' key = Inr r" and "op_key s' = op_key s"
    and "clock_replay (op_db s') = clock_replay (op_db s) \<union> clock_parameters ` set_option replay"
    and "replay = Some k \<Longrightarrow> op_clock_release_consumed s k = Inr False"
proof -
  obtain db' where key: "key = op_key s" and clock: "\<forall>k. replay = Some k \<longrightarrow> require_clock_key s k = Inr ()"
    and work: "commit_work s n t next_pin replay (op_db s) = Inr (r, db')" and s': "s' = s\<lparr>op_db := db'\<rparr>"
    using assms by (rule op_commit_Inr)
  from work obtain r0 v pin db1 where r0: "read_in s (op_db s) = Inr r0" "revision r0 = n"
    and v: "checked_succ n = Some v" and mono: "require_monotonic_time (trusted_time r0) t = Inr ()"
    and pin: "pin = (case next_pin of Some p \<Rightarrow> Some p | None \<Rightarrow> pinned_head r0)"
      "\<not> pin_regresses (pinned_head r0) pin"
    and db1: "consume_release replay (op_db s) = Inr db1" and check: "row_check (row_of s v t pin)"
    and r: "r = \<lparr>revision = v, trusted_time = t, pinned_head = pin\<rparr>"
    and db': "db' = db1\<lparr>trust_rows := (trust_rows db1)(row_key s \<mapsto> row_of s v t pin)\<rparr>"
    by (rule commit_work_Inr)
  have adv: "record_advances r0 r"
    using mono pin by (simp add: record_advances_def time_advances_def require_monotonic_time_Inr r
        pin_regresses_iff)
  have load: "op_load s key = Inr r0"
    using r0 key by (simp add: op_load_def require_key_def read_in_def)
  show "\<exists>r0. op_load s key = Inr r0 \<and> revision r0 = n \<and> unat (revision r) = Suc (unat n)
      \<and> trusted_time r = t \<and> record_advances r0 r
      \<and> pinned_head r = (case next_pin of Some p \<Rightarrow> Some p | None \<Rightarrow> pinned_head r0)"
    using load r0(2) checked_succ_eq_Some_nat [OF v] adv pin(1) r by auto
  show "op_key s' = op_key s" by (simp add: s')
  show "op_load s' key = Inr r"
    using decode_row_of [OF check] by (simp add: op_load_def require_key_def key s' db' r)
  show "clock_replay (op_db s') = clock_replay (op_db s) \<union> clock_parameters ` set_option replay"
    using db1 by (cases replay) (auto simp: s' db' consume_release_Inr)
  show "op_clock_release_consumed s k = Inr False" if "replay = Some k"
    using that clock db1 r0 by (simp add: op_clock_release_consumed_def consume_release_Inr)
qed

lemma clock_parameters_inject [simp]: "clock_parameters k = clock_parameters k' \<longleftrightarrow> k = k'"
  by (cases k; cases k') (auto simp: clock_parameters_def)

lemma op_consumed_Inr:
  "op_clock_release_consumed s k = Inr b \<longleftrightarrow>
     (\<exists>r. op_load s \<lparr>organization_id = rk_organization_id k, device_id = rk_target_device_id k\<rparr> = Inr r)
     \<and> (b \<longleftrightarrow> clock_parameters k \<in> clock_replay (op_db s))"
  by (auto simp: op_clock_release_consumed_def op_load_def require_clock_key_def read_in_def result_simps)

lemma op_commit_consumed:
  assumes "op_commit s key n t next_pin replay = (Inr r, s')" and "op_clock_release_consumed s k = Inr b"
  shows "op_clock_release_consumed s' k = Inr (b \<or> replay = Some k)"
proof -
  have "key = \<lparr>organization_id = rk_organization_id k, device_id = rk_target_device_id k\<rparr>"
    using op_commit_facts(1) [OF assms(1)] assms(2) by (auto simp: op_consumed_Inr op_load_def result_simps)
  with op_commit_facts(2,4) [OF assms(1)] assms(2) show ?thesis
    by (auto simp: op_consumed_Inr)
qed

interpretation op: trust_state_store op_load op_commit_independent_time
  op_commit_registry_selection op_clock_release_consumed
proof (unfold_locales, goal_cases)
  case (1 s key n c e s')
  then show ?case unfolding op_commit_independent_time_def by (rule op_commit_Inl)
next
  case (2 s key n d e s')
  then show ?case unfolding op_commit_registry_selection_def by (rule op_commit_Inl)
next
  case (3 s key n c r s')
  then show ?case unfolding op_commit_independent_time_def
    using op_commit_facts(1) by (fastforce simp: record_advances_def time_advances_def)
next
  case (4 s key n d r s')
  then show ?case unfolding op_commit_registry_selection_def
    using op_commit_facts(1) by (fastforce simp: record_advances_def time_advances_def)
next
  case (5 s key n c r s')
  then show ?case unfolding op_commit_independent_time_def by (rule op_commit_facts)
next
  case (6 s key n d r s')
  then show ?case unfolding op_commit_registry_selection_def by (rule op_commit_facts)
next
  case (7 s key n c r s' k b)
  then show ?case unfolding op_commit_independent_time_def by (auto dest: op_commit_consumed)
next
  case (8 s key n d r s' k b)
  then show ?case unfolding op_commit_registry_selection_def by (rule op_commit_consumed)
next
  case (9 s key n d r s' k)
  then show ?case unfolding op_commit_registry_selection_def by (rule op_commit_facts)
next
  case (10 s key r key' r')
  then show ?case by (simp add: op_load_def result_simps)
qed

locale durable_trust_state_store = trust_state_store load commit_time commit_sel consumed
  for load :: "'s load_op"
    and commit_time :: "('s, independent_time_commit) commit_op"
    and commit_sel :: "('s, registry_selection_commit) commit_op"
    and consumed :: "'s \<Rightarrow> clock_release_replay_key \<Rightarrow> state_store_error + bool" +
  assumes commit_time_advances: "commit_time s key n c = (Inr r, s') \<Longrightarrow> load s key = Inr r0 \<Longrightarrow>
      record_advances r0 r"
    and commit_selection_advances: "commit_sel s key n d = (Inr r, s') \<Longrightarrow> load s key = Inr r0 \<Longrightarrow>
      record_advances r0 r"
begin

lemma run_advances:
  assumes "store_run commit_time commit_sel s t" and "load s key = Inr r"
  shows "\<exists>r'. load t key = Inr r' \<and> (t = s \<or> record_advances r r')"
  using assms
proof (induction rule: store_run.induct)
  case (run_refl s)
  then show ?case by blast
next
  case (run_time s t key' n c r1 t')
  obtain r0 where r0: "load t key = Inr r0" "r0 = r \<or> record_advances r r0"
    using run_time.IH [OF run_time.prems] run_time.prems by auto
  have "key' = key" using commit_time_cas [OF run_time.hyps(2)] load_single [OF r0(1)] by blast
  then have "load t' key = Inr r1" "record_advances r0 r1"
    using commit_time_load [OF run_time.hyps(2)] commit_time_advances [OF run_time.hyps(2)] r0(1) by auto
  with r0(2) show ?case by (auto intro: record_advances_trans)
next
  case (run_selection s t key' n d r1 t')
  obtain r0 where r0: "load t key = Inr r0" "r0 = r \<or> record_advances r r0"
    using run_selection.IH [OF run_selection.prems] run_selection.prems by auto
  have "key' = key" using commit_selection_cas [OF run_selection.hyps(2)] load_single [OF r0(1)] by blast
  then have "load t' key = Inr r1" "record_advances r0 r1"
    using commit_selection_load [OF run_selection.hyps(2)] commit_selection_advances [OF run_selection.hyps(2)]
      r0(1) by auto
  with r0(2) show ?case by (auto intro: record_advances_trans)
qed

end

interpretation opd: durable_trust_state_store op_load op_commit_independent_time
  op_commit_registry_selection op_clock_release_consumed
  by unfold_locales
    (use op_commit_facts(1) in \<open>fastforce simp: op_commit_independent_time_def op_commit_registry_selection_def\<close>)+

section \<open>Properties of the operator store\<close>

text \<open>A store whose key and database satisfy the length checks of the schema.\<close>

definition op_sample_key :: trust_state_key where
  "op_sample_key = \<lparr>organization_id = replicate 16 1, device_id = replicate 16 2\<rparr>"

definition op_sample_release :: clock_release_replay_key where
  "op_sample_release = \<lparr>rk_organization_id = replicate 16 1, rk_target_device_id = replicate 16 2,
     rk_nonce = replicate 32 3\<rparr>"

definition op_sample_commit :: registry_selection_commit where
  "op_sample_commit = advance_head (initial 7) \<lparr>registry_version = 1, registry_head_hash = replicate 32 4\<rparr>
     (Some op_sample_release)"

definition op_sample_store :: operator_store where
  "op_sample_store = (let s = \<lparr>op_key = op_sample_key, op_chain_id = replicate 16 5,
       op_trust_anchor_hash = replicate 32 6,
       op_db = \<lparr>trust_rows = (\<lambda>_. None), clock_replay = {}, admin_replay = {}\<rparr>\<rparr>
     in s\<lparr>op_db := (op_db s)\<lparr>trust_rows := (trust_rows (op_db s))(row_key s \<mapsto> row_of s 0 (initial 5) None)\<rparr>\<rparr>)"

text \<open>
  C5. Along any run of commits of the operator store the persisted record only advances: the floor
  does not fall, the independent reference is kept or replaced by a preferred one, the registry pin
  is kept or moves to a higher version, and the revision grows with every commit. A commit that names
  a revision already used up is refused and changes nothing.
\<close>

theorem operator_run_advances:
  assumes "op_load s key = Inr r"
    and "store_run op_commit_independent_time op_commit_registry_selection s t"
  shows "\<exists>r'. op_load t key = Inr r'
       \<and> (t = s \<or> record_advances r r' \<and> unat (revision r) < unat (revision r'))
       \<and> (\<forall>n c d. unat n < unat (revision r') \<longrightarrow>
            (\<exists>e. op_commit_independent_time t key n c = (Inl e, t))
            \<and> (\<exists>e. op_commit_registry_selection t key n d = (Inl e, t)))"
  using opd.run_advances [OF assms(2,1)] op.run_monotone [OF assms(2,1)]
    op.stale_commit_refused [OF _ _ run_refl]
  by (metis Inr_inject)

lemma op_sample_load: "op_load op_sample_store op_sample_key =
    Inr \<lparr>revision = 0, trusted_time = initial 5, pinned_head = None\<rparr>"
proof -
  have "row_check (row_of op_sample_store 0 (initial 5) None)"
    by (simp add: row_check_def row_of_def op_sample_store_def initial_def Let_def length_check_def)
  from decode_row_of [OF this] show ?thesis
    by (simp add: op_load_def require_key_def op_sample_store_def Let_def row_key_def row_of_def decode_def)
qed

text \<open>When a commit succeeds: nothing but the stated conditions can refuse it.\<close>

lemma op_commitI:
  assumes load: "op_load s key = Inr r0" and rev: "checked_succ (revision r0) = Some v"
    and time: "require_monotonic_time (trusted_time r0) t = Inr ()"
    and pin: "pin = (case next_pin of Some p \<Rightarrow> Some p | None \<Rightarrow> pinned_head r0)"
    and adv: "pin_advances (pinned_head r0) pin" and check: "row_check (row_of s v t pin)"
    and fresh: "\<And>k. replay = Some k \<Longrightarrow> require_clock_key s k = Inr () \<and> clock_check (clock_parameters k)
       \<and> clock_parameters k \<notin> clock_replay (op_db s)"
  shows "op_commit s key (revision r0) t next_pin replay =
    (Inr \<lparr>revision = v, trusted_time = t, pinned_head = pin\<rparr>,
     s\<lparr>op_db := (op_db s)\<lparr>clock_replay := clock_replay (op_db s) \<union> clock_parameters ` set_option replay,
        trust_rows := (trust_rows (op_db s))(row_key s \<mapsto> row_of s v t pin)\<rparr>\<rparr>)"
proof -
  have key: "key = op_key s" and dec: "decode s (trust_rows (op_db s) (row_key s)) = Inr r0"
    using load by (auto simp: op_load_def result_simps)
  obtain w where w: "trust_rows (op_db s) (row_key s) = Some w" "col_chain_id w = op_chain_id s"
      "col_trust_anchor_hash w = op_trust_anchor_hash s" "col_revision w = to_be_bytes 8 (revision r0)"
    using decode_Inr_row [OF dec] by blast
  have cons: "consume_release replay (op_db s) = Inr ((op_db s)\<lparr>clock_replay :=
      clock_replay (op_db s) \<union> clock_parameters ` set_option replay\<rparr>)"
    using fresh by (cases replay) (auto simp: consume_release_Inr)
  have nreg: "\<not> pin_regresses (pinned_head r0) pin"
    using adv unfolding pin pin_regresses_iff .
  have "commit_work s (revision r0) t next_pin replay (op_db s) =
      Inr (\<lparr>revision = v, trusted_time = t, pinned_head = pin\<rparr>,
        (op_db s)\<lparr>clock_replay := clock_replay (op_db s) \<union> clock_parameters ` set_option replay,
        trust_rows := (trust_rows (op_db s))(row_key s \<mapsto> row_of s v t pin)\<rparr>)"
    using dec rev time nreg cons w check
    by (simp add: commit_work_def Let_def read_in_def update_row_def pin [symmetric])
  with key fresh show ?thesis
    by (auto simp: op_commit_def require_key_def transaction_def split: option.splits)
qed

definition op_sample_after :: operator_store where
  "op_sample_after = snd (op_commit_registry_selection op_sample_store op_sample_key 0 op_sample_commit)"

lemma op_sample_run:
  "op_commit_registry_selection op_sample_store op_sample_key 0 op_sample_commit =
     (Inr \<lparr>revision = 1, trusted_time = initial 7, pinned_head = Some (next_head op_sample_commit)\<rparr>,
      op_sample_after)"
proof -
  have "op_commit op_sample_store op_sample_key (revision \<lparr>revision = 0, trusted_time = initial 5, pinned_head = None\<rparr>)
      (initial 7) (Some (next_head op_sample_commit)) (Some op_sample_release) =
     (Inr \<lparr>revision = 1, trusted_time = initial 7, pinned_head = Some (next_head op_sample_commit)\<rparr>,
      op_sample_store\<lparr>op_db := (op_db op_sample_store)\<lparr>
        clock_replay := clock_replay (op_db op_sample_store) \<union> clock_parameters ` set_option (Some op_sample_release),
        trust_rows := (trust_rows (op_db op_sample_store))(row_key op_sample_store \<mapsto>
            row_of op_sample_store 1 (initial 7) (Some (next_head op_sample_commit)))\<rparr>\<rparr>)"
    by (rule op_commitI [OF op_sample_load])
      (simp_all add: checked_succ_def checked_add_word_def require_monotonic_time_Inr initial_def
        monotone_state_def pin_advances_def row_check_def row_of_def op_sample_store_def Let_def
        length_check_def op_sample_commit_def advance_head_def require_clock_key_def require_key_def
        op_sample_release_def op_sample_key_def clock_check_def clock_parameters_def)
  then show ?thesis
    by (simp add: op_sample_after_def op_commit_registry_selection_def op_sample_commit_def advance_head_def)
qed

lemma op_sample_store_run:
  "store_run op_commit_independent_time op_commit_registry_selection op_sample_store op_sample_after"
  by (rule run_selection [OF run_refl]) (rule op_sample_run)

theorem operator_run_advances_witness:
  "\<exists>r'. op_load op_sample_after op_sample_key = Inr r' \<and> revision r' = 1
     \<and> (\<exists>e. op_commit_registry_selection op_sample_after op_sample_key 0 op_sample_commit
           = (Inl e, op_sample_after))"
proof -
  have load: "op_load op_sample_after op_sample_key = Inr
      \<lparr>revision = 1, trusted_time = initial 7, pinned_head = Some (next_head op_sample_commit)\<rparr>"
    by (rule op.commit_selection_load [OF op_sample_run])
  with operator_run_advances [OF op_sample_load op_sample_store_run] show ?thesis by auto
qed

lemma admin_consumed_work_Inr:
  assumes "admin_consumed_work s a db = Inr (b, db')"
  shows "admin_consumed_work s a db' = Inr (True, db') \<and> trust_rows db' = trust_rows db
    \<and> clock_replay db' = clock_replay db"
  using assms
  by (auto simp: admin_consumed_work_def Let_def read_in_def insert_ignore_def result_simps
      split: prod.splits if_splits)

lemma admin_consumed_again:
  assumes "op_admin_authorization_consumed s a = (Inr b, s1)"
  shows "op_admin_authorization_consumed s1 a = (Inr True, s1)
    \<and> op_load s1 key = op_load s key \<and> op_clock_release_consumed s1 k = op_clock_release_consumed s k"
proof -
  obtain db' where org: "ark_organization_id a = organization_id (op_key s)"
    and work: "admin_consumed_work s a (op_db s) = Inr (b, db')" and s1: "s1 = s\<lparr>op_db := db'\<rparr>"
    using assms by (auto simp: op_admin_authorization_consumed_def transaction_def
        split: if_splits sum.splits prod.splits)
  have frame: "admin_consumed_work (s\<lparr>op_db := x\<rparr>) = admin_consumed_work s" for x
    by (rule ext)+ (simp add: admin_consumed_work_def)
  from admin_consumed_work_Inr [OF work] org show ?thesis
    by (simp add: op_admin_authorization_consumed_def transaction_def s1 frame op_load_def require_key_def
        op_clock_release_consumed_def require_clock_key_def read_in_def)
qed

text \<open>
  C14. A clock release is accepted at most once by the operator store: after a selection committed
  with it, the release is reported as consumed and refused ever after, whatever commits follow.
\<close>

theorem operator_release_once:
  assumes "op_commit_registry_selection s key n d = (Inr r, t)" and "replay_key d = Some k"
    and "store_run op_commit_independent_time op_commit_registry_selection t u"
    and "replay_key d' = Some k"
  shows "op_clock_release_consumed u k = Inr True
      \<and> (\<exists>e. op_commit_registry_selection u key' n' d' = (Inl e, u))"
  using op.release_once [OF assms] op.consumed_stays [OF assms(3) op.commit_consumes [OF assms(1,2)]] by auto

theorem operator_release_once_witness:
  "op_clock_release_consumed op_sample_after op_sample_release = Inr True
     \<and> (\<exists>e. op_commit_registry_selection op_sample_after op_sample_key 1 op_sample_commit
            = (Inl e, op_sample_after))"
  by (rule operator_release_once [OF op_sample_run _ run_refl])
    (simp_all add: op_sample_commit_def advance_head_def)



lemma decode_mismatch:
  assumes "decode s row = Inr r" and "op_chain_id u \<noteq> op_chain_id s \<or> op_trust_anchor_hash u \<noteq> op_trust_anchor_hash s"
  shows "decode u row = Inl Conflict"
  using decode_Inr_row [OF assms(1)] assms(2) by (auto simp: decode_def)

lemma decode_same:
  "op_chain_id u = op_chain_id s \<Longrightarrow> op_trust_anchor_hash u = op_trust_anchor_hash s \<Longrightarrow> decode u row = decode s row"
  by (simp add: decode_def)

lemma op_commit_row:
  assumes "op_commit s key n t next_pin replay = (Inr r, s')"
  shows "op_chain_id s' = op_chain_id s \<and> op_trust_anchor_hash s' = op_trust_anchor_hash s \<and> key = op_key s'
    \<and> length (op_chain_id s) = 16 \<and> length (op_trust_anchor_hash s) = 32
    \<and> decode s' (trust_rows (op_db s') (row_key s')) = Inr r"
proof -
  obtain db' where work: "commit_work s n t next_pin replay (op_db s) = Inr (r, db')"
    and s': "s' = s\<lparr>op_db := db'\<rparr>"
    using assms by (rule op_commit_Inr)
  from work obtain v pin where "row_check (row_of s v t pin)" by (rule commit_work_Inr)
  then have "length (op_chain_id s) = 16 \<and> length (op_trust_anchor_hash s) = 32"
    by (simp add: row_check_def row_of_def)
  moreover have "op_load s' key = Inr r" using assms by (rule op_commit_facts(2))
  ultimately show ?thesis by (auto simp: s' op_load_def result_simps)
qed

lemma initial_row_check:
  "length (op_chain_id s) = 16 \<Longrightarrow> length (op_trust_anchor_hash s) = 32 \<Longrightarrow> row_check (row_of s 0 (initial f) None)"
  by (simp add: row_check_def row_of_def initial_def length_check_def)

lemma open_existing:
  assumes row: "decode s (trust_rows db (organization_id key, device_id key)) = Inr r"
    and "length (organization_id key) = 16" and "length (device_id key) = 16"
    and "length (op_chain_id s) = 16" and "length (op_trust_anchor_hash s) = 32"
  shows "op_open db key (op_chain_id s) (op_trust_anchor_hash s) f =
    (Inr \<lparr>op_key = key, op_chain_id = op_chain_id s, op_trust_anchor_hash = op_trust_anchor_hash s, op_db = db\<rparr>, db)"
proof -
  let ?u = "\<lparr>op_key = key, op_chain_id = op_chain_id s, op_trust_anchor_hash = op_trust_anchor_hash s, op_db = db\<rparr>"
  have "trust_rows db (organization_id key, device_id key) \<noteq> None"
    using decode_Inr_row [OF row] by auto
  moreover have "read_in ?u db = Inr r"
    using row decode_same [of ?u s] by (simp add: read_in_def row_key_def)
  ultimately have "open_work ?u f db = Inr ((), db)"
    using assms initial_row_check [of ?u f] by (auto simp: open_work_def Let_def row_key_def)
  then show ?thesis by (simp add: op_open_def Let_def transaction_def)
qed

lemma open_mismatch:
  assumes row: "decode s (trust_rows db (organization_id key, device_id key)) = Inr r"
    and "chain \<noteq> op_chain_id s \<or> anchor \<noteq> op_trust_anchor_hash s"
  shows "\<exists>e. op_open db key chain anchor f = (Inl e, db)"
proof -
  let ?u = "\<lparr>op_key = key, op_chain_id = chain, op_trust_anchor_hash = anchor, op_db = db\<rparr>"
  have "trust_rows db (organization_id key, device_id key) \<noteq> None"
    using decode_Inr_row [OF row] by auto
  moreover have "read_in ?u db = Inl Conflict"
    using decode_mismatch [OF row, of ?u] assms(2) by (simp add: read_in_def row_key_def)
  ultimately have "\<exists>e. open_work ?u f db = Inl e"
    by (auto simp: open_work_def Let_def row_key_def reject_if_def)
  then show ?thesis by (auto simp: op_open_def Let_def transaction_def)
qed

text \<open>
  C27. What a commit returned is durable: reopening the database with the same key, chain and trust
  anchor succeeds, leaves the database as it is whatever initial floor is proposed, and loads exactly
  the committed record; with another chain or anchor the store is refused.
\<close>

theorem operator_reopen:
  assumes "op_commit_registry_selection s key n d = (Inr r, t)"
    and "length (organization_id key) = 16" and "length (device_id key) = 16"
  shows "(\<exists>u. op_open (op_db t) key (op_chain_id t) (op_trust_anchor_hash t) f = (Inr u, op_db t)
            \<and> op_load u key = Inr r)
    \<and> (chain \<noteq> op_chain_id t \<or> anchor \<noteq> op_trust_anchor_hash t \<longrightarrow>
         (\<exists>e. op_open (op_db t) key chain anchor f = (Inl e, op_db t)))"
proof -
  note row = op_commit_row [OF assms(1) [unfolded op_commit_registry_selection_def]]
  from row have dec: "decode t (trust_rows (op_db t) (organization_id key, device_id key)) = Inr r"
    by (simp add: row_key_def)
  let ?u = "\<lparr>op_key = key, op_chain_id = op_chain_id t, op_trust_anchor_hash = op_trust_anchor_hash t, op_db = op_db t\<rparr>"
  have "op_load ?u key = Inr r"
    using dec decode_same [of ?u t] by (simp add: op_load_def require_key_def row_key_def)
  with row assms(2,3) open_existing [OF dec, of f] open_mismatch [OF dec, of chain anchor f]
  show ?thesis by auto
qed

theorem operator_reopen_witness:
  "\<exists>u. op_open (op_db op_sample_after) op_sample_key (op_chain_id op_sample_after)
        (op_trust_anchor_hash op_sample_after) 99 = (Inr u, op_db op_sample_after)
     \<and> op_load u op_sample_key =
        Inr \<lparr>revision = 1, trusted_time = initial 7, pinned_head = Some (next_head op_sample_commit)\<rparr>"
  using operator_reopen [OF op_sample_run, of 99] by (simp add: op_sample_key_def)

end
