(* ===== verification/EaRegistrySelection.thy ===== *)
theory EaRegistrySelection
  imports EaOperatorStore
begin

text \<open>
  Local time and the selection of a registry head (\<^verbatim>\<open>crates/ea-trust/src/time.rs\<close>,
  \<^verbatim>\<open>clock_release.rs\<close> and the selection part of \<^verbatim>\<open>registry.rs\<close>). The functions take the operations
  of a trust state store as arguments, as the code takes a \<^verbatim>\<open>&mut dyn TrustStateStore\<close>, and return
  the store after them. Structures carry the fields the modelled functions read. An \<^verbatim>\<open>Arc\<close> is an
  address with a value, and \<^verbatim>\<open>Arc::ptr_eq\<close> compares addresses. Decoding an audit object and checking
  its COSE signature are arguments of \<open>verify_clock_release\<close>.
\<close>

section \<open>Data\<close>

datatype registry_error =
    RTrust trust_error | PendingFuture | SuccessorReady | Stale | FutureSkewError | Gap | Fork
  | Rollback | ROverflow | Previous | ActivationHead | ActivationMissing | PolicyMismatch
  | SequenceLease | DeviceRoleConflict

datatype clock_release_error = CTrust trust_error | Mismatch | Expired

record 'a arc =
  arc_ptr :: nat
  arc_val :: 'a

definition ptr_eq :: "'a arc \<Rightarrow> 'a arc \<Rightarrow> bool" where
  "ptr_eq a b \<longleftrightarrow> arc_ptr a = arc_ptr b"

datatype certificate_kind =
    KWriter | KReader | KOrganizationAdmin | KKeyApprover | KRecoveryRecipient
  | KHistoricalGrantAuthority | KServerReceipt | KDeletionAttest

record active_certificate =
  cert_object_hash :: hash32
  cert_organization_id :: id16
  cert_device_id :: id16
  cert_kind :: certificate_kind
  cert_signing_key_thumbprint :: "bytes option"
  cert_capabilities :: "string list"
  cert_authority_subject_id :: "id16 option"
  cert_effective_from :: u64
  cert_revoked_from :: "u64 option"

record active_operator_binding =
  bind_object_hash :: hash32
  bind_organization_id :: id16
  bind_role_is_organization_admin :: bool
  bind_device_certificate_hash :: hash32
  bind_operator_subject_id :: id16
  bind_effective_from :: u64
  bind_revoked_from :: "u64 option"

record previous_head_state =
  phs_registry_version :: u64
  phs_certificates :: "hash32 \<Rightarrow> active_certificate option"
  phs_admin_certificates :: "hash32 \<Rightarrow> active_certificate option"
  phs_admin_bindings :: "hash32 \<Rightarrow> active_operator_binding option"
  phs_effective_from :: u64
  phs_valid_through :: u64
  phs_current_writer :: "hash32 option"

record registry_event_fields =
  ev_registry_version :: u64
  ev_effective_from :: u64
  ev_valid_through :: u64
  ev_issued_at :: int
  ev_not_before :: int
  ev_not_after :: int

record resolved_policy =
  pol_object_hash :: hash32
  pol_max_future_clock_skew_ms :: u64
  pol_operating_profile :: byte
  pol_registry_expiry_behavior :: byte

record fallback_successor_barrier =
  fb_registry_version :: u64
  fb_registry_head_hash :: hash32
  fb_event :: registry_event_fields

record registry_candidate =
  cand_chain_id :: id16
  cand_registry_version :: u64
  cand_registry_head_hash :: hash32
  cand_preexisting_authority :: "previous_head_state arc option"
  cand_state :: "previous_head_state arc"
  cand_target_policy :: resolved_policy
  cand_guard_policy :: resolved_policy
  cand_head_event :: registry_event_fields
  cand_state_key :: trust_state_key
  cand_state_revision :: u64
  cand_trusted_time :: trusted_time_state
  cand_original_pin :: "registry_head_pin option"
  cand_proposed_sequence :: u64
  cand_pre_transition_sequence :: u64
  cand_fallback_barrier :: "fallback_successor_barrier option"

record verified_signed_time =
  vst_input :: independent_time_input
  vst_authority_head :: registry_head_pin

record local_time_block =
  lt_candidate_state :: "previous_head_state arc"
  lt_state_key :: trust_state_key
  lt_expected_revision :: u64
  lt_trusted_time :: trusted_time_state
  lt_pinned_head :: "registry_head_pin option"
  lt_observed_os_wall_clock :: int
  lt_candidate_registry_version :: u64
  lt_candidate_registry_head_hash :: hash32
  lt_guard_policy_object_hash :: hash32
  lt_proposed_sequence :: u64
  lt_pre_transition_sequence :: u64
  lt_evaluation :: time_evaluation
  lt_fallback_barrier :: "fallback_successor_barrier option"

record preexisting_effective_now =
  now_value :: int
  now_persisted_floor :: int
  now_wall_clock_ceiling :: "int option"
  now_successor_ready_at :: "int option"

record selected_registry_head =
  sel_candidate_state :: "previous_head_state arc"
  sel_chain_id :: id16
  sel_registry_version :: u64
  sel_registry_head_hash :: hash32
  sel_policy :: resolved_policy
  sel_effective_from :: u64
  sel_valid_through :: u64
  sel_proposed_sequence :: u64
  sel_not_after :: int
  sel_issued_at :: int
  sel_effective_now :: preexisting_effective_now
  sel_warnings :: time_warnings
  sel_committed_revision :: u64

record pending_successor =
  pend_candidate_state :: "previous_head_state arc"
  pend_preexisting_state :: "previous_head_state arc"
  pend_state_key :: trust_state_key
  pend_expected_revision :: u64
  pend_trusted_time :: trusted_time_state
  pend_pinned_head :: "registry_head_pin option"
  pend_observed_os_wall_clock :: int
  pend_candidate_registry_version :: u64
  pend_candidate_registry_head_hash :: hash32
  pend_guard_policy_object_hash :: hash32
  pend_proposed_sequence :: u64
  pend_pre_transition_sequence :: u64
  pend_raw_now :: int
  pend_warnings :: time_warnings
  pend_future_skew :: future_skew
  pend_successor_event :: registry_event_fields

record advanced_registry_head =
  advd_registry_version :: u64
  advd_registry_head_hash :: hash32
  advd_committed_revision :: u64

datatype registry_selection_outcome =
    Selected selected_registry_head
  | Advanced advanced_registry_head
  | OutcomePendingFuture pending_successor

datatype local_audit_outcome = Failed | Accepted | Completed

record clock_release_context =
  ctx_trusted_time_floor :: int
  ctx_observed_os_wall_clock :: int
  ctx_max_future_clock_skew_ms :: u64
  ctx_registry_version :: u64
  ctx_registry_head_hash :: hash32
  ctx_guard_policy_object_hash :: hash32
  ctx_independent_reference :: independent_time_reference
  ctx_issued_at :: int
  ctx_expires_at :: int

record clock_release_audit =
  audit_organization_id :: id16
  audit_target_device_id :: id16
  audit_admin_operator_binding_object_hash :: hash32
  audit_signer_certificate_object_hash :: hash32
  audit_outcome :: local_audit_outcome
  audit_effective_now :: int
  audit_context :: clock_release_context
  audit_nonce :: bytes

record clock_release_proof =
  prf_candidate_state :: "previous_head_state arc"
  prf_state_key :: trust_state_key
  prf_expected_revision :: u64
  prf_trusted_time :: trusted_time_state
  prf_pinned_head :: "registry_head_pin option"
  prf_observed_os_wall_clock :: int
  prf_proposed_sequence :: u64
  prf_pre_transition_sequence :: u64
  prf_raw_now :: int
  prf_warnings :: time_warnings
  prf_future_skew :: future_skew
  prf_audit :: clock_release_audit
  prf_replay_key :: clock_release_replay_key

record verified_signer =
  signer_key_thumbprint :: bytes
  signer_authority_subject_id :: "id16 option"

section \<open>Local time\<close>

fun map_time_error :: "time_error \<Rightarrow> trust_error" where
  "map_time_error Overflow = TTimeOverflow"
| "map_time_error StateMonotonicity = TStateMonotonicity"

fun merge_sources ::
    "verified_signed_time list \<Rightarrow> trusted_time_state \<Rightarrow> bool \<Rightarrow> trust_error + (trusted_time_state \<times> bool)" where
  "merge_sources [] t ch = Inr (t, ch)"
| "merge_sources (source # rest) t ch =
     bindE (map_errE map_time_error (merge_independent_references t [vst_input source])) (\<lambda>adv.
     merge_sources rest (adv_state adv) (ch \<or> changed adv))"

definition block_of ::
    "registry_candidate \<Rightarrow> int \<Rightarrow> u64 \<Rightarrow> trusted_time_state \<Rightarrow> time_evaluation \<Rightarrow> local_time_block" where
  "block_of c os_wall_clock n t ev = \<lparr>
     lt_candidate_state = cand_state c, lt_state_key = cand_state_key c, lt_expected_revision = n,
     lt_trusted_time = t, lt_pinned_head = cand_original_pin c,
     lt_observed_os_wall_clock = os_wall_clock,
     lt_candidate_registry_version = cand_registry_version c,
     lt_candidate_registry_head_hash = cand_registry_head_hash c,
     lt_guard_policy_object_hash = pol_object_hash (cand_guard_policy c),
     lt_proposed_sequence = cand_proposed_sequence c,
     lt_pre_transition_sequence = cand_pre_transition_sequence c,
     lt_evaluation = ev, lt_fallback_barrier = cand_fallback_barrier c\<rparr>"

definition evaluate_block ::
    "registry_candidate \<Rightarrow> int \<Rightarrow> u64 \<Rightarrow> trusted_time_state \<Rightarrow> trust_error + local_time_block" where
  "evaluate_block c os_wall_clock n t =
     bindE (map_errE map_time_error (evaluate_preexisting_time os_wall_clock t
              (pol_max_future_clock_skew_ms (cand_guard_policy c)))) (\<lambda>ev.
     Inr (block_of c os_wall_clock n t ev))"

definition prepare_sources ::
    "'s load_op \<Rightarrow> 's \<Rightarrow> registry_candidate \<Rightarrow> verified_signed_time list \<Rightarrow>
       trust_error + (persisted_trust_record \<times> trusted_time_state \<times> bool)" where
  "prepare_sources load s c sources =
     bindE (map_errE map_store_error (load s (cand_state_key c))) (\<lambda>persisted.
     bindE (reject_if (revision persisted \<noteq> cand_state_revision c
              \<or> trusted_time persisted \<noteq> cand_trusted_time c
              \<or> pinned_head persisted \<noteq> cand_original_pin c) TStateConflict) (\<lambda>_.
     bindE (reject_if (\<exists>source \<in> set sources. Some (vst_authority_head source) \<noteq> cand_original_pin c)
              TStateConflict) (\<lambda>_.
     bindE (merge_sources sources (trusted_time persisted) False) (\<lambda>(t, ch).
     Inr (persisted, t, ch)))))"

definition prepare_local_time ::
    "'s load_op \<Rightarrow> ('s, independent_time_commit) commit_op \<Rightarrow> 's \<Rightarrow> registry_candidate \<Rightarrow> int \<Rightarrow>
       verified_signed_time list \<Rightarrow> (trust_error + local_time_block) \<times> 's" where
  "prepare_local_time load commit_time s c os_wall_clock sources =
     (case prepare_sources load s c sources of
        Inl e \<Rightarrow> (Inl e, s)
      | Inr (persisted, t, ch) \<Rightarrow>
          if ch then
            (case commit_time s (cand_state_key c) (cand_state_revision c) \<lparr>itc_next_trusted_time = t\<rparr> of
               (Inl e, s') \<Rightarrow> (Inl (map_store_error e), s')
             | (Inr committed, s') \<Rightarrow>
                 if revision committed \<le> cand_state_revision c \<or> trusted_time committed \<noteq> t
                    \<or> pinned_head committed \<noteq> cand_original_pin c
                 then (Inl TStateConflict, s')
                 else (evaluate_block c os_wall_clock (revision committed) (trusted_time committed), s'))
          else (evaluate_block c os_wall_clock (revision persisted) (trusted_time persisted), s))"

definition saturated_ceiling :: "int \<Rightarrow> u64 \<Rightarrow> int" where
  "saturated_ceiling t skew = (let s = t + uint skew in if is_i64 s then s else i64_max)"

definition ready_at :: "fallback_successor_barrier \<Rightarrow> int" where
  "ready_at b = max (ev_issued_at (fb_event b)) (ev_not_before (fb_event b))"

definition require_pending ::
    "fallback_successor_barrier \<Rightarrow> u64 \<Rightarrow> hash32 \<Rightarrow> int \<Rightarrow> registry_error + unit" where
  "require_pending b current_version current_hash now =
     bindE (reject_if (fb_registry_version b \<le> current_version \<or> fb_registry_head_hash b = current_hash
              \<or> ev_registry_version (fb_event b) \<noteq> fb_registry_version b) (RTrust TStateConflict)) (\<lambda>_.
     reject_if (now \<ge> ready_at b) SuccessorReady)"

definition require_barrier ::
    "fallback_successor_barrier option \<Rightarrow> u64 \<Rightarrow> hash32 \<Rightarrow> int \<Rightarrow> registry_error + unit" where
  "require_barrier b version hash now =
     (case b of None \<Rightarrow> Inr () | Some barrier \<Rightarrow> require_pending barrier version hash now)"

section \<open>Clock releases\<close>

definition is_active :: "u64 \<Rightarrow> u64 option \<Rightarrow> u64 \<Rightarrow> bool" where
  "is_active effective_from revoked_from seq \<longleftrightarrow>
     effective_from \<le> seq \<and> (case revoked_from of None \<Rightarrow> True | Some r \<Rightarrow> seq < r)"

definition from_verified_audit :: "clock_release_audit \<Rightarrow> clock_release_replay_key" where
  "from_verified_audit a = \<lparr>rk_organization_id = audit_organization_id a,
     rk_target_device_id = audit_target_device_id a, rk_nonce = audit_nonce a\<rparr>"

definition require_candidate_block_preflight ::
    "registry_candidate \<Rightarrow> local_time_block \<Rightarrow> clock_release_error + unit" where
  "require_candidate_block_preflight c lt =
     bindE (map_errE (\<lambda>_. Mismatch) (evaluate_preexisting_time (lt_observed_os_wall_clock lt)
              (lt_trusted_time lt) (pol_max_future_clock_skew_ms (cand_guard_policy c)))) (\<lambda>expected.
     reject_if (\<not> ptr_eq (lt_candidate_state lt) (cand_state c)
         \<or> lt_state_key lt \<noteq> cand_state_key c
         \<or> lt_expected_revision lt < cand_state_revision c
         \<or> lt_pinned_head lt \<noteq> cand_original_pin c
         \<or> lt_candidate_registry_version lt \<noteq> cand_registry_version c
         \<or> lt_candidate_registry_head_hash lt \<noteq> cand_registry_head_hash c
         \<or> lt_guard_policy_object_hash lt \<noteq> pol_object_hash (cand_guard_policy c)
         \<or> lt_proposed_sequence lt \<noteq> cand_proposed_sequence c
         \<or> lt_pre_transition_sequence lt \<noteq> cand_pre_transition_sequence c
         \<or> raw_now (lt_evaluation lt) \<noteq> raw_now expected
         \<or> warnings (lt_evaluation lt) \<noteq> warnings expected
         \<or> ev_future_skew (lt_evaluation lt) \<noteq> ev_future_skew expected) Mismatch)"

definition require_previous_admin ::
    "previous_head_state \<Rightarrow> clock_release_audit \<Rightarrow> verified_signer \<Rightarrow> u64 \<Rightarrow> clock_release_error + unit" where
  "require_previous_admin p a signer seq =
     (let certificate_hash = audit_signer_certificate_object_hash a;
          binding_hash = audit_admin_operator_binding_object_hash a in
     bindE (ok_or (CTrust TSignature) (phs_admin_certificates p certificate_hash)) (\<lambda>certificate.
     bindE (reject_if (cert_object_hash certificate \<noteq> certificate_hash
              \<or> cert_organization_id certificate \<noteq> audit_organization_id a
              \<or> cert_device_id certificate \<noteq> audit_target_device_id a
              \<or> cert_kind certificate \<noteq> KOrganizationAdmin
              \<or> cert_signing_key_thumbprint certificate \<noteq> Some (signer_key_thumbprint signer)
              \<or> ''organizationAdminApprove'' \<notin> set (cert_capabilities certificate))
              (CTrust TSignature)) (\<lambda>_.
     bindE (reject_if (\<not> is_active (cert_effective_from certificate) (cert_revoked_from certificate) seq)
              (CTrust TSignerInactive)) (\<lambda>_.
     bindE (ok_or Mismatch (signer_authority_subject_id signer)) (\<lambda>signer_subject.
     bindE (reject_if (cert_authority_subject_id certificate \<noteq> Some signer_subject) Mismatch) (\<lambda>_.
     bindE (ok_or Mismatch (phs_admin_bindings p binding_hash)) (\<lambda>binding.
     bindE (reject_if (bind_object_hash binding \<noteq> binding_hash
              \<or> bind_organization_id binding \<noteq> audit_organization_id a
              \<or> \<not> bind_role_is_organization_admin binding
              \<or> bind_device_certificate_hash binding \<noteq> certificate_hash
              \<or> bind_operator_subject_id binding \<noteq> signer_subject) Mismatch) (\<lambda>_.
     reject_if (\<not> is_active (bind_effective_from binding) (bind_revoked_from binding) seq)
              (CTrust TSignerInactive)))))))))"

definition require_signed_correlations ::
    "registry_candidate \<Rightarrow> local_time_block \<Rightarrow> clock_release_audit \<Rightarrow> clock_release_error + unit" where
  "require_signed_correlations c lt a =
     (let ctx = audit_context a; signed_reference = ctx_independent_reference ctx;
          now = raw_now (lt_evaluation lt) in
     bindE (reject_if (audit_organization_id a \<noteq> organization_id (cand_state_key c)
              \<or> audit_target_device_id a \<noteq> device_id (cand_state_key c)
              \<or> audit_outcome a \<noteq> Accepted
              \<or> audit_effective_now a \<noteq> now
              \<or> ctx_trusted_time_floor ctx \<noteq> floor_ms (lt_trusted_time lt)
              \<or> ctx_observed_os_wall_clock ctx \<noteq> lt_observed_os_wall_clock lt
              \<or> ctx_max_future_clock_skew_ms ctx \<noteq> pol_max_future_clock_skew_ms (cand_guard_policy c)
              \<or> ctx_registry_version ctx \<noteq> cand_registry_version c
              \<or> ctx_registry_head_hash ctx \<noteq> cand_registry_head_hash c
              \<or> ctx_guard_policy_object_hash ctx \<noteq> pol_object_hash (cand_guard_policy c)
              \<or> ev_future_skew (lt_evaluation lt) \<noteq> Blocked) Mismatch) (\<lambda>_.
     bindE (reject_if (ref_kind signed_reference = Tsa) (CTrust TTimeSourceUnsupported)) (\<lambda>_.
     bindE (ok_or Mismatch (independent_reference (lt_trusted_time lt))) (\<lambda>reference.
     bindE (reject_if (ref_kind reference \<noteq> ref_kind signed_reference
              \<or> ref_object_hash signed_reference \<noteq> ref_object_hash reference
              \<or> verified_time signed_reference \<noteq> verified_time reference) Mismatch) (\<lambda>_.
     reject_if (now < ctx_issued_at ctx \<or> now > ctx_expires_at ctx) Expired)))))"

text \<open>
  The decoder of the audit object and the COSE verification under the previous head are arguments:
  the first gives the decoded audit or nothing, the second the verified signer or the mapped error.
\<close>

definition verify_clock_release ::
    "(bytes \<Rightarrow> clock_release_audit option) \<Rightarrow>
     (previous_head_state \<Rightarrow> clock_release_audit \<Rightarrow> u64 \<Rightarrow> clock_release_error + verified_signer) \<Rightarrow>
     ('s \<Rightarrow> clock_release_replay_key \<Rightarrow> state_store_error + bool) \<Rightarrow>
     's \<Rightarrow> registry_candidate \<Rightarrow> local_time_block \<Rightarrow> bytes \<Rightarrow> clock_release_error + clock_release_proof" where
  "verify_clock_release decode_audit verify_normal consumed s c lt exact_audit_bytes =
     bindE (require_candidate_block_preflight c lt) (\<lambda>_.
     bindE (ok_or Mismatch (decode_audit exact_audit_bytes)) (\<lambda>audit.
     bindE (ok_or Mismatch (cand_preexisting_authority c)) (\<lambda>previous.
     bindE (verify_normal (arc_val previous) audit (lt_pre_transition_sequence lt)) (\<lambda>signer.
     bindE (require_previous_admin (arc_val previous) audit signer (lt_pre_transition_sequence lt)) (\<lambda>_.
     bindE (require_signed_correlations c lt audit) (\<lambda>_.
     let key = from_verified_audit audit in
     bindE (map_errE (CTrust \<circ> map_store_error) (consumed s key)) (\<lambda>used.
     bindE (reject_if used (CTrust TClockReleaseReplay)) (\<lambda>_.
     Inr \<lparr>prf_candidate_state = cand_state c, prf_state_key = lt_state_key lt,
       prf_expected_revision = lt_expected_revision lt, prf_trusted_time = lt_trusted_time lt,
       prf_pinned_head = lt_pinned_head lt,
       prf_observed_os_wall_clock = lt_observed_os_wall_clock lt,
       prf_proposed_sequence = lt_proposed_sequence lt,
       prf_pre_transition_sequence = lt_pre_transition_sequence lt,
       prf_raw_now = raw_now (lt_evaluation lt), prf_warnings = warnings (lt_evaluation lt),
       prf_future_skew = ev_future_skew (lt_evaluation lt), prf_audit = audit, prf_replay_key = key\<rparr>))))))))"

definition into_selection_replay_key ::
    "clock_release_proof \<Rightarrow> registry_candidate \<Rightarrow> local_time_block \<Rightarrow> unit + clock_release_replay_key" where
  "into_selection_replay_key prf c lt =
     (let ctx = audit_context (prf_audit prf) in
     bindE (reject_if (\<not> ptr_eq (prf_candidate_state prf) (cand_state c)
         \<or> \<not> ptr_eq (prf_candidate_state prf) (lt_candidate_state lt)
         \<or> prf_state_key prf \<noteq> cand_state_key c
         \<or> prf_state_key prf \<noteq> lt_state_key lt
         \<or> prf_expected_revision prf \<noteq> lt_expected_revision lt
         \<or> prf_trusted_time prf \<noteq> lt_trusted_time lt
         \<or> prf_pinned_head prf \<noteq> lt_pinned_head lt
         \<or> prf_observed_os_wall_clock prf \<noteq> lt_observed_os_wall_clock lt
         \<or> prf_proposed_sequence prf \<noteq> lt_proposed_sequence lt
         \<or> prf_pre_transition_sequence prf \<noteq> lt_pre_transition_sequence lt
         \<or> prf_raw_now prf \<noteq> raw_now (lt_evaluation lt)
         \<or> prf_warnings prf \<noteq> warnings (lt_evaluation lt)
         \<or> prf_future_skew prf \<noteq> ev_future_skew (lt_evaluation lt)
         \<or> prf_future_skew prf \<noteq> Blocked
         \<or> audit_organization_id (prf_audit prf) \<noteq> organization_id (cand_state_key c)
         \<or> audit_target_device_id (prf_audit prf) \<noteq> device_id (cand_state_key c)
         \<or> audit_effective_now (prf_audit prf) \<noteq> raw_now (lt_evaluation lt)
         \<or> ctx_registry_version ctx \<noteq> lt_candidate_registry_version lt
         \<or> ctx_registry_head_hash ctx \<noteq> lt_candidate_registry_head_hash lt
         \<or> ctx_guard_policy_object_hash ctx \<noteq> lt_guard_policy_object_hash lt
         \<or> ctx_trusted_time_floor ctx \<noteq> floor_ms (lt_trusted_time lt)
         \<or> ctx_observed_os_wall_clock ctx \<noteq> lt_observed_os_wall_clock lt) ()) (\<lambda>_.
     Inr (prf_replay_key prf)))"

section \<open>Selection\<close>

definition require_candidate_local_time ::
    "registry_candidate \<Rightarrow> local_time_block \<Rightarrow> registry_error + unit" where
  "require_candidate_local_time c lt =
     reject_if (\<not> ptr_eq (cand_state c) (lt_candidate_state lt)
         \<or> cand_state_key c \<noteq> lt_state_key lt
         \<or> lt_expected_revision lt < cand_state_revision c
         \<or> cand_original_pin c \<noteq> lt_pinned_head lt
         \<or> cand_registry_version c \<noteq> lt_candidate_registry_version lt
         \<or> cand_registry_head_hash c \<noteq> lt_candidate_registry_head_hash lt
         \<or> pol_object_hash (cand_guard_policy c) \<noteq> lt_guard_policy_object_hash lt
         \<or> cand_proposed_sequence c \<noteq> lt_proposed_sequence lt
         \<or> cand_pre_transition_sequence c \<noteq> lt_pre_transition_sequence lt) (RTrust TStateConflict)"

definition require_release_pairing ::
    "registry_candidate \<Rightarrow> local_time_block \<Rightarrow> clock_release_proof option \<Rightarrow>
       registry_error + clock_release_replay_key option" where
  "require_release_pairing c lt release =
     (case (ev_future_skew (lt_evaluation lt), release) of
        (Blocked, Some r) \<Rightarrow>
          bindE (map_errE (\<lambda>_. FutureSkewError) (into_selection_replay_key r c lt)) (\<lambda>k. Inr (Some k))
      | (Blocked, None) \<Rightarrow> Inl FutureSkewError
      | (WithinLimit, Some _) \<Rightarrow> Inl FutureSkewError
      | (UnprovableWithoutIndependentReference, Some _) \<Rightarrow> Inl FutureSkewError
      | (WithinLimit, None) \<Rightarrow> Inr None
      | (UnprovableWithoutIndependentReference, None) \<Rightarrow> Inr None)"

definition candidate_is_current :: "registry_candidate \<Rightarrow> bool" where
  "candidate_is_current c =
     (case cand_original_pin c of
        None \<Rightarrow> False
      | Some pin \<Rightarrow>
          registry_version pin = cand_registry_version c
          \<and> registry_head_hash pin = cand_registry_head_hash c
          \<and> (case cand_preexisting_authority c of
               None \<Rightarrow> False
             | Some authority \<Rightarrow> ptr_eq authority (cand_state c)))"

definition commit_selection ::
    "('s, registry_selection_commit) commit_op \<Rightarrow> 's \<Rightarrow> local_time_block \<Rightarrow> registry_selection_commit \<Rightarrow>
       (registry_error + u64) \<times> 's" where
  "commit_selection commit s lt d =
     (case commit s (lt_state_key lt) (lt_expected_revision lt) d of
        (Inl e, s') \<Rightarrow> (Inl (RTrust (map_store_error e)), s')
      | (Inr committed, s') \<Rightarrow>
          if revision committed \<le> lt_expected_revision lt
             \<or> trusted_time committed \<noteq> next_trusted_time d
             \<or> pinned_head committed \<noteq> Some (next_head d)
          then (Inl (RTrust TStateConflict), s')
          else (Inr (revision committed), s'))"

definition selected_head ::
    "registry_candidate \<Rightarrow> int \<Rightarrow> time_warnings \<Rightarrow> u64 \<Rightarrow> int option \<Rightarrow> int \<Rightarrow> selected_registry_head" where
  "selected_head c now warn n ceiling persisted_floor = \<lparr>
     sel_candidate_state = cand_state c, sel_chain_id = cand_chain_id c,
     sel_registry_version = cand_registry_version c, sel_registry_head_hash = cand_registry_head_hash c,
     sel_policy = cand_target_policy c,
     sel_effective_from = ev_effective_from (cand_head_event c),
     sel_valid_through = ev_valid_through (cand_head_event c),
     sel_proposed_sequence = cand_proposed_sequence c,
     sel_not_after = ev_not_after (cand_head_event c), sel_issued_at = ev_issued_at (cand_head_event c),
     sel_effective_now = \<lparr>now_value = now, now_persisted_floor = persisted_floor,
       now_wall_clock_ceiling = ceiling,
       now_successor_ready_at = map_option ready_at (cand_fallback_barrier c)\<rparr>,
     sel_warnings = warn, sel_committed_revision = n\<rparr>"

definition pending_of ::
    "registry_candidate \<Rightarrow> local_time_block \<Rightarrow> previous_head_state arc \<Rightarrow> pending_successor" where
  "pending_of c lt previous = \<lparr>
     pend_candidate_state = cand_state c, pend_preexisting_state = previous,
     pend_state_key = lt_state_key lt, pend_expected_revision = lt_expected_revision lt,
     pend_trusted_time = lt_trusted_time lt, pend_pinned_head = lt_pinned_head lt,
     pend_observed_os_wall_clock = lt_observed_os_wall_clock lt,
     pend_candidate_registry_version = lt_candidate_registry_version lt,
     pend_candidate_registry_head_hash = lt_candidate_registry_head_hash lt,
     pend_guard_policy_object_hash = lt_guard_policy_object_hash lt,
     pend_proposed_sequence = lt_proposed_sequence lt,
     pend_pre_transition_sequence = lt_pre_transition_sequence lt,
     pend_raw_now = raw_now (lt_evaluation lt), pend_warnings = warnings (lt_evaluation lt),
     pend_future_skew = ev_future_skew (lt_evaluation lt), pend_successor_event = cand_head_event c\<rparr>"

definition selection_ceiling :: "registry_candidate \<Rightarrow> local_time_block \<Rightarrow> int option" where
  "selection_ceiling c lt =
     map_option (\<lambda>r. saturated_ceiling (verified_time r)
         (min (pol_max_future_clock_skew_ms (cand_guard_policy c))
              (pol_max_future_clock_skew_ms (cand_target_policy c))))
       (independent_reference (lt_trusted_time lt))"

definition is_stale :: "registry_candidate \<Rightarrow> local_time_block \<Rightarrow> bool" where
  "is_stale c lt \<longleftrightarrow> raw_now (lt_evaluation lt) > ev_not_after (cand_head_event c)"

definition lease_miss :: "registry_candidate \<Rightarrow> bool" where
  "lease_miss c \<longleftrightarrow> cand_proposed_sequence c < ev_effective_from (cand_head_event c)
     \<or> cand_proposed_sequence c > ev_valid_through (cand_head_event c)"

text \<open>
  The selection in its four parts: what is refused or left pending without touching the store, the
  commit of the current head, and the commit of a successor.
\<close>

definition select_pending ::
    "registry_candidate \<Rightarrow> local_time_block \<Rightarrow> registry_error + registry_selection_outcome" where
  "select_pending c lt =
     bindE (ok_or PendingFuture (cand_preexisting_authority c)) (\<lambda>previous.
     bindE (reject_if (cand_proposed_sequence c < phs_effective_from (arc_val previous)
              \<or> cand_proposed_sequence c > phs_valid_through (arc_val previous)) PendingFuture) (\<lambda>_.
     Inr (OutcomePendingFuture (pending_of c lt previous))))"

definition select_current ::
    "('s, registry_selection_commit) commit_op \<Rightarrow> 's \<Rightarrow> registry_candidate \<Rightarrow> local_time_block \<Rightarrow>
       clock_release_replay_key option \<Rightarrow> (registry_error + registry_selection_outcome) \<times> 's" where
  "select_current commit s c lt k =
     (case bindE (require_barrier (cand_fallback_barrier c) (cand_registry_version c)
                    (cand_registry_head_hash c) (raw_now (lt_evaluation lt))) (\<lambda>_.
           bindE (reject_if (is_stale c lt) Stale) (\<lambda>_.
           bindE (reject_if (lease_miss c) SequenceLease) (\<lambda>_.
           ok_or (RTrust TStateConflict) (cand_original_pin c)))) of
        Inl e \<Rightarrow> (Inl e, s)
      | Inr current_head \<Rightarrow>
          let d = compare_and_affirm (lt_trusted_time lt) current_head k in
          (case commit_selection commit s lt d of
             (Inl e, s') \<Rightarrow> (Inl e, s')
           | (Inr n, s') \<Rightarrow>
               (Inr (Selected (selected_head c (raw_now (lt_evaluation lt)) (warnings (lt_evaluation lt)) n
                  (selection_ceiling c lt) (floor_ms (next_trusted_time d)))), s')))"

definition select_successor ::
    "('s, registry_selection_commit) commit_op \<Rightarrow> 's \<Rightarrow> registry_candidate \<Rightarrow> local_time_block \<Rightarrow>
       clock_release_replay_key option \<Rightarrow> (registry_error + registry_selection_outcome) \<times> 's" where
  "select_successor commit s c lt k =
     (let d = advance_head (advance_registry_floor (lt_trusted_time lt) (ev_issued_at (cand_head_event c))
                (ev_not_before (cand_head_event c)))
              \<lparr>registry_version = cand_registry_version c, registry_head_hash = cand_registry_head_hash c\<rparr> k in
      case commit_selection commit s lt d of
        (Inl e, s') \<Rightarrow> (Inl e, s')
      | (Inr n, s') \<Rightarrow>
          (Inr (if is_stale c lt \<or> lease_miss c
                then Advanced \<lparr>advd_registry_version = cand_registry_version c,
                       advd_registry_head_hash = cand_registry_head_hash c, advd_committed_revision = n\<rparr>
                else Selected (selected_head c (raw_now (lt_evaluation lt)) (warnings (lt_evaluation lt)) n
                       (selection_ceiling c lt) (floor_ms (next_trusted_time d)))), s'))"

definition select_registry_head ::
    "('s, registry_selection_commit) commit_op \<Rightarrow> 's \<Rightarrow> registry_candidate \<Rightarrow> local_time_block \<Rightarrow>
       clock_release_proof option \<Rightarrow> (registry_error + registry_selection_outcome) \<times> 's" where
  "select_registry_head commit s c lt release =
     (case bindE (require_candidate_local_time c lt) (\<lambda>_. require_release_pairing c lt release) of
        Inl e \<Rightarrow> (Inl e, s)
      | Inr k \<Rightarrow>
          if \<not> candidate_is_current c
             \<and> (raw_now (lt_evaluation lt) < ev_issued_at (cand_head_event c)
                \<or> raw_now (lt_evaluation lt) < ev_not_before (cand_head_event c))
          then (select_pending c lt, s)
          else if candidate_is_current c then select_current commit s c lt k
          else select_successor commit s c lt k)"

definition active_certificate_at ::
    "previous_head_state \<Rightarrow> hash32 \<Rightarrow> u64 \<Rightarrow> active_certificate option" where
  "active_certificate_at p h at_sequence =
     (case phs_certificates p h of
        None \<Rightarrow> None
      | Some certificate \<Rightarrow>
          if cert_effective_from certificate > at_sequence
             \<or> (case cert_revoked_from certificate of None \<Rightarrow> False | Some r \<Rightarrow> at_sequence \<ge> r)
             \<or> cert_kind certificate = KWriter \<and> phs_current_writer p \<noteq> Some h
          then None else Some certificate)"

definition select_stale_writer_registry_head ::
    "('s, registry_selection_commit) commit_op \<Rightarrow> 's \<Rightarrow> registry_candidate \<Rightarrow> local_time_block \<Rightarrow>
       (registry_error + selected_registry_head) \<times> 's" where
  "select_stale_writer_registry_head commit s c lt =
     (let now = raw_now (lt_evaluation lt); policy = cand_target_policy c in
      case bindE (require_candidate_local_time c lt) (\<lambda>_.
           bindE (require_release_pairing c lt None) (\<lambda>_.
           bindE (reject_if (\<not> candidate_is_current c \<or> now \<le> ev_not_after (cand_head_event c)
                    \<or> pol_operating_profile policy \<noteq> 0 \<or> pol_registry_expiry_behavior policy \<noteq> 0) Stale) (\<lambda>_.
           bindE (reject_if (lease_miss c) SequenceLease) (\<lambda>_.
           bindE (require_barrier (cand_fallback_barrier c) (cand_registry_version c)
                    (cand_registry_head_hash c) now) (\<lambda>_.
           bindE (ok_or Stale (phs_current_writer (arc_val (cand_state c)))) (\<lambda>writer.
           bindE (reject_if (active_certificate_at (arc_val (cand_state c)) writer (cand_proposed_sequence c)
                    = None) Stale) (\<lambda>_.
           ok_or (RTrust TStateConflict) (cand_original_pin c)))))))) of
        Inl e \<Rightarrow> (Inl e, s)
      | Inr current \<Rightarrow>
          let d = compare_and_affirm (lt_trusted_time lt) current None in
          (case commit_selection commit s lt d of
             (Inl e, s') \<Rightarrow> (Inl e, s')
           | (Inr n, s') \<Rightarrow>
               (Inr (selected_head c now (warnings (lt_evaluation lt)) n (selection_ceiling c lt)
                  (floor_ms (next_trusted_time d))), s')))"

definition reauthentication_time ::
    "('s, registry_selection_commit) commit_op \<Rightarrow> 's \<Rightarrow> local_time_block \<Rightarrow> selected_registry_head \<Rightarrow>
       (registry_error + preexisting_effective_now) \<times> 's" where
  "reauthentication_time commit s lt sel =
     (let now = raw_now (lt_evaluation lt);
          known = now_successor_ready_at (sel_effective_now sel);
          ready = (case lt_fallback_barrier lt of
                     None \<Rightarrow> known
                   | Some b \<Rightarrow> Some (case known of None \<Rightarrow> ready_at b | Some k \<Rightarrow> min k (ready_at b))) in
      case bindE (reject_if (lt_pinned_head lt \<noteq> Some \<lparr>registry_version = sel_registry_version sel,
                      registry_head_hash = sel_registry_head_hash sel\<rparr>
                    \<or> lt_candidate_registry_version lt \<noteq> sel_registry_version sel
                    \<or> lt_candidate_registry_head_hash lt \<noteq> sel_registry_head_hash sel
                    \<or> lt_guard_policy_object_hash lt \<noteq> pol_object_hash (sel_policy sel)
                    \<or> lt_proposed_sequence lt \<noteq> sel_proposed_sequence sel
                    \<or> now < now_value (sel_effective_now sel)) (RTrust TStateConflict)) (\<lambda>_.
           bindE (reject_if (ev_future_skew (lt_evaluation lt) = Blocked) FutureSkewError) (\<lambda>_.
           bindE (require_barrier (lt_fallback_barrier lt) (lt_candidate_registry_version lt)
                    (lt_candidate_registry_head_hash lt) now) (\<lambda>_.
           bindE (reject_if (case ready of None \<Rightarrow> False | Some r \<Rightarrow> now \<ge> r) SuccessorReady) (\<lambda>_.
           ok_or (RTrust TStateConflict) (lt_pinned_head lt))))) of
        Inl e \<Rightarrow> (Inl e, s)
      | Inr pin \<Rightarrow>
          (case commit s (lt_state_key lt) (lt_expected_revision lt)
                  (compare_and_affirm (lt_trusted_time lt) pin None) of
             (Inl e, s') \<Rightarrow> (Inl (RTrust (map_store_error e)), s')
           | (Inr committed, s') \<Rightarrow>
               if revision committed \<le> lt_expected_revision lt
                  \<or> trusted_time committed \<noteq> lt_trusted_time lt
                  \<or> pinned_head committed \<noteq> lt_pinned_head lt
               then (Inl (RTrust TStateConflict), s')
               else (Inr \<lparr>now_value = now, now_persisted_floor = floor_ms (trusted_time committed),
                       now_wall_clock_ceiling = map_option (\<lambda>r. saturated_ceiling (verified_time r)
                           (pol_max_future_clock_skew_ms (sel_policy sel)))
                         (independent_reference (lt_trusted_time lt)),
                       now_successor_ready_at = ready\<rparr>, s')))"

section \<open>The clients over any store\<close>

context trust_state_store
begin

lemma commit_selection_Inl:
  assumes "commit_selection commit_sel s lt d = (Inl e, s')"
  shows "s' = s"
proof (cases "commit_sel s (lt_state_key lt) (lt_expected_revision lt) d")
  case (Pair res t)
  show ?thesis
  proof (cases res)
    case (Inl e')
    with Pair assms commit_selection_fail [of s "lt_state_key lt" "lt_expected_revision lt" d e' t]
    show ?thesis by (simp add: commit_selection_def)
  next
    case (Inr r)
    with commit_selection_cas [of s "lt_state_key lt" "lt_expected_revision lt" d r t] Pair
    have "\<not> revision r \<le> lt_expected_revision lt" "trusted_time r = next_trusted_time d"
        "pinned_head r = Some (next_head d)"
      by (auto simp: word_le_nat_alt)
    with Pair Inr assms show ?thesis by (simp add: commit_selection_def)
  qed
qed

text \<open>The check after a commit never fires: a store that keeps its contract returns what was committed.\<close>

lemma commit_selection_Inr:
  assumes "commit_selection commit_sel s lt d = (Inr n, s')"
  obtains r0 r where "commit_sel s (lt_state_key lt) (lt_expected_revision lt) d = (Inr r, s')"
    "load s (lt_state_key lt) = Inr r0" "revision r0 = lt_expected_revision lt"
    "r = \<lparr>revision = n, trusted_time = next_trusted_time d, pinned_head = Some (next_head d)\<rparr>"
    "unat n = Suc (unat (lt_expected_revision lt))" "load s' (lt_state_key lt) = Inr r"
    "floor_ms (trusted_time r0) \<le> floor_ms (next_trusted_time d)"
proof (cases "commit_sel s (lt_state_key lt) (lt_expected_revision lt) d")
  case (Pair res t)
  then obtain r where r: "res = Inr r" "n = revision r" "t = s'"
    using assms by (auto simp: commit_selection_def split: sum.splits if_splits)
  note c = Pair [unfolded r(1) r(3)]
  from commit_selection_cas [OF c] commit_selection_load [OF c] c r(2) show ?thesis
    by (auto intro!: that)
qed

end

lemma merge_result_monotone: "merge_independent_references t xs = Inr a \<Longrightarrow> monotone_state (adv_state a)"
  using monotone_merged [of "floor_ms t" t xs] by (auto simp: merge_eq split: if_splits)

lemma merge_sources_merge:
  assumes "merge_sources sources t ch = Inr (t', ch')" and "monotone_state t"
  shows "\<exists>adv. merge_independent_references t (map vst_input sources) = Inr adv \<and> t' = adv_state adv
    \<and> (ch' \<longleftrightarrow> ch \<or> changed adv)"
  using assms
proof (induction sources arbitrary: t ch)
  case Nil
  then show ?case using merge_unchanged [of t "[]"] by (auto simp: merge_eq)
next
  case (Cons x xs)
  then obtain a where a: "merge_independent_references t [vst_input x] = Inr a"
    and rest: "merge_sources xs (adv_state a) (ch \<or> changed a) = Inr (t', ch')"
    by (auto simp: result_simps)
  have "monotone_state (adv_state a)"
    using a by (rule merge_result_monotone)
  from Cons.IH [OF rest this] obtain b where b: "merge_independent_references (adv_state a) (map vst_input xs) = Inr b"
      "t' = adv_state b" "ch' \<longleftrightarrow> (ch \<or> changed a) \<or> changed b" by blast
  with merge_in_batches [OF a, of "map vst_input (x # xs)" "map vst_input xs"] show ?case by auto
qed

lemma merge_not_changed:
  "merge_independent_references t xs = Inr adv \<Longrightarrow> \<not> changed adv \<Longrightarrow> adv_state adv = t"
  using merge_unchanged [of t xs] by (cases t) (auto simp: merge_eq split: if_splits)

lemma evaluate_monotone: "evaluate_preexisting_time now t skew = Inr ev \<Longrightarrow> monotone_state t"
  by (auto simp: evaluate_preexisting_time_def validate_state_Inr result_simps)

lemma evaluate_block_Inr:
  "evaluate_block c now n t = Inr lt \<longleftrightarrow>
     (\<exists>ev. evaluate_preexisting_time now t (pol_max_future_clock_skew_ms (cand_guard_policy c)) = Inr ev
        \<and> lt = block_of c now n t ev)"
  by (auto simp: evaluate_block_def result_simps)

lemma merge_sources_monotone:
  "merge_sources sources t ch = Inr (t', ch') \<Longrightarrow> monotone_state t' \<Longrightarrow> monotone_state t"
  by (cases sources) (auto simp: result_simps merge_eq split: if_splits)

lemma prepare_sources_Inr:
  assumes "prepare_sources load s c sources = Inr (persisted, t, ch)"
  shows "load s (cand_state_key c) = Inr persisted \<and> revision persisted = cand_state_revision c
    \<and> trusted_time persisted = cand_trusted_time c \<and> pinned_head persisted = cand_original_pin c
    \<and> (\<forall>source \<in> set sources. Some (vst_authority_head source) = cand_original_pin c)
    \<and> merge_sources sources (cand_trusted_time c) False = Inr (t, ch)"
  using assms by (auto simp: prepare_sources_def result_simps)

context trust_state_store
begin

lemma prepare_local_time_Inr:
  assumes "prepare_local_time load commit_time s c now sources = (Inr lt, s')"
  shows "\<exists>adv ev. merge_independent_references (cand_trusted_time c) (map vst_input sources) = Inr adv
    \<and> evaluate_preexisting_time now (adv_state adv) (pol_max_future_clock_skew_ms (cand_guard_policy c)) = Inr ev
    \<and> lt = block_of c now (lt_expected_revision lt) (adv_state adv) ev
    \<and> load s (cand_state_key c) = Inr \<lparr>revision = cand_state_revision c,
         trusted_time = cand_trusted_time c, pinned_head = cand_original_pin c\<rparr>
    \<and> load s' (cand_state_key c) = Inr \<lparr>revision = lt_expected_revision lt,
         trusted_time = adv_state adv, pinned_head = cand_original_pin c\<rparr>
    \<and> (\<forall>source \<in> set sources. Some (vst_authority_head source) = cand_original_pin c)
    \<and> (if changed adv then unat (lt_expected_revision lt) = Suc (unat (cand_state_revision c))
       else s' = s \<and> lt_expected_revision lt = cand_state_revision c)"
proof -
  obtain persisted t ch where prep: "prepare_sources load s c sources = Inr (persisted, t, ch)"
    using assms by (auto simp: prepare_local_time_def split: sum.splits)
  note p = prepare_sources_Inr [OF prep]
  have persisted: "persisted = \<lparr>revision = cand_state_revision c,
         trusted_time = cand_trusted_time c, pinned_head = cand_original_pin c\<rparr>"
    using p by (cases persisted) simp
  show ?thesis
  proof (cases ch)
    case True
    with assms prep obtain r where c: "commit_time s (cand_state_key c) (cand_state_revision c)
        \<lparr>itc_next_trusted_time = t\<rparr> = (Inr r, s')"
      and ev: "evaluate_block c now (revision r) (trusted_time r) = Inr lt"
      by (auto simp: prepare_local_time_def split: prod.splits sum.splits if_splits)
    have r: "r = \<lparr>revision = revision r, trusted_time = t, pinned_head = cand_original_pin c\<rparr>"
        "unat (revision r) = Suc (unat (cand_state_revision c))"
      using commit_time_cas [OF c] p persisted by (cases r, auto)+
    from ev obtain e where e: "evaluate_preexisting_time now t (pol_max_future_clock_skew_ms (cand_guard_policy c)) = Inr e"
      "lt = block_of c now (revision r) t e"
      using r(1) by (auto simp: evaluate_block_Inr) (metis persisted_trust_record.select_convs(2))
    have "monotone_state (cand_trusted_time c)"
      using p merge_sources_monotone evaluate_monotone [OF e(1)] by blast
    with merge_sources_merge p True obtain adv where
      "merge_independent_references (cand_trusted_time c) (map vst_input sources) = Inr adv" "t = adv_state adv"
      "changed adv" by blast
    with e r commit_time_load [OF c] p persisted show ?thesis by (auto simp: block_of_def)
  next
    case False
    with assms prep p have "s' = s" and ev: "evaluate_block c now (cand_state_revision c) (cand_trusted_time c) = Inr lt"
      by (auto simp: prepare_local_time_def)
    from ev obtain e where e: "evaluate_preexisting_time now (cand_trusted_time c) (pol_max_future_clock_skew_ms (cand_guard_policy c)) = Inr e"
      "lt = block_of c now (cand_state_revision c) (cand_trusted_time c) e"
      by (auto simp: evaluate_block_Inr)
    with merge_sources_merge [OF _ evaluate_monotone [OF e(1)]] p False obtain adv where
      adv: "merge_independent_references (cand_trusted_time c) (map vst_input sources) = Inr adv" "\<not> changed adv"
      by blast
    from merge_not_changed [OF adv] adv e p persisted \<open>s' = s\<close> show ?thesis by (auto simp: block_of_def)
  qed
qed

end

text \<open>What binding a head in a store means: the commit that the selection makes.\<close>

definition head_committed ::
    "'s load_op \<Rightarrow> 's \<Rightarrow> 's \<Rightarrow> registry_candidate \<Rightarrow> local_time_block \<Rightarrow> u64 \<Rightarrow> bool" where
  "head_committed load s s' c lt n \<longleftrightarrow>
     (\<exists>r0 r. load s (lt_state_key lt) = Inr r0 \<and> load s' (lt_state_key lt) = Inr r
        \<and> revision r0 = lt_expected_revision lt \<and> revision r = n
        \<and> unat n = Suc (unat (lt_expected_revision lt))
        \<and> floor_ms (trusted_time r0) \<le> floor_ms (trusted_time r)
        \<and> pinned_head r = Some \<lparr>registry_version = cand_registry_version c,
             registry_head_hash = cand_registry_head_hash c\<rparr>)"

definition release_used ::
    "('s \<Rightarrow> clock_release_replay_key \<Rightarrow> state_store_error + bool) \<Rightarrow> 's \<Rightarrow> 's \<Rightarrow> local_time_block \<Rightarrow>
       clock_release_proof option \<Rightarrow> bool" where
  "release_used consumed s s' lt release \<longleftrightarrow>
     (if ev_future_skew (lt_evaluation lt) = Blocked
      then \<exists>p. release = Some p \<and> consumed s (prf_replay_key p) = Inr False
             \<and> consumed s' (prf_replay_key p) = Inr True
      else release = None)"

lemma candidate_is_current_pin:
  "candidate_is_current c \<Longrightarrow> cand_original_pin c = Some \<lparr>registry_version = cand_registry_version c,
     registry_head_hash = cand_registry_head_hash c\<rparr>"
  by (auto simp: candidate_is_current_def split: option.splits)

lemma require_release_pairing_Inr:
  "require_release_pairing c lt release = Inr k \<longleftrightarrow>
     (case k of
        None \<Rightarrow> ev_future_skew (lt_evaluation lt) \<noteq> Blocked \<and> release = None
      | Some key \<Rightarrow> ev_future_skew (lt_evaluation lt) = Blocked
          \<and> (\<exists>p. release = Some p \<and> into_selection_replay_key p c lt = Inr key))"
  by (cases "ev_future_skew (lt_evaluation lt)"; cases release; cases k)
    (auto simp: require_release_pairing_def result_simps)

lemma into_selection_replay_key_Inr:
  "into_selection_replay_key p c lt = Inr key \<Longrightarrow> key = prf_replay_key p"
  by (auto simp: into_selection_replay_key_def Let_def result_simps)

context trust_state_store
begin

lemma commit_selection_head:
  assumes c: "commit_selection commit_sel s lt d = (Inr n, s')"
    and head: "next_head d = \<lparr>registry_version = cand_registry_version cd,
             registry_head_hash = cand_registry_head_hash cd\<rparr>"
    and k: "require_release_pairing cd lt release = Inr (replay_key d)"
  shows "head_committed load s s' cd lt n \<and> release_used consumed s s' lt release"
proof -
  obtain r0 r where commit: "commit_sel s (lt_state_key lt) (lt_expected_revision lt) d = (Inr r, s')"
    and facts: "load s (lt_state_key lt) = Inr r0" "revision r0 = lt_expected_revision lt"
    "r = \<lparr>revision = n, trusted_time = next_trusted_time d, pinned_head = Some (next_head d)\<rparr>"
    "unat n = Suc (unat (lt_expected_revision lt))" "load s' (lt_state_key lt) = Inr r"
    "floor_ms (trusted_time r0) \<le> floor_ms (next_trusted_time d)"
    using c by (rule commit_selection_Inr)
  have "release_used consumed s s' lt release"
    using k commit_selection_fresh [OF commit] commit_consumes [OF commit]
    by (cases "replay_key d")
      (auto simp: release_used_def require_release_pairing_Inr dest: into_selection_replay_key_Inr)
  with facts head show ?thesis by (auto simp: head_committed_def)
qed

lemma select_current_Inr:
  assumes "select_current commit_sel s c lt k = (Inr out, s')" and "candidate_is_current c"
    and "require_release_pairing c lt release = Inr k"
  shows "\<exists>n. out = Selected (selected_head c (raw_now (lt_evaluation lt)) (warnings (lt_evaluation lt)) n
       (selection_ceiling c lt) (floor_ms (lt_trusted_time lt)))
    \<and> head_committed load s s' c lt n \<and> release_used consumed s s' lt release
    \<and> \<not> is_stale c lt \<and> \<not> lease_miss c
    \<and> (\<forall>b. cand_fallback_barrier c = Some b \<longrightarrow> raw_now (lt_evaluation lt) < ready_at b)"
proof -
  let ?d = "compare_and_affirm (lt_trusted_time lt) \<lparr>registry_version = cand_registry_version c,
     registry_head_hash = cand_registry_head_hash c\<rparr> k"
  note pin = candidate_is_current_pin [OF assms(2)]
  obtain n where c: "commit_selection commit_sel s lt ?d = (Inr n, s')"
    and out: "out = Selected (selected_head c (raw_now (lt_evaluation lt)) (warnings (lt_evaluation lt)) n
       (selection_ceiling c lt) (floor_ms (lt_trusted_time lt)))"
    and guards: "\<not> is_stale c lt" "\<not> lease_miss c"
      "\<forall>b. cand_fallback_barrier c = Some b \<longrightarrow> raw_now (lt_evaluation lt) < ready_at b"
    using assms(1) pin
    by (auto simp: select_current_def Let_def result_simps require_barrier_def require_pending_def
        compare_and_affirm_def split: sum.splits prod.splits option.splits)
  from commit_selection_head [OF c, of c release] assms(3) guards out show ?thesis
    by (auto simp: compare_and_affirm_def)
qed

lemma select_successor_Inr:
  assumes "select_successor commit_sel s c lt k = (Inr out, s')"
    and "require_release_pairing c lt release = Inr k"
  shows "\<exists>n. head_committed load s s' c lt n \<and> release_used consumed s s' lt release
    \<and> out = (if is_stale c lt \<or> lease_miss c
        then Advanced \<lparr>advd_registry_version = cand_registry_version c,
               advd_registry_head_hash = cand_registry_head_hash c, advd_committed_revision = n\<rparr>
        else Selected (selected_head c (raw_now (lt_evaluation lt)) (warnings (lt_evaluation lt)) n
               (selection_ceiling c lt) (floor_ms (advance_registry_floor (lt_trusted_time lt)
                  (ev_issued_at (cand_head_event c)) (ev_not_before (cand_head_event c))))))"
proof -
  let ?d = "advance_head (advance_registry_floor (lt_trusted_time lt) (ev_issued_at (cand_head_event c))
                (ev_not_before (cand_head_event c)))
              \<lparr>registry_version = cand_registry_version c, registry_head_hash = cand_registry_head_hash c\<rparr> k"
  obtain n where c: "commit_selection commit_sel s lt ?d = (Inr n, s')"
    and out: "out = (if is_stale c lt \<or> lease_miss c
        then Advanced \<lparr>advd_registry_version = cand_registry_version c,
               advd_registry_head_hash = cand_registry_head_hash c, advd_committed_revision = n\<rparr>
        else Selected (selected_head c (raw_now (lt_evaluation lt)) (warnings (lt_evaluation lt)) n
               (selection_ceiling c lt) (floor_ms (next_trusted_time ?d))))"
    using assms(1) by (auto simp: select_successor_def Let_def split: sum.splits prod.splits)
  from commit_selection_head [OF c, of c release] assms(2) out show ?thesis
    by (auto simp: advance_head_def)
qed

lemma select_registry_head_Inl:
  "select_registry_head commit_sel s c lt release = (Inl e, s') \<Longrightarrow> s' = s"
  by (auto simp: select_registry_head_def select_current_def select_successor_def Let_def
      dest: commit_selection_Inl split: sum.splits prod.splits if_splits)

end

context trust_state_store
begin

lemma selection_outcome:
  assumes sel: "select_registry_head commit_sel s c lt release = (res, s')"
  shows "case res of
      Inl e \<Rightarrow> s' = s
    | Inr (OutcomePendingFuture p) \<Rightarrow> s' = s \<and> \<not> candidate_is_current c
        \<and> raw_now (lt_evaluation lt) < max (ev_issued_at (cand_head_event c)) (ev_not_before (cand_head_event c))
    | Inr (Advanced a) \<Rightarrow> head_committed load s s' c lt (advd_committed_revision a)
        \<and> release_used consumed s s' lt release \<and> \<not> candidate_is_current c \<and> (is_stale c lt \<or> lease_miss c)
        \<and> raw_now (lt_evaluation lt) \<ge> max (ev_issued_at (cand_head_event c)) (ev_not_before (cand_head_event c))
    | Inr (Selected h) \<Rightarrow> head_committed load s s' c lt (sel_committed_revision h)
        \<and> release_used consumed s s' lt release \<and> \<not> is_stale c lt \<and> \<not> lease_miss c
        \<and> (candidate_is_current c \<or>
            raw_now (lt_evaluation lt) \<ge> max (ev_issued_at (cand_head_event c)) (ev_not_before (cand_head_event c)))"
proof (cases res)
  case (Inl e)
  with sel select_registry_head_Inl show ?thesis by auto
next
  case (Inr out)
  let ?early = "raw_now (lt_evaluation lt) < ev_issued_at (cand_head_event c)
      \<or> raw_now (lt_evaluation lt) < ev_not_before (cand_head_event c)"
  obtain k where k: "require_release_pairing c lt release = Inr k"
    and rest: "(if \<not> candidate_is_current c \<and> ?early then (select_pending c lt, s)
      else if candidate_is_current c then select_current commit_sel s c lt k
      else select_successor commit_sel s c lt k) = (Inr out, s')"
    using sel Inr by (auto simp: select_registry_head_def result_simps split: sum.splits)
  consider (pending) "\<not> candidate_is_current c" ?early "select_pending c lt = Inr out" "s' = s"
    | (current) "candidate_is_current c" "select_current commit_sel s c lt k = (Inr out, s')"
    | (successor) "\<not> candidate_is_current c" "\<not> ?early" "select_successor commit_sel s c lt k = (Inr out, s')"
    using rest by (auto split: if_splits)
  then show ?thesis
  proof cases
    case pending
    with Inr show ?thesis by (auto simp: select_pending_def result_simps)
  next
    case current
    with select_current_Inr [OF current(2,1) k] Inr show ?thesis by (auto simp: selected_head_def)
  next
    case successor
    with select_successor_Inr [OF successor(3) k] Inr show ?thesis by (auto simp: selected_head_def)
  qed
qed

end

section \<open>Properties\<close>


definition sample_state :: "previous_head_state arc" where
  "sample_state = \<lparr>arc_ptr = 1, arc_val = \<lparr>phs_registry_version = 0, phs_certificates = (\<lambda>_. None),
     phs_admin_certificates = (\<lambda>_. None), phs_admin_bindings = (\<lambda>_. None), phs_effective_from = 0,
     phs_valid_through = 9, phs_current_writer = None\<rparr>\<rparr>"

definition sample_policy :: resolved_policy where
  "sample_policy = \<lparr>pol_object_hash = [], pol_max_future_clock_skew_ms = 60, pol_operating_profile = 0,
     pol_registry_expiry_behavior = 0\<rparr>"

definition sample_candidate :: registry_candidate where
  "sample_candidate = \<lparr>cand_chain_id = [], cand_registry_version = 1,
     cand_registry_head_hash = replicate 32 4, cand_preexisting_authority = None,
     cand_state = sample_state, cand_target_policy = sample_policy, cand_guard_policy = sample_policy,
     cand_head_event = \<lparr>ev_registry_version = 1, ev_effective_from = 0, ev_valid_through = 9,
       ev_issued_at = 7, ev_not_before = 6, ev_not_after = 20\<rparr>,
     cand_state_key = op_sample_key, cand_state_revision = 0, cand_trusted_time = initial 5,
     cand_original_pin = None, cand_proposed_sequence = 3, cand_pre_transition_sequence = 3,
     cand_fallback_barrier = None\<rparr>"

definition sample_block :: local_time_block where
  "sample_block = block_of sample_candidate 8 0 (initial 5) \<lparr>raw_now = 8,
     warnings = \<lparr>clock_rollback = False, independent_time_unavailable = True\<rparr>,
     ev_future_skew = UnprovableWithoutIndependentReference\<rparr>"

lemma sample_prepare:
  "prepare_local_time op_load op_commit_independent_time op_sample_store sample_candidate 8 [] =
     (Inr sample_block, op_sample_store)"
proof -
  have load: "op_load op_sample_store (cand_state_key sample_candidate) =
      Inr \<lparr>revision = 0, trusted_time = initial 5, pinned_head = None\<rparr>"
    by (simp add: sample_candidate_def op_sample_load)
  then have "prepare_sources op_load op_sample_store sample_candidate [] =
      Inr (\<lparr>revision = 0, trusted_time = initial 5, pinned_head = None\<rparr>, initial 5, False)"
    by (simp add: prepare_sources_def) (simp add: sample_candidate_def)
  then show ?thesis
    by (simp add: prepare_local_time_def evaluate_block_def evaluate_preexisting_time_def
        validate_state_def initial_def sample_block_def)
qed


text \<open>
  C4. Selecting a registry head on the operator store is all or nothing. An error or a pending future
  successor leaves the store as it was. A selected or advanced head is committed exactly once, at the
  next revision, with the head pinned and the floor not lowered; a selected head is neither stale nor
  outside its sequence lease, and a successor is bound only when its issue time and its not-before time
  have come. With the clock blocked for future skew, the selection went through an unused clock release
  that is now consumed; otherwise no release was used.
\<close>

theorem operator_selection_outcome:
  assumes "select_registry_head op_commit_registry_selection s c lt release = (res, s')"
  shows "case res of
      Inl e \<Rightarrow> s' = s
    | Inr (OutcomePendingFuture p) \<Rightarrow> s' = s \<and> \<not> candidate_is_current c
        \<and> raw_now (lt_evaluation lt) < max (ev_issued_at (cand_head_event c)) (ev_not_before (cand_head_event c))
    | Inr (Advanced a) \<Rightarrow> head_committed op_load s s' c lt (advd_committed_revision a)
        \<and> release_used op_clock_release_consumed s s' lt release
        \<and> \<not> candidate_is_current c \<and> (is_stale c lt \<or> lease_miss c)
        \<and> raw_now (lt_evaluation lt) \<ge> max (ev_issued_at (cand_head_event c)) (ev_not_before (cand_head_event c))
    | Inr (Selected h) \<Rightarrow> head_committed op_load s s' c lt (sel_committed_revision h)
        \<and> release_used op_clock_release_consumed s s' lt release
        \<and> \<not> is_stale c lt \<and> \<not> lease_miss c
        \<and> (candidate_is_current c \<or>
            raw_now (lt_evaluation lt) \<ge> max (ev_issued_at (cand_head_event c)) (ev_not_before (cand_head_event c)))"
  using assms by (rule op.selection_outcome)

definition sample_head :: registry_head_pin where
  "sample_head = \<lparr>registry_version = 1, registry_head_hash = replicate 32 4\<rparr>"

lemma sample_selection:
  "\<exists>h t. select_registry_head op_commit_registry_selection op_sample_store sample_candidate sample_block None
      = (Inr (Selected h), t) \<and> sel_committed_revision h = 1"
proof -
  let ?d = "advance_head (initial 7) sample_head None"
  have commit: "\<exists>t. op_commit_registry_selection op_sample_store op_sample_key 0 ?d =
      (Inr \<lparr>revision = 1, trusted_time = initial 7, pinned_head = Some sample_head\<rparr>, t)"
    using op_commitI [OF op_sample_load, of 1 "initial 7" "Some sample_head" "Some sample_head" None]
    by (simp add: op_commit_registry_selection_def advance_head_def checked_succ_def checked_add_word_def
        require_monotonic_time_Inr initial_def monotone_state_def pin_advances_def row_check_def row_of_def
        op_sample_store_def Let_def length_check_def sample_head_def)
  have d: "advance_head (advance_registry_floor (lt_trusted_time sample_block)
        (ev_issued_at (cand_head_event sample_candidate)) (ev_not_before (cand_head_event sample_candidate)))
      \<lparr>registry_version = cand_registry_version sample_candidate,
       registry_head_hash = cand_registry_head_hash sample_candidate\<rparr> None = ?d"
    by (simp add: sample_block_def block_of_def sample_candidate_def advance_registry_floor_def initial_def
        sample_head_def)
  have key: "lt_state_key sample_block = op_sample_key" "lt_expected_revision sample_block = 0"
    by (simp_all add: sample_block_def block_of_def sample_candidate_def)
  obtain t where "commit_selection op_commit_registry_selection op_sample_store sample_block ?d = (Inr 1, t)"
    using commit by (auto simp: commit_selection_def key advance_head_def)
  then have "\<exists>h. select_successor op_commit_registry_selection op_sample_store sample_candidate sample_block None
      = (Inr (Selected h), t) \<and> sel_committed_revision h = 1"
    by (simp add: select_successor_def d)
      (simp add: selected_head_def sample_block_def block_of_def sample_candidate_def is_stale_def lease_miss_def)
  moreover have "\<not> candidate_is_current sample_candidate"
    by (simp add: candidate_is_current_def sample_candidate_def)
  moreover have "require_candidate_local_time sample_candidate sample_block = Inr ()"
      "require_release_pairing sample_candidate sample_block None = Inr None"
    by (simp_all add: require_candidate_local_time_def require_release_pairing_def sample_block_def
        block_of_def ptr_eq_def) (simp add: sample_candidate_def)
  ultimately show ?thesis
    by (auto simp: select_registry_head_def) (auto simp: sample_block_def block_of_def sample_candidate_def)
qed

theorem operator_selection_outcome_witness:
  "\<exists>h t. select_registry_head op_commit_registry_selection op_sample_store sample_candidate sample_block None
      = (Inr (Selected h), t) \<and> head_committed op_load op_sample_store t sample_candidate sample_block 1"
  using sample_selection operator_selection_outcome [of op_sample_store sample_candidate sample_block None]
  by fastforce

lemma require_signed_correlations_Inr:
  assumes "require_signed_correlations c lt a = Inr u"
  shows "audit_organization_id a = organization_id (cand_state_key c)
    \<and> audit_target_device_id a = device_id (cand_state_key c) \<and> audit_outcome a = Accepted
    \<and> audit_effective_now a = raw_now (lt_evaluation lt)
    \<and> ctx_trusted_time_floor (audit_context a) = floor_ms (lt_trusted_time lt)
    \<and> ctx_observed_os_wall_clock (audit_context a) = lt_observed_os_wall_clock lt
    \<and> ctx_registry_version (audit_context a) = cand_registry_version c
    \<and> ctx_registry_head_hash (audit_context a) = cand_registry_head_hash c
    \<and> ctx_guard_policy_object_hash (audit_context a) = pol_object_hash (cand_guard_policy c)
    \<and> ev_future_skew (lt_evaluation lt) = Blocked
    \<and> independent_reference (lt_trusted_time lt) = Some (ctx_independent_reference (audit_context a))
    \<and> ctx_issued_at (audit_context a) \<le> raw_now (lt_evaluation lt)
    \<and> raw_now (lt_evaluation lt) \<le> ctx_expires_at (audit_context a)"
  using assms by (auto simp: require_signed_correlations_def Let_def result_simps)

lemma require_candidate_block_preflight_Inr:
  assumes "require_candidate_block_preflight c lt = Inr u"
  shows "ptr_eq (lt_candidate_state lt) (cand_state c) \<and> lt_state_key lt = cand_state_key c
    \<and> lt_candidate_registry_version lt = cand_registry_version c
    \<and> lt_candidate_registry_head_hash lt = cand_registry_head_hash c
    \<and> lt_guard_policy_object_hash lt = pol_object_hash (cand_guard_policy c)"
  using assms by (auto simp: require_candidate_block_preflight_def result_simps)

lemma require_previous_admin_Inr:
  assumes "require_previous_admin p a signer seq = Inr u"
  shows "\<exists>cert. phs_admin_certificates p (audit_signer_certificate_object_hash a) = Some cert
    \<and> cert_kind cert = KOrganizationAdmin \<and> is_active (cert_effective_from cert) (cert_revoked_from cert) seq
    \<and> cert_signing_key_thumbprint cert = Some (signer_key_thumbprint signer)
    \<and> ''organizationAdminApprove'' \<in> set (cert_capabilities cert)"
  using assms by (auto simp: require_previous_admin_def Let_def result_simps)


definition sample_admin :: active_certificate where
  "sample_admin = \<lparr>cert_object_hash = [10], cert_organization_id = replicate 16 1,
     cert_device_id = replicate 16 2, cert_kind = KOrganizationAdmin,
     cert_signing_key_thumbprint = Some [11], cert_capabilities = [''organizationAdminApprove''],
     cert_authority_subject_id = Some [12], cert_effective_from = 0, cert_revoked_from = None\<rparr>"

definition sample_binding :: active_operator_binding where
  "sample_binding = \<lparr>bind_object_hash = [13], bind_organization_id = replicate 16 1,
     bind_role_is_organization_admin = True, bind_device_certificate_hash = [10],
     bind_operator_subject_id = [12], bind_effective_from = 0, bind_revoked_from = None\<rparr>"

definition sample_reference :: independent_time_reference where
  "sample_reference = \<lparr>ref_kind = Receipt, ref_object_hash = [14], verified_time = 5\<rparr>"

definition blocked_candidate :: registry_candidate where
  "blocked_candidate = sample_candidate\<lparr>cand_preexisting_authority :=
     Some \<lparr>arc_ptr = 2, arc_val = (arc_val sample_state)\<lparr>phs_admin_certificates := [[10] \<mapsto> sample_admin],
       phs_admin_bindings := [[13] \<mapsto> sample_binding]\<rparr>\<rparr>\<rparr>"

definition blocked_block :: local_time_block where
  "blocked_block = block_of blocked_candidate 90 0 \<lparr>floor_ms = 5, independent_reference = Some sample_reference\<rparr>
     \<lparr>raw_now = 90, warnings = \<lparr>clock_rollback = False, independent_time_unavailable = False\<rparr>,
      ev_future_skew = Blocked\<rparr>"

definition sample_audit :: clock_release_audit where
  "sample_audit = \<lparr>audit_organization_id = replicate 16 1, audit_target_device_id = replicate 16 2,
     audit_admin_operator_binding_object_hash = [13], audit_signer_certificate_object_hash = [10],
     audit_outcome = Accepted, audit_effective_now = 90,
     audit_context = \<lparr>ctx_trusted_time_floor = 5, ctx_observed_os_wall_clock = 90,
       ctx_max_future_clock_skew_ms = 60, ctx_registry_version = 1,
       ctx_registry_head_hash = replicate 32 4, ctx_guard_policy_object_hash = [],
       ctx_independent_reference = sample_reference, ctx_issued_at = 80, ctx_expires_at = 99\<rparr>,
     audit_nonce = [15]\<rparr>"

definition sample_signer :: verified_signer where
  "sample_signer = \<lparr>signer_key_thumbprint = [11], signer_authority_subject_id = Some [12]\<rparr>"

lemmas sample_release_defs = blocked_candidate_def blocked_block_def sample_audit_def sample_signer_def
  sample_admin_def sample_binding_def sample_reference_def sample_candidate_def sample_state_def
  sample_policy_def block_of_def op_sample_key_def

lemma sample_verify:
  "\<exists>p. verify_clock_release (\<lambda>_. Some sample_audit) (\<lambda>_ _ _. Inr sample_signer)
     eph_clock_release_consumed (eph_new op_sample_key 5) blocked_candidate blocked_block [] = Inr p"
proof -
  have "require_candidate_block_preflight blocked_candidate blocked_block = Inr ()"
    by (simp add: require_candidate_block_preflight_def sample_release_defs evaluate_preexisting_time_def
        validate_state_def checked_add_millis_def is_i64_def i64_min_def i64_max_def ptr_eq_def)
  moreover have "require_previous_admin (arc_val (the (cand_preexisting_authority blocked_candidate)))
      sample_audit sample_signer (lt_pre_transition_sequence blocked_block) = Inr ()"
    by (simp add: require_previous_admin_def sample_release_defs is_active_def)
  moreover have "require_signed_correlations blocked_candidate blocked_block sample_audit = Inr ()"
    by (simp add: require_signed_correlations_def sample_release_defs)
  moreover have "cand_preexisting_authority blocked_candidate \<noteq> None"
    by (simp add: blocked_candidate_def)
  moreover have "eph_clock_release_consumed (eph_new op_sample_key 5) k = Inr False" for k
    by (simp add: eph_clock_release_consumed_def eph_new_def)
  ultimately show ?thesis by (auto simp: verify_clock_release_def Let_def)
qed


end
