(* ===== verification/EaChain.thy ===== *)
theory EaChain
  imports EaPrelude
begin

text \<open>
  The chain analysis (\<^verbatim>\<open>crates/ea-chain/src/node.rs\<close>, \<^verbatim>\<open>chain.rs\<close>, \<^verbatim>\<open>error.rs\<close>): from a bag of chain
  nodes, the sorted and deduplicated nodes, the breaks of the predecessor binding, the forks, the
  gaps, the head and the verified head. Unstable sorts are modelled by a stable sort of the same key;
  the results agree unless two different nodes have the same key.
\<close>

section \<open>Model\<close>

datatype chain_node_kind = EntryPackage | DestroyedStub

record chain_node =
  node_chain_id :: id16
  chain_sequence :: u64
  previous_entry_hash :: "hash32 option"
  entry_hash :: hash32
  object_hash :: hash32
  writer_certificate_hash :: hash32
  writer_transition_event_hash :: "hash32 option"
  node_kind :: chain_node_kind

datatype chain_error = ForeignChainId | GenesisBinding | NodeLimit

definition MAX_CHAIN_NODES_V1 :: nat where
  "MAX_CHAIN_NODES_V1 = 1048576"

record chain_head =
  head_chain_id :: id16
  head_sequence :: u64
  head_entry_hash :: hash32

record chain_break =
  break_sequence :: u64
  expected_previous_entry_hash :: hash32
  actual_previous_entry_hash :: hash32
  break_object_hash :: hash32

datatype chain_fork_form = SequenceCollision | PredecessorCollision

record chain_fork =
  fork_chain_id :: id16
  fork_sequence :: u64
  competing_entry_hashes :: "hash32 list"
  competing_object_hashes :: "hash32 list"
  fork_form :: chain_fork_form

record chain_gap =
  gap_chain_id :: id16
  from_sequence :: u64
  through_sequence :: u64

record verified_chain =
  vc_chain_id :: id16
  vc_nodes :: "chain_node list"
  vc_breaks :: "chain_break list"
  vc_forks :: "chain_fork list"
  vc_gaps :: "chain_gap list"
  vc_head :: "chain_head option"
  verified_head :: "chain_head option"

definition is_fully_verified :: "verified_chain \<Rightarrow> bool" where
  "is_fully_verified c \<longleftrightarrow> vc_breaks c = [] \<and> vc_gaps c = [] \<and> vc_forks c = []"

definition head_of :: "chain_node \<Rightarrow> chain_head" where
  "head_of n = \<lparr>head_chain_id = node_chain_id n, head_sequence = chain_sequence n,
     head_entry_hash = entry_hash n\<rparr>"

section \<open>Collisions\<close>

record competitor =
  comp_entry_hash :: hash32
  comp_object_hash :: hash32
  comp_sequence :: u64

definition push_competitor :: "competitor list \<Rightarrow> chain_node \<Rightarrow> competitor list" where
  "push_competitor sides n =
     (if sides \<noteq> [] \<and> comp_entry_hash (last sides) = entry_hash n
      then butlast sides @ [(last sides)\<lparr>
             comp_object_hash := min (comp_object_hash (last sides)) (object_hash n),
             comp_sequence := min (comp_sequence (last sides)) (chain_sequence n)\<rparr>]
      else sides @ [\<lparr>comp_entry_hash = entry_hash n, comp_object_hash = object_hash n,
             comp_sequence = chain_sequence n\<rparr>])"

definition competitors :: "chain_node list \<Rightarrow> competitor list" where
  "competitors nodes = foldl push_competitor [] nodes"

definition fork_of :: "id16 \<Rightarrow> competitor \<Rightarrow> competitor \<Rightarrow> chain_fork_form \<Rightarrow> chain_fork" where
  "fork_of cid l r form = \<lparr>
     fork_chain_id = cid, fork_sequence = min (comp_sequence l) (comp_sequence r),
     competing_entry_hashes = sort [comp_entry_hash l, comp_entry_hash r],
     competing_object_hashes = sort [comp_object_hash l, comp_object_hash r],
     fork_form = form\<rparr>"

definition group_forks :: "id16 \<Rightarrow> chain_fork_form \<Rightarrow> chain_node list \<Rightarrow> chain_fork list" where
  "group_forks cid form g = map (\<lambda>(l, r). fork_of cid l r form) (windows2 (competitors g))"

definition sequence_forks :: "id16 \<Rightarrow> chain_node list list \<Rightarrow> chain_fork list" where
  "sequence_forks cid groups = concat (map (group_forks cid SequenceCollision) groups)"

definition predecessor_key :: "chain_node \<Rightarrow> hash32 option \<times> hash32 \<times> hash32 \<times> u64" where
  "predecessor_key n = (previous_entry_hash n, entry_hash n, object_hash n, chain_sequence n)"

definition predecessor_forks :: "id16 \<Rightarrow> chain_node list \<Rightarrow> chain_fork list" where
  "predecessor_forks cid nodes =
     (let by_predecessor = sort_key predecessor_key (filter (\<lambda>n. previous_entry_hash n \<noteq> None) nodes)
      in concat (map (group_forks cid PredecessorCollision)
           (chunk_by (\<lambda>x y. previous_entry_hash x = previous_entry_hash y) by_predecessor)))"

definition collect_forks :: "id16 \<Rightarrow> chain_node list \<Rightarrow> chain_node list list \<Rightarrow> chain_fork list" where
  "collect_forks cid nodes groups =
     (let forks = sequence_forks cid groups;
          sequence_pairs = sort (map competing_entry_hashes forks);
          more = filter (\<lambda>f. \<not> binary_search id (competing_entry_hashes f) sequence_pairs)
                   (predecessor_forks cid nodes)
      in sort_key (\<lambda>f. (fork_sequence f, competing_entry_hashes f ! 0)) (forks @ more))"

section \<open>Breaks, prefix and gaps\<close>

definition breaks_of_pair :: "chain_node list \<Rightarrow> chain_node list \<Rightarrow> chain_break list" where
  "breaks_of_pair preceding g =
     (if checked_succ (chain_sequence (hd preceding)) \<noteq> Some (chain_sequence (hd g)) then []
      else concat (map (\<lambda>n.
        case previous_entry_hash n of
          None \<Rightarrow> []
        | Some actual \<Rightarrow>
            if binary_search entry_hash actual preceding then []
            else [\<lparr>break_sequence = chain_sequence (hd g),
                   expected_previous_entry_hash = entry_hash (hd preceding),
                   actual_previous_entry_hash = actual, break_object_hash = object_hash n\<rparr>]) g))"

definition collect_breaks :: "chain_node list list \<Rightarrow> chain_break list" where
  "collect_breaks groups = concat (map (\<lambda>(preceding, g). breaks_of_pair preceding g) (windows2 groups))"

definition min_option :: "'a::linorder list \<Rightarrow> 'a option" where
  "min_option xs = (case xs of [] \<Rightarrow> None | y # ys \<Rightarrow> Some (foldl min y ys))"

definition first_disputed_sequence :: "chain_fork list \<Rightarrow> chain_break list \<Rightarrow> u64 option" where
  "first_disputed_sequence forks breaks =
     min_option (map fork_sequence forks @ map break_sequence breaks)"

fun walk_from :: "chain_head option \<Rightarrow> chain_node list list \<Rightarrow> u64 option \<Rightarrow> chain_head option" where
  "walk_from verified [] stop = verified"
| "walk_from verified (g # gs) stop =
     (let n = hd g
      in if (case stop of None \<Rightarrow> False | Some st \<Rightarrow> chain_sequence n \<ge> st) then verified
         else if (case verified of
                    None \<Rightarrow> True
                  | Some preceding \<Rightarrow>
                      checked_succ (head_sequence preceding) = Some (chain_sequence n)
                      \<and> previous_entry_hash n = Some (head_entry_hash preceding))
              then walk_from (Some (head_of n)) gs stop
              else verified)"

definition walk_verified_prefix :: "chain_node list list \<Rightarrow> u64 option \<Rightarrow> chain_head option" where
  "walk_verified_prefix groups stop = walk_from None groups stop"

text \<open>The cursor of \<^verbatim>\<open>collect_gaps\<close>: the next expected sequence, saturating at \<^verbatim>\<open>u64::MAX\<close>.\<close>

fun gaps_from :: "id16 \<Rightarrow> u64 \<Rightarrow> chain_node list \<Rightarrow> chain_gap list" where
  "gaps_from cid expected [] = []"
| "gaps_from cid expected (n # ns) =
     (let s = chain_sequence n;
          rest = gaps_from cid (case checked_succ s of None \<Rightarrow> s | Some e \<Rightarrow> e) ns
      in if s > expected
         then \<lparr>gap_chain_id = cid, from_sequence = expected, through_sequence = s - 1\<rparr> # rest
         else rest)"

definition collect_gaps :: "id16 \<Rightarrow> chain_node list \<Rightarrow> chain_gap list" where
  "collect_gaps cid nodes = gaps_from cid 0 nodes"

section \<open>Building the chain\<close>

definition check_node :: "id16 \<Rightarrow> chain_node \<Rightarrow> chain_error + unit" where
  "check_node cid n =
     bindE (reject_if (node_chain_id n \<noteq> cid) ForeignChainId) (\<lambda>_.
     reject_if ((chain_sequence n = 0) \<noteq> (previous_entry_hash n = None)) GenesisBinding)"

definition node_key :: "chain_node \<Rightarrow> u64 \<times> hash32 \<times> hash32" where
  "node_key n = (chain_sequence n, entry_hash n, object_hash n)"

definition sorted_nodes :: "chain_node list \<Rightarrow> chain_node list" where
  "sorted_nodes nodes = remdups_adj (sort_key node_key nodes)"

definition sequence_groups :: "chain_node list \<Rightarrow> chain_node list list" where
  "sequence_groups nodes = chunk_by (\<lambda>x y. chain_sequence x = chain_sequence y) nodes"

definition build_chain :: "id16 \<Rightarrow> chain_node list \<Rightarrow> chain_error + verified_chain" where
  "build_chain cid nodes =
     bindE (reject_if (length nodes > MAX_CHAIN_NODES_V1) NodeLimit) (\<lambda>_.
     bindE (foldE (\<lambda>n _. check_node cid n) nodes ()) (\<lambda>_.
     let sorted = sorted_nodes nodes;
         groups = sequence_groups sorted;
         forks = collect_forks cid sorted groups;
         breaks = collect_breaks groups;
         stop = first_disputed_sequence forks breaks
     in Inr \<lparr>vc_chain_id = cid, vc_nodes = sorted, vc_breaks = breaks, vc_forks = forks,
          vc_gaps = collect_gaps cid sorted,
          vc_head = (if sorted = [] then None else Some (head_of (last sorted))),
          verified_head = walk_verified_prefix groups stop\<rparr>))"

section \<open>Sorted nodes and their groups\<close>

lemma set_sorted_nodes [simp]: "set (sorted_nodes nodes) = set nodes"
  by (simp add: sorted_nodes_def)

lemma sorted_nodes_key: "sorted (map node_key (sorted_nodes nodes))"
  by (simp add: sorted_nodes_def sorted_map_remdups_adj)

lemma sorted_nodes_sequence: "sorted (map chain_sequence (sorted_nodes nodes))"
  using sorted_nodes_key [of nodes] unfolding node_key_def by (rule sorted_fst)

lemma sorted_nodes_empty [simp]: "sorted_nodes nodes = [] \<longleftrightarrow> nodes = []"
  by (metis set_sorted_nodes set_empty)

section \<open>Gaps\<close>

definition gap_covers :: "chain_gap \<Rightarrow> u64 \<Rightarrow> bool" where
  "gap_covers g x \<longleftrightarrow> from_sequence g \<le> x \<and> x \<le> through_sequence g"

definition cursor_after :: "u64 \<Rightarrow> u64" where
  "cursor_after s = (case checked_succ s of None \<Rightarrow> s | Some e \<Rightarrow> e)"

lemma cursor_after_bound: "unat (cursor_after s) \<le> Suc (unat s)"
  by (auto simp: cursor_after_def split: option.splits dest!: checked_succ_eq_Some_nat)

lemma checked_succ_None: "checked_succ (s::u64) = None \<Longrightarrow> y \<le> s"
proof -
  assume "checked_succ s = None"
  then have "2 ^ 64 \<le> Suc (unat s)" by (simp add: checked_succ_def checked_add_word_def split: if_splits)
  moreover have "unat y < 2 ^ LENGTH(64)" by (rule unsigned_less)
  ultimately show "y \<le> s" by (simp add: word_le_nat_alt)
qed

lemma cursor_after_iff: "x < y \<Longrightarrow> cursor_after s \<le> x \<longleftrightarrow> s < x"
  by (cases "checked_succ s")
    (auto simp: cursor_after_def word_le_nat_alt word_less_nat_alt dest!: checked_succ_None [of s y] checked_succ_eq_Some_nat)

lemma gap_covers_pred:
  "(expected::u64) < s \<Longrightarrow>
   gap_covers \<lparr>gap_chain_id = cid, from_sequence = expected, through_sequence = s - 1\<rparr> x \<longleftrightarrow> expected \<le> x \<and> x < s"
proof -
  assume "expected < s"
  then have "s \<noteq> 0" by auto
  then have "unat (s - 1) = unat s - 1" "unat s \<noteq> 0" by (simp_all add: unat_minus_one unat_eq_zero)
  then have "x \<le> s - 1 \<longleftrightarrow> x < s" by (auto simp: word_le_nat_alt word_less_nat_alt)
  then show ?thesis by (simp add: gap_covers_def)
qed

lemma cursor_step:
  assumes "sorted (map chain_sequence (n # ns))"
  shows "\<forall>m \<in> set ns. unat (cursor_after (chain_sequence n)) \<le> Suc (unat (chain_sequence m))"
  using assms cursor_after_bound [of "chain_sequence n"] by (fastforce simp: word_le_nat_alt)

lemma gaps_from_cover:
  assumes "sorted (map chain_sequence ns)" and "\<forall>n \<in> set ns. unat expected \<le> Suc (unat (chain_sequence n))"
  shows "(\<exists>g \<in> set (gaps_from cid expected ns). gap_covers g x) \<longleftrightarrow>
     expected \<le> x \<and> x \<notin> chain_sequence ` set ns \<and> (\<exists>n \<in> set ns. x < chain_sequence n)"
  using assms
proof (induction ns arbitrary: expected)
  case (Cons n ns)
  let ?s = "chain_sequence n"
  let ?rest = "gaps_from cid (cursor_after ?s) ns"
  have above: "?s \<le> chain_sequence m" if "m \<in> set ns" for m using Cons.prems(1) that by auto
  from cursor_step [OF Cons.prems(1)] Cons have IH: "(\<exists>g \<in> set ?rest. gap_covers g x) \<longleftrightarrow>
      cursor_after ?s \<le> x \<and> x \<notin> chain_sequence ` set ns \<and> (\<exists>n \<in> set ns. x < chain_sequence n)"
    by simp
  then have rest: "(\<exists>g \<in> set ?rest. gap_covers g x) \<longleftrightarrow>
      ?s < x \<and> x \<notin> chain_sequence ` set ns \<and> (\<exists>n \<in> set ns. x < chain_sequence n)"
    using cursor_after_iff by blast
  have unfold: "set (gaps_from cid expected (n # ns)) = (if ?s > expected
      then insert \<lparr>gap_chain_id = cid, from_sequence = expected, through_sequence = ?s - 1\<rparr> (set ?rest)
      else set ?rest)"
    by (simp add: Let_def cursor_after_def)
  show ?case
  proof (cases "?s > expected")
    case True
    then have "(\<exists>g \<in> set (gaps_from cid expected (n # ns)). gap_covers g x) \<longleftrightarrow>
        (expected \<le> x \<and> x < ?s) \<or> (\<exists>g \<in> set ?rest. gap_covers g x)"
      unfolding unfold by (simp add: gap_covers_pred)
    also have "\<dots> \<longleftrightarrow> expected \<le> x \<and> x \<notin> chain_sequence ` set (n # ns) \<and> (\<exists>m \<in> set (n # ns). x < chain_sequence m)"
      unfolding rest using True above by fastforce
    finally show ?thesis .
  next
    case False
    then have "?s < x \<longleftrightarrow> expected \<le> x \<and> x \<noteq> ?s"
      using Cons.prems(2) by (auto simp: word_le_nat_alt word_less_nat_alt word_unat_eq_iff)
    moreover have "\<not> x < ?s" if "expected \<le> x" using that False by auto
    moreover have "(\<exists>g \<in> set (gaps_from cid expected (n # ns)). gap_covers g x) \<longleftrightarrow> (\<exists>g \<in> set ?rest. gap_covers g x)"
      using False unfolding unfold by simp
    ultimately show ?thesis unfolding rest by auto
  qed
qed simp

lemma gaps_from_separated:
  assumes "sorted (map chain_sequence ns)" and "\<forall>n \<in> set ns. unat expected \<le> Suc (unat (chain_sequence n))"
  shows "sorted_wrt (\<lambda>g h. Suc (unat (through_sequence g)) < unat (from_sequence h)) (gaps_from cid expected ns)
    \<and> (\<forall>g \<in> set (gaps_from cid expected ns). expected \<le> from_sequence g \<and> from_sequence g \<le> through_sequence g
          \<and> (\<exists>n \<in> set ns. through_sequence g < chain_sequence n) \<and> gap_chain_id g = cid)"
  using assms
proof (induction ns arbitrary: expected)
  case (Cons n ns)
  let ?s = "chain_sequence n"
  let ?rest = "gaps_from cid (cursor_after ?s) ns"
  let ?g = "\<lparr>gap_chain_id = cid, from_sequence = expected, through_sequence = ?s - 1\<rparr>"
  have rest: "sorted_wrt (\<lambda>g h. Suc (unat (through_sequence g)) < unat (from_sequence h)) ?rest"
      "g \<in> set ?rest \<Longrightarrow> cursor_after ?s \<le> from_sequence g \<and> from_sequence g \<le> through_sequence g
        \<and> (\<exists>n \<in> set ns. through_sequence g < chain_sequence n) \<and> gap_chain_id g = cid" for g
    using Cons cursor_step [OF Cons.prems(1)] by simp_all
  then have after: "?s < from_sequence g" if "g \<in> set ?rest" for g
    using that cursor_after_iff [of "from_sequence g" _ ?s] by (meson order_le_less_trans)
  have unfold: "gaps_from cid expected (n # ns) = (if ?s > expected then ?g # ?rest else ?rest)"
    by (simp add: Let_def cursor_after_def)
  have first: "Suc (unat (?s - 1)) = unat ?s" if "?s > expected"
    using that by (subst unat_minus_one) (auto simp: word_less_nat_alt)
  have le: "expected \<le> ?s - 1" "?s - 1 < ?s" if "?s > expected"
    using that first [OF that] by (simp_all add: word_le_nat_alt word_less_nat_alt)
  have keep: "expected \<le> from_sequence g" if "g \<in> set ?rest" for g
    using after [OF that] Cons.prems(2) by (simp add: word_le_nat_alt word_less_nat_alt)
  show ?case
  proof (cases "?s > expected")
    case True
    with rest after first le keep show ?thesis
      unfolding unfold by (auto simp: word_less_nat_alt)
  next
    case False
    with rest after keep show ?thesis unfolding unfold by auto
  qed
qed simp

section \<open>Groups of one sequence\<close>

lemma in_groupsI:
  assumes "n \<in> set nodes"
  obtains g where "g \<in> set (sequence_groups (sorted_nodes nodes))" "n \<in> set g"
    "chain_sequence (hd g) = chain_sequence n"
  using group_of [of n "sorted_nodes nodes" chain_sequence] assms unfolding sequence_groups_def by auto

lemma groups_set:
  "g \<in> set (sequence_groups (sorted_nodes nodes)) \<Longrightarrow>
   set g = {n \<in> set nodes. chain_sequence n = chain_sequence (hd g)}"
  using group_set [OF sorted_nodes_sequence] by (simp add: sequence_groups_def)

lemma groups_nonempty: "g \<in> set (sequence_groups ns) \<Longrightarrow> g \<noteq> []"
  unfolding sequence_groups_def by (rule chunk_by_nonempty)

lemma groups_hd: "g \<in> set (sequence_groups (sorted_nodes nodes)) \<Longrightarrow> hd g \<in> set nodes"
  using groups_nonempty groups_set by fastforce

lemma groups_increase: "sorted_wrt (<) (map (\<lambda>g. chain_sequence (hd g)) (sequence_groups (sorted_nodes nodes)))"
  unfolding sequence_groups_def using sorted_nodes_sequence by (rule chunk_by_keys_increase)

lemma groups_entry_sorted:
  assumes "g \<in> set (sequence_groups (sorted_nodes nodes))"
  shows "sorted (map entry_hash g)"
proof -
  have "sorted (map (\<lambda>n. (chain_sequence n, entry_hash n, object_hash n)) (sorted_nodes nodes))"
    using sorted_nodes_key [of nodes] unfolding node_key_def .
  from group_sorted [OF this] assms have "sorted (map (\<lambda>n. (entry_hash n, object_hash n)) g)"
    unfolding sequence_groups_def by blast
  then show ?thesis by (rule sorted_fst)
qed

lemma groups_entry_min:
  "g \<in> set (sequence_groups (sorted_nodes nodes)) \<Longrightarrow> n \<in> set g \<Longrightarrow> entry_hash (hd g) \<le> entry_hash n"
  using groups_entry_sorted [of g nodes] by (cases g) auto

section \<open>Breaks\<close>

definition unbound :: "chain_node set \<Rightarrow> chain_node \<Rightarrow> bool" where
  "unbound N n \<longleftrightarrow> (\<exists>p. previous_entry_hash n = Some p
     \<and> (\<exists>m \<in> N. checked_succ (chain_sequence m) = Some (chain_sequence n))
     \<and> (\<forall>m \<in> N. checked_succ (chain_sequence m) = Some (chain_sequence n) \<longrightarrow> entry_hash m \<noteq> p))"

lemma checked_succ_inject:
  "checked_succ (a::u64) = Some s \<Longrightarrow> checked_succ b = Some s \<Longrightarrow> a = b"
  by (simp add: checked_succ_Some word_unat_eq_iff)

lemma breaks_of_pair_iff:
  assumes "sorted (map entry_hash p)"
  shows "b \<in> set (breaks_of_pair p g) \<longleftrightarrow>
     checked_succ (chain_sequence (hd p)) = Some (chain_sequence (hd g))
     \<and> (\<exists>n \<in> set g. \<exists>actual. previous_entry_hash n = Some actual \<and> actual \<notin> entry_hash ` set p
          \<and> b = \<lparr>break_sequence = chain_sequence (hd g), expected_previous_entry_hash = entry_hash (hd p),
                 actual_previous_entry_hash = actual, break_object_hash = object_hash n\<rparr>)"
  using binary_search_iff [OF assms] by (auto simp: breaks_of_pair_def split: option.splits if_splits) fastforce

definition least_entry_at :: "chain_node set \<Rightarrow> chain_node \<Rightarrow> bool" where
  "least_entry_at N m \<longleftrightarrow> m \<in> N \<and> (\<forall>k \<in> N. chain_sequence k = chain_sequence m \<longrightarrow> entry_hash m \<le> entry_hash k)"

definition break_between :: "chain_node set \<Rightarrow> chain_node \<Rightarrow> chain_node \<Rightarrow> chain_break \<Rightarrow> bool" where
  "break_between N m n b \<longleftrightarrow> n \<in> N \<and> unbound N n \<and> least_entry_at N m
     \<and> checked_succ (chain_sequence m) = Some (chain_sequence n)
     \<and> b = \<lparr>break_sequence = chain_sequence n, expected_previous_entry_hash = entry_hash m,
            actual_previous_entry_hash = the (previous_entry_hash n), break_object_hash = object_hash n\<rparr>"

lemma groups_least:
  "p \<in> set (sequence_groups (sorted_nodes nodes)) \<Longrightarrow> least_entry_at (set nodes) (hd p)"
  unfolding least_entry_at_def using groups_entry_min groups_set groups_hd by blast

lemma collect_breaks_sound:
  assumes "b \<in> set (collect_breaks (sequence_groups (sorted_nodes nodes)))"
  shows "\<exists>m n. break_between (set nodes) m n b"
proof -
  let ?G = "sequence_groups (sorted_nodes nodes)"
  from assms obtain p g where w: "(p, g) \<in> set (windows2 ?G)" and b: "b \<in> set (breaks_of_pair p g)"
    by (auto simp: collect_breaks_def)
  have pg: "p \<in> set ?G" "g \<in> set ?G" using windows_ordered [OF groups_increase w] by simp_all
  from b obtain n actual where suc: "checked_succ (chain_sequence (hd p)) = Some (chain_sequence (hd g))"
    and n: "n \<in> set g" "previous_entry_hash n = Some actual" "actual \<notin> entry_hash ` set p"
    and b: "b = \<lparr>break_sequence = chain_sequence (hd g), expected_previous_entry_hash = entry_hash (hd p),
                 actual_previous_entry_hash = actual, break_object_hash = object_hash n\<rparr>"
    unfolding breaks_of_pair_iff [OF groups_entry_sorted [OF pg(1)]] by blast
  have seq: "chain_sequence n = chain_sequence (hd g)" "n \<in> set nodes"
    using n(1) groups_set [OF pg(2)] by auto
  have pre: "m \<in> set p" if "m \<in> set nodes" "checked_succ (chain_sequence m) = Some (chain_sequence n)" for m
    using that suc groups_set [OF pg(1)] seq checked_succ_inject by auto
  have "unbound (set nodes) n"
    unfolding unbound_def using n pre suc seq groups_hd [OF pg(1)] by auto
  with groups_least [OF pg(1)] seq suc b n(2) show ?thesis
    unfolding break_between_def by (intro exI [of _ "hd p"] exI [of _ n]) auto
qed

lemma collect_breaks_complete:
  assumes "break_between (set nodes) m n b"
  shows "b \<in> set (collect_breaks (sequence_groups (sorted_nodes nodes)))"
proof -
  let ?G = "sequence_groups (sorted_nodes nodes)"
  from assms have n: "n \<in> set nodes" "unbound (set nodes) n" and m: "m \<in> set nodes"
    "checked_succ (chain_sequence m) = Some (chain_sequence n)" "least_entry_at (set nodes) m"
    and b: "b = \<lparr>break_sequence = chain_sequence n, expected_previous_entry_hash = entry_hash m,
               actual_previous_entry_hash = the (previous_entry_hash n), break_object_hash = object_hash n\<rparr>"
    by (auto simp: break_between_def least_entry_at_def)
  obtain g where g: "g \<in> set ?G" "n \<in> set g" "chain_sequence (hd g) = chain_sequence n"
    using n(1) by (rule in_groupsI)
  obtain p where p: "p \<in> set ?G" "m \<in> set p" "chain_sequence (hd p) = chain_sequence m"
    using m(1) by (rule in_groupsI)
  have w: "(p, g) \<in> set (windows2 ?G)"
    by (rule neighbours_in_windows [OF groups_increase p(1) g(1)])
      (use p(3) g(3) m(2) in \<open>simp add: checked_succ_Some\<close>)
  have "entry_hash (hd p) = entry_hash m"
    using m(3) p groups_entry_min [OF p(1,2)] groups_hd [OF p(1)]
    by (auto simp: least_entry_at_def intro!: antisym)
  moreover obtain actual where "previous_entry_hash n = Some actual"
      and "\<forall>m \<in> set nodes. checked_succ (chain_sequence m) = Some (chain_sequence n) \<longrightarrow> entry_hash m \<noteq> actual"
    using n(2) unfolding unbound_def by blast
  moreover from this(2) have "actual \<notin> entry_hash ` set p"
    using m(2) groups_set [OF p(1)] p(3) by auto
  ultimately have "b \<in> set (breaks_of_pair p g)"
    unfolding breaks_of_pair_iff [OF groups_entry_sorted [OF p(1)]] using g p m(2) b by auto
  with w show ?thesis by (auto simp: collect_breaks_def)
qed

lemma collect_breaks_iff:
  "b \<in> set (collect_breaks (sequence_groups (sorted_nodes nodes))) \<longleftrightarrow> (\<exists>m n. break_between (set nodes) m n b)"
  using collect_breaks_sound collect_breaks_complete by blast

lemma ex_least_entry:
  assumes "m \<in> N" and "finite N"
  obtains k where "least_entry_at N k" "chain_sequence k = chain_sequence m"
proof -
  let ?A = "{k \<in> N. chain_sequence k = chain_sequence m}"
  have "finite ?A" "?A \<noteq> {}" using assms by auto
  then obtain k where "k \<in> ?A" "\<forall>x \<in> ?A. entry_hash k \<le> entry_hash x"
    by (metis (mono_tags, lifting) arg_min_if_finite(1) arg_min_least)
  then show ?thesis by (intro that [of k]) (auto simp: least_entry_at_def)
qed

lemma no_breaks_iff:
  "collect_breaks (sequence_groups (sorted_nodes nodes)) = [] \<longleftrightarrow> (\<forall>n \<in> set nodes. \<not> unbound (set nodes) n)"
proof
  assume none: "collect_breaks (sequence_groups (sorted_nodes nodes)) = []"
  show "\<forall>n \<in> set nodes. \<not> unbound (set nodes) n"
  proof (intro ballI notI)
    fix n assume n: "n \<in> set nodes" "unbound (set nodes) n"
    then obtain m where m: "m \<in> set nodes" "checked_succ (chain_sequence m) = Some (chain_sequence n)"
      by (auto simp: unbound_def)
    obtain k where "least_entry_at (set nodes) k" "chain_sequence k = chain_sequence m"
      using ex_least_entry [OF m(1)] by auto
    with n m(2) collect_breaks_complete [of nodes k n] none show False by (auto simp: break_between_def)
  qed
next
  assume "\<forall>n \<in> set nodes. \<not> unbound (set nodes) n"
  then show "collect_breaks (sequence_groups (sorted_nodes nodes)) = []"
    using collect_breaks_sound [of "hd (collect_breaks (sequence_groups (sorted_nodes nodes)))" nodes]
    by (auto simp: break_between_def) (metis list.set_sel(1))
qed

section \<open>Forks\<close>

lemma remdups_adj_snoc:
  "remdups_adj (xs @ [x]) = (if xs \<noteq> [] \<and> last xs = x then remdups_adj xs else remdups_adj xs @ [x])"
  by (induction xs rule: remdups_adj.induct) auto

lemma competitors_snoc: "competitors (ns @ [n]) = push_competitor (competitors ns) n"
  by (simp add: competitors_def)

lemma competitors_Nil [simp]: "competitors [] = []"
  by (simp add: competitors_def)

lemma last_remdups_adj: "xs \<noteq> [] \<Longrightarrow> last (remdups_adj xs) = last xs"
  by (induction xs rule: remdups_adj.induct) auto

lemma push_competitor_hashes:
  "map comp_entry_hash (push_competitor sides n) =
     (if sides \<noteq> [] \<and> last (map comp_entry_hash sides) = entry_hash n then map comp_entry_hash sides
      else map comp_entry_hash sides @ [entry_hash n])"
  by (cases sides rule: rev_cases) (auto simp: push_competitor_def)

lemma competitors_hashes: "map comp_entry_hash (competitors ns) = remdups_adj (map entry_hash ns)"
proof (induction ns rule: rev_induct)
  case (snoc n ns)
  then have empty: "competitors ns = [] \<longleftrightarrow> ns = []"
    by (metis list.map_disc_iff remdups_adj_Nil_iff)
  show ?case
    unfolding competitors_snoc push_competitor_hashes snoc map_append list.map remdups_adj_snoc
    using empty by (cases "ns = []") (simp_all add: last_remdups_adj)
qed simp

lemma push_competitor_member:
  assumes "k \<in> set (push_competitor sides n)"
  shows "k \<in> set sides \<or> comp_entry_hash k = entry_hash n \<and> comp_sequence k = chain_sequence n
     \<or> (\<exists>k0 \<in> set sides. comp_entry_hash k = comp_entry_hash k0 \<and> comp_sequence k = comp_sequence k0)"
proof (cases "sides \<noteq> [] \<and> comp_entry_hash (last sides) = entry_hash n")
  case True
  then have "k \<in> set sides \<or> k = (last sides)\<lparr>
             comp_object_hash := min (comp_object_hash (last sides)) (object_hash n),
             comp_sequence := min (comp_sequence (last sides)) (chain_sequence n)\<rparr>"
    using assms in_set_butlastD by (fastforce simp: push_competitor_def)
  then show ?thesis
  proof
    assume k: "k = (last sides)\<lparr>comp_object_hash := min (comp_object_hash (last sides)) (object_hash n),
             comp_sequence := min (comp_sequence (last sides)) (chain_sequence n)\<rparr>"
    have "comp_sequence k = comp_sequence (last sides) \<or> comp_sequence k = chain_sequence n"
      by (simp add: k min_def)
    moreover have "comp_entry_hash k = comp_entry_hash (last sides)" by (simp add: k)
    ultimately show ?thesis using True last_in_set [of sides] by metis
  qed simp
next
  case False
  with assms show ?thesis by (auto simp: push_competitor_def split: if_splits)
qed

lemma competitors_sequence:
  "k \<in> set (competitors ns) \<Longrightarrow> \<exists>n \<in> set ns. entry_hash n = comp_entry_hash k \<and> chain_sequence n = comp_sequence k"
proof (induction ns arbitrary: k rule: rev_induct)
  case (snoc n ns)
  from push_competitor_member [OF snoc.prems [unfolded competitors_snoc]] show ?case
    using snoc.IH by (elim disjE bexE) force+
qed simp

lemma in_windows_member:
  "length xs \<ge> 2 \<Longrightarrow> x \<in> set xs \<Longrightarrow> \<exists>a b. (a, b) \<in> set (windows2 xs) \<and> (x = a \<or> x = b)"
proof (induction xs rule: induct_list012)
  case (3 y z zs)
  then show ?case by (cases zs) auto
qed auto

lemma two_members: "x \<in> set xs \<Longrightarrow> y \<in> set xs \<Longrightarrow> x \<noteq> y \<Longrightarrow> length xs \<ge> 2"
  by (induction xs rule: induct_list012) auto

lemma strict_sorted_remdups_adj: "sorted xs \<Longrightarrow> sorted_wrt (<) (remdups_adj xs)"
  by (induction xs rule: remdups_adj.induct) auto

lemma competitor_pairs:
  assumes "sorted (map entry_hash g)" and "(l, r) \<in> set (windows2 (competitors g))"
  shows "l \<in> set (competitors g) \<and> r \<in> set (competitors g) \<and> comp_entry_hash l < comp_entry_hash r"
proof -
  have "sorted_wrt (<) (map comp_entry_hash (competitors g))"
    unfolding competitors_hashes using assms(1) by (rule strict_sorted_remdups_adj)
  from windows_ordered [OF this assms(2)] show ?thesis .
qed

lemma competitor_of:
  assumes "a \<in> set g"
  obtains k where "k \<in> set (competitors g)" "comp_entry_hash k = entry_hash a"
proof -
  have "entry_hash a \<in> set (map comp_entry_hash (competitors g))"
    unfolding competitors_hashes using assms by simp
  then show ?thesis using that by auto
qed

lemma competitor_pair_of:
  assumes "a \<in> set g" and "b \<in> set g" and "entry_hash a \<noteq> entry_hash b"
  shows "\<exists>l r. (l, r) \<in> set (windows2 (competitors g))
           \<and> (comp_entry_hash l = entry_hash a \<or> comp_entry_hash r = entry_hash a)"
proof -
  obtain k where k: "k \<in> set (competitors g)" "comp_entry_hash k = entry_hash a"
    using assms(1) by (rule competitor_of)
  obtain k' where k': "k' \<in> set (competitors g)" "comp_entry_hash k' = entry_hash b"
    using assms(2) by (rule competitor_of)
  have "k \<noteq> k'" using assms(3) k k' by auto
  with k(1) k'(1) have "length (competitors g) \<ge> 2" by (rule two_members)
  from in_windows_member [OF this k(1)] k(2) show ?thesis by auto
qed

lemma group_forks_sound:
  assumes "sorted (map entry_hash g)" and "f \<in> set (group_forks cid form g)"
  obtains a b where "a \<in> set g" "b \<in> set g" "entry_hash a < entry_hash b"
    "competing_entry_hashes f = [entry_hash a, entry_hash b]"
    "fork_sequence f = min (chain_sequence a) (chain_sequence b)" "fork_form f = form" "fork_chain_id f = cid"
proof -
  from assms(2) obtain l r where lr: "(l, r) \<in> set (windows2 (competitors g))" and f: "f = fork_of cid l r form"
    by (auto simp: group_forks_def)
  from competitor_pairs [OF assms(1) lr] have m: "l \<in> set (competitors g)" "r \<in> set (competitors g)"
      and lt: "comp_entry_hash l < comp_entry_hash r" by auto
  obtain a where a: "a \<in> set g" "entry_hash a = comp_entry_hash l" "chain_sequence a = comp_sequence l"
    using competitors_sequence [OF m(1)] by blast
  obtain b where b: "b \<in> set g" "entry_hash b = comp_entry_hash r" "chain_sequence b = comp_sequence r"
    using competitors_sequence [OF m(2)] by blast
  have "sort [comp_entry_hash l, comp_entry_hash r] = [comp_entry_hash l, comp_entry_hash r]"
    using less_imp_le [OF lt] by simp
  with that [of a b] a b lt show ?thesis by (simp add: f fork_of_def del: sort_key_simps)
qed

lemma group_forks_cover:
  assumes "a \<in> set g" and "b \<in> set g" and "entry_hash a \<noteq> entry_hash b"
  obtains f where "f \<in> set (group_forks cid form g)" "entry_hash a \<in> set (competing_entry_hashes f)"
proof -
  from competitor_pair_of [OF assms] obtain l r where lr: "(l, r) \<in> set (windows2 (competitors g))"
    and m: "comp_entry_hash l = entry_hash a \<or> comp_entry_hash r = entry_hash a" by blast
  have "fork_of cid l r form \<in> set (group_forks cid form g)" using lr by (force simp: group_forks_def)
  moreover have "entry_hash a \<in> set (competing_entry_hashes (fork_of cid l r form))"
    using m by (auto simp: fork_of_def)
  ultimately show ?thesis by (rule that)
qed

definition collide_at_sequence :: "chain_node \<Rightarrow> chain_node \<Rightarrow> bool" where
  "collide_at_sequence a b \<longleftrightarrow> chain_sequence a = chain_sequence b \<and> entry_hash a \<noteq> entry_hash b"

definition collide_at_predecessor :: "chain_node \<Rightarrow> chain_node \<Rightarrow> bool" where
  "collide_at_predecessor a b \<longleftrightarrow> previous_entry_hash a \<noteq> None
     \<and> previous_entry_hash a = previous_entry_hash b \<and> entry_hash a \<noteq> entry_hash b"

definition fork_between :: "id16 \<Rightarrow> chain_node \<Rightarrow> chain_node \<Rightarrow> chain_fork \<Rightarrow> bool" where
  "fork_between cid a b f \<longleftrightarrow> entry_hash a < entry_hash b \<and> fork_chain_id f = cid
     \<and> competing_entry_hashes f = [entry_hash a, entry_hash b]
     \<and> fork_sequence f = min (chain_sequence a) (chain_sequence b)
     \<and> (case fork_form f of SequenceCollision \<Rightarrow> collide_at_sequence a b
        | PredecessorCollision \<Rightarrow> collide_at_predecessor a b)"

lemma sequence_forks_sound:
  assumes "f \<in> set (sequence_forks cid (sequence_groups (sorted_nodes nodes)))"
  shows "\<exists>a \<in> set nodes. \<exists>b \<in> set nodes. fork_between cid a b f \<and> fork_form f = SequenceCollision"
proof -
  from assms obtain g where g: "g \<in> set (sequence_groups (sorted_nodes nodes))"
    and f: "f \<in> set (group_forks cid SequenceCollision g)" by (auto simp: sequence_forks_def)
  from group_forks_sound [OF groups_entry_sorted [OF g] f] obtain a b where ab: "a \<in> set g" "b \<in> set g"
    "entry_hash a < entry_hash b" "competing_entry_hashes f = [entry_hash a, entry_hash b]"
    "fork_sequence f = min (chain_sequence a) (chain_sequence b)" "fork_form f = SequenceCollision" "fork_chain_id f = cid"
    by blast
  with groups_set [OF g] show ?thesis
    by (intro bexI [of _ a] bexI [of _ b]) (auto simp: fork_between_def collide_at_sequence_def)
qed

lemma sequence_forks_complete:
  assumes "a \<in> set nodes" and "b \<in> set nodes" and "collide_at_sequence a b"
  obtains f where "f \<in> set (sequence_forks cid (sequence_groups (sorted_nodes nodes)))"
    "entry_hash a \<in> set (competing_entry_hashes f)" "fork_sequence f = chain_sequence a"
proof -
  obtain g where g: "g \<in> set (sequence_groups (sorted_nodes nodes))" "a \<in> set g" "chain_sequence (hd g) = chain_sequence a"
    using assms(1) by (rule in_groupsI)
  have "b \<in> set g" using groups_set [OF g(1)] g(3) assms(2,3) by (auto simp: collide_at_sequence_def)
  with g(2) assms(3) obtain f where f: "f \<in> set (group_forks cid SequenceCollision g)"
      "entry_hash a \<in> set (competing_entry_hashes f)"
    by (auto simp: collide_at_sequence_def elim: group_forks_cover)
  from group_forks_sound [OF groups_entry_sorted [OF g(1)] f(1)] groups_set [OF g(1)] g(3)
  have "fork_sequence f = chain_sequence a" by auto
  with f g(1) show ?thesis by (intro that [of f]) (auto simp: sequence_forks_def)
qed

lemma predecessor_group:
  assumes "g \<in> set (chunk_by (\<lambda>x y. previous_entry_hash x = previous_entry_hash y)
      (sort_key predecessor_key (filter (\<lambda>n. previous_entry_hash n \<noteq> None) nodes)))"
  shows "sorted (map entry_hash g)"
    and "set g = {n \<in> set nodes. previous_entry_hash n \<noteq> None \<and> previous_entry_hash n = previous_entry_hash (hd g)}"
proof -
  let ?xs = "sort_key predecessor_key (filter (\<lambda>n. previous_entry_hash n \<noteq> None) nodes)"
  have srt: "sorted (map (\<lambda>n. (previous_entry_hash n, entry_hash n, object_hash n, chain_sequence n)) ?xs)"
    using sorted_sort_key [of predecessor_key "filter (\<lambda>n. previous_entry_hash n \<noteq> None) nodes"]
    unfolding predecessor_key_def .
  from group_sorted [OF this assms] show "sorted (map entry_hash g)" by (rule sorted_fst)
  from group_set [OF sorted_fst [OF srt] assms]
  show "set g = {n \<in> set nodes. previous_entry_hash n \<noteq> None \<and> previous_entry_hash n = previous_entry_hash (hd g)}"
    by auto
qed

lemma predecessor_forks_sound:
  assumes "f \<in> set (predecessor_forks cid nodes)"
  shows "\<exists>a \<in> set nodes. \<exists>b \<in> set nodes. fork_between cid a b f \<and> fork_form f = PredecessorCollision"
proof -
  from assms obtain g where g: "g \<in> set (chunk_by (\<lambda>x y. previous_entry_hash x = previous_entry_hash y)
      (sort_key predecessor_key (filter (\<lambda>n. previous_entry_hash n \<noteq> None) nodes)))"
    and f: "f \<in> set (group_forks cid PredecessorCollision g)" by (auto simp: predecessor_forks_def Let_def)
  from group_forks_sound [OF predecessor_group(1) [OF g] f] obtain a b where ab: "a \<in> set g" "b \<in> set g"
    "entry_hash a < entry_hash b" "competing_entry_hashes f = [entry_hash a, entry_hash b]"
    "fork_sequence f = min (chain_sequence a) (chain_sequence b)" "fork_form f = PredecessorCollision" "fork_chain_id f = cid"
    by blast
  from ab(1,2) have "a \<in> set nodes" "b \<in> set nodes" "previous_entry_hash a \<noteq> None"
      "previous_entry_hash a = previous_entry_hash b"
    unfolding predecessor_group(2) [OF g] mem_Collect_eq by (blast, blast, blast, metis)
  with ab show ?thesis
    by (intro bexI [of _ a] bexI [of _ b]) (auto simp: fork_between_def collide_at_predecessor_def)
qed

lemma predecessor_forks_complete:
  assumes "a \<in> set nodes" and "b \<in> set nodes" and "collide_at_predecessor a b"
  obtains f where "f \<in> set (predecessor_forks cid nodes)" "entry_hash a \<in> set (competing_entry_hashes f)"
proof -
  let ?xs = "sort_key predecessor_key (filter (\<lambda>n. previous_entry_hash n \<noteq> None) nodes)"
  have "a \<in> set ?xs" using assms by (auto simp: collide_at_predecessor_def)
  then obtain g where g: "g \<in> set (chunk_by (\<lambda>x y. previous_entry_hash x = previous_entry_hash y) ?xs)"
      "a \<in> set g" "previous_entry_hash (hd g) = previous_entry_hash a"
    by (rule group_of)
  have "b \<in> set g"
    unfolding predecessor_group(2) [OF g(1)] using assms(2,3) g(3)
    by (auto simp: collide_at_predecessor_def simp del: not_None_eq)
  with g(2) assms(3) obtain f where f: "f \<in> set (group_forks cid PredecessorCollision g)"
      "entry_hash a \<in> set (competing_entry_hashes f)"
    by (auto simp: collide_at_predecessor_def elim: group_forks_cover)
  with g(1) show ?thesis by (intro that [of f]) (auto simp: predecessor_forks_def Let_def)
qed

lemma collect_forks_set:
  "set (collect_forks cid nodes groups) = set (sequence_forks cid groups) \<union>
     {f \<in> set (predecessor_forks cid nodes).
        competing_entry_hashes f \<notin> competing_entry_hashes ` set (sequence_forks cid groups)}"
  using binary_search_iff [of id "sort (map competing_entry_hashes (sequence_forks cid groups))"]
  by (auto simp: collect_forks_def Let_def)

lemma collect_forks_sound:
  assumes "f \<in> set (collect_forks cid (sorted_nodes nodes) (sequence_groups (sorted_nodes nodes)))"
  shows "\<exists>a \<in> set nodes. \<exists>b \<in> set nodes. fork_between cid a b f"
  using assms sequence_forks_sound [of f cid nodes] predecessor_forks_sound [of f cid "sorted_nodes nodes"]
  unfolding collect_forks_set set_sorted_nodes by blast

lemma collect_forks_complete:
  assumes "a \<in> set nodes" and "b \<in> set nodes" and "collide_at_sequence a b \<or> collide_at_predecessor a b"
  shows "\<exists>f \<in> set (collect_forks cid (sorted_nodes nodes) (sequence_groups (sorted_nodes nodes))).
    entry_hash a \<in> set (competing_entry_hashes f) \<and> (collide_at_sequence a b \<longrightarrow> fork_sequence f = chain_sequence a)"
proof (cases "collide_at_sequence a b")
  case True
  then obtain f where "f \<in> set (sequence_forks cid (sequence_groups (sorted_nodes nodes)))"
    "entry_hash a \<in> set (competing_entry_hashes f)" "fork_sequence f = chain_sequence a"
    using sequence_forks_complete [OF assms(1,2)] by blast
  then show ?thesis unfolding collect_forks_set by blast
next
  case False
  let ?G = "sequence_groups (sorted_nodes nodes)"
  have ab: "a \<in> set (sorted_nodes nodes)" "b \<in> set (sorted_nodes nodes)" "collide_at_predecessor a b"
    using assms False by auto
  obtain f where f: "f \<in> set (predecessor_forks cid (sorted_nodes nodes))"
      "entry_hash a \<in> set (competing_entry_hashes f)"
    using ab by (rule predecessor_forks_complete)
  show ?thesis
  proof (cases "competing_entry_hashes f \<in> competing_entry_hashes ` set (sequence_forks cid ?G)")
    case True
    then obtain f' where "f' \<in> set (sequence_forks cid ?G)" "competing_entry_hashes f' = competing_entry_hashes f"
      by auto
    then show ?thesis
      unfolding collect_forks_set using f(2) False by (intro bexI [of _ f']) simp_all
  next
    case not_seen: False
    then show ?thesis unfolding collect_forks_set using f False by blast
  qed
qed

section \<open>The verified prefix\<close>

definition below_stop :: "u64 option \<Rightarrow> u64 \<Rightarrow> bool" where
  "below_stop stop s \<longleftrightarrow> (case stop of None \<Rightarrow> True | Some st \<Rightarrow> s < st)"

lemma below_stop_mono: "below_stop stop s \<Longrightarrow> t \<le> s \<Longrightarrow> below_stop stop t"
  by (auto simp: below_stop_def split: option.splits)

lemma foldl_min: "foldl min (y::'a::linorder) ys = Min (insert y (set ys))"
proof (induction ys arbitrary: y)
  case (Cons a ys)
  then show ?case by (cases "ys = []") (simp_all add: min.assoc)
qed simp

lemma min_option_eq: "min_option xs = (if xs = [] then None else Some (Min (set xs)))"
  by (auto simp: min_option_def foldl_min split: list.splits)

lemma below_first_disputed:
  "below_stop (first_disputed_sequence forks breaks) s \<longleftrightarrow>
     (\<forall>f \<in> set forks. s < fork_sequence f) \<and> (\<forall>b \<in> set breaks. s < break_sequence b)"
  by (auto simp: below_stop_def first_disputed_sequence_def min_option_eq)

text \<open>
  What a walk from the head \<open>p\<close> over the groups \<open>gs\<close> to the head \<open>q\<close> means: \<open>q\<close> is undisputed, every group
  up to \<open>q\<close> follows another one directly, and the group after \<open>q\<close>, if there is one, is disputed or not bound
  to \<open>q\<close>.
\<close>

definition walked :: "chain_head \<Rightarrow> chain_node list list \<Rightarrow> u64 option \<Rightarrow> chain_head \<Rightarrow> bool" where
  "walked p gs stop q \<longleftrightarrow> (q = p \<or> q \<in> (head_of \<circ> hd) ` set gs) \<and> head_sequence p \<le> head_sequence q
    \<and> below_stop stop (head_sequence q)
    \<and> (\<forall>g \<in> set gs. chain_sequence (hd g) \<le> head_sequence q \<longrightarrow>
         checked_succ (head_sequence p) = Some (chain_sequence (hd g))
         \<or> (\<exists>g' \<in> set gs. checked_succ (chain_sequence (hd g')) = Some (chain_sequence (hd g))))
    \<and> (\<forall>g \<in> set gs. checked_succ (head_sequence q) = Some (chain_sequence (hd g)) \<longrightarrow>
         \<not> below_stop stop (chain_sequence (hd g)) \<or> previous_entry_hash (hd g) \<noteq> Some (head_entry_hash q))"

lemma walked_step:
  assumes "walked (head_of (hd g)) gs stop q" and "checked_succ (head_sequence p) = Some (chain_sequence (hd g))"
  shows "walked p (g # gs) stop q"
proof -
  from assms(1) have le: "chain_sequence (hd g) \<le> head_sequence q" by (simp add: walked_def head_of_def)
  then have "checked_succ (head_sequence q) \<noteq> Some (chain_sequence (hd g))"
    by (auto simp: checked_succ_Some word_le_nat_alt)
  moreover have "head_sequence p \<le> head_sequence q"
    using le assms(2) by (simp add: checked_succ_Some word_le_nat_alt)
  ultimately show ?thesis using assms by (auto simp: walked_def head_of_def)
qed

lemma walked_end:
  assumes srt: "sorted_wrt (<) (map (\<lambda>g. chain_sequence (hd g)) (g # gs))"
    and above: "\<And>g'. g' \<in> set (g # gs) \<Longrightarrow> head_sequence p < chain_sequence (hd g')"
    and below: "below_stop stop (head_sequence p)"
    and ends: "\<not> (below_stop stop (chain_sequence (hd g)) \<and> checked_succ (head_sequence p) = Some (chain_sequence (hd g))
      \<and> previous_entry_hash (hd g) = Some (head_entry_hash p))"
  shows "walked p (g # gs) stop p"
proof -
  have "\<not> below_stop stop (chain_sequence (hd g')) \<or> previous_entry_hash (hd g') \<noteq> Some (head_entry_hash p)"
    if g': "g' \<in> set (g # gs)" "checked_succ (head_sequence p) = Some (chain_sequence (hd g'))" for g'
  proof -
    have "chain_sequence (hd g) \<le> chain_sequence (hd g')" using g'(1) srt by auto
    moreover have "chain_sequence (hd g') \<le> chain_sequence (hd g)"
      using g'(2) above [of g] by (simp add: checked_succ_Some word_le_nat_alt word_less_nat_alt)
    ultimately have "g' = g" using g'(1) srt by auto
    with ends g'(2) show ?thesis by auto
  qed
  moreover have "\<not> chain_sequence (hd g') \<le> head_sequence p" if "g' \<in> set (g # gs)" for g'
    using above [OF that] by simp
  ultimately show ?thesis unfolding walked_def using below by blast
qed

lemma walk_from_Some:
  assumes "sorted_wrt (<) (map (\<lambda>g. chain_sequence (hd g)) gs)"
    and "\<forall>g \<in> set gs. head_sequence p < chain_sequence (hd g)" and "below_stop stop (head_sequence p)"
  shows "\<exists>q. walk_from (Some p) gs stop = Some q \<and> walked p gs stop q"
  using assms
proof (induction gs arbitrary: p)
  case Nil
  then show ?case by (simp add: walked_def)
next
  case (Cons g gs)
  let ?go = "below_stop stop (chain_sequence (hd g)) \<and> checked_succ (head_sequence p) = Some (chain_sequence (hd g))
      \<and> previous_entry_hash (hd g) = Some (head_entry_hash p)"
  have walk: "walk_from (Some p) (g # gs) stop = (if ?go then walk_from (Some (head_of (hd g))) gs stop else Some p)"
    by (auto simp: below_stop_def Let_def split: option.splits)
  show ?case
  proof (cases ?go)
    case True
    have "\<exists>q. walk_from (Some (head_of (hd g))) gs stop = Some q \<and> walked (head_of (hd g)) gs stop q"
      using Cons.prems True by (intro Cons.IH) (auto simp: head_of_def)
    with True walk walked_step [of g gs stop _ p] show ?thesis by auto
  next
    case False
    with walk walked_end [OF Cons.prems(1) _ Cons.prems(3) False] Cons.prems(2) show ?thesis by auto
  qed
qed

lemma walk_verified_prefix_eq:
  assumes "sorted_wrt (<) (map (\<lambda>g. chain_sequence (hd g)) (g # gs))"
  shows "walk_verified_prefix (g # gs) stop = None \<and> \<not> below_stop stop (chain_sequence (hd g))
    \<or> (\<exists>q. walk_verified_prefix (g # gs) stop = Some q \<and> walked (head_of (hd g)) gs stop q)"
proof (cases "below_stop stop (chain_sequence (hd g))")
  case True
  have "\<exists>q. walk_from (Some (head_of (hd g))) gs stop = Some q \<and> walked (head_of (hd g)) gs stop q"
    using assms True by (intro walk_from_Some) (auto simp: head_of_def)
  moreover have "walk_verified_prefix (g # gs) stop = walk_from (Some (head_of (hd g))) gs stop"
    using True by (auto simp: walk_verified_prefix_def below_stop_def Let_def split: option.splits)
  ultimately show ?thesis by simp
next
  case False
  then show ?thesis by (auto simp: walk_verified_prefix_def below_stop_def Let_def split: option.splits)
qed

section \<open>What the analysis shows of the nodes\<close>

lemma foldE_check: "foldE (\<lambda>n _. check n) ns () = Inr () \<longleftrightarrow> (\<forall>n \<in> set ns. check n = Inr ())"
  by (induction ns) (auto simp: result_simps)

definition node_ok :: "id16 \<Rightarrow> chain_node \<Rightarrow> bool" where
  "node_ok cid n \<longleftrightarrow> node_chain_id n = cid \<and> (chain_sequence n = 0 \<longleftrightarrow> previous_entry_hash n = None)"

lemma check_node_Inr: "check_node cid n = Inr () \<longleftrightarrow> node_ok cid n"
  by (auto simp: check_node_def node_ok_def result_simps)

lemma build_chain_Inr:
  "build_chain cid nodes = Inr c \<longleftrightarrow> length nodes \<le> MAX_CHAIN_NODES_V1 \<and> (\<forall>n \<in> set nodes. node_ok cid n)
     \<and> vc_chain_id c = cid \<and> vc_nodes c = sorted_nodes nodes
     \<and> vc_breaks c = collect_breaks (sequence_groups (sorted_nodes nodes))
     \<and> vc_forks c = collect_forks cid (sorted_nodes nodes) (sequence_groups (sorted_nodes nodes))
     \<and> vc_gaps c = collect_gaps cid (sorted_nodes nodes)
     \<and> vc_head c = (if nodes = [] then None else Some (head_of (last (sorted_nodes nodes))))
     \<and> verified_head c = walk_verified_prefix (sequence_groups (sorted_nodes nodes))
          (first_disputed_sequence (vc_forks c) (vc_breaks c))"
  by (cases c) (auto simp: build_chain_def Let_def result_simps foldE_check check_node_Inr)

text \<open>
  The nodes form one line between two sequences: every sequence is occupied, by a single entry, and
  every node after the first is bound to the entry before it.
\<close>

definition linear_between :: "chain_node set \<Rightarrow> u64 \<Rightarrow> u64 \<Rightarrow> bool" where
  "linear_between N lo hi \<longleftrightarrow>
     (\<forall>s. lo \<le> s \<and> s \<le> hi \<longrightarrow> (\<exists>n \<in> N. chain_sequence n = s))
     \<and> (\<forall>a \<in> N. \<forall>b \<in> N. chain_sequence a = chain_sequence b \<and> chain_sequence a \<le> hi \<longrightarrow> entry_hash a = entry_hash b)
     \<and> (\<forall>n \<in> N. lo < chain_sequence n \<and> chain_sequence n \<le> hi \<longrightarrow>
          (\<exists>m \<in> N. checked_succ (chain_sequence m) = Some (chain_sequence n)
             \<and> previous_entry_hash n = Some (entry_hash m)))"

definition undisputed :: "verified_chain \<Rightarrow> u64 \<Rightarrow> bool" where
  "undisputed c s \<longleftrightarrow> (\<forall>f \<in> set (vc_forks c). s < fork_sequence f) \<and> (\<forall>b \<in> set (vc_breaks c). s < break_sequence b)"

lemma undisputed_mono: "undisputed c s \<Longrightarrow> t \<le> s \<Longrightarrow> undisputed c t"
  unfolding undisputed_def by (meson order_le_less_trans)

lemma undisputed_unique:
  assumes "build_chain cid nodes = Inr c" and "undisputed c (chain_sequence a)"
    and "a \<in> set nodes" and "b \<in> set nodes" and "chain_sequence a = chain_sequence b"
  shows "entry_hash a = entry_hash b"
proof (rule ccontr)
  assume "entry_hash a \<noteq> entry_hash b"
  with assms(5) have "collide_at_sequence a b" by (simp add: collide_at_sequence_def)
  with collect_forks_complete [OF assms(3,4), of cid] assms(1,2) show False
    by (fastforce simp: build_chain_Inr undisputed_def)
qed

lemma undisputed_bound:
  assumes c: "build_chain cid nodes = Inr c" and "undisputed c (chain_sequence n)" and n: "n \<in> set nodes"
    and m: "m \<in> set nodes" "checked_succ (chain_sequence m) = Some (chain_sequence n)"
  shows "\<exists>m \<in> set nodes. checked_succ (chain_sequence m) = Some (chain_sequence n)
           \<and> previous_entry_hash n = Some (entry_hash m)"
proof -
  have "\<not> unbound (set nodes) n"
  proof
    assume u: "unbound (set nodes) n"
    obtain k where k: "least_entry_at (set nodes) k" "chain_sequence k = chain_sequence m"
      using ex_least_entry [OF m(1)] by auto
    with u n m(2) collect_breaks_complete [of nodes k n] c assms(2)
    show False by (auto simp: break_between_def build_chain_Inr undisputed_def)
  qed
  moreover have "previous_entry_hash n \<noteq> None"
    using c n m(2) by (auto simp: build_chain_Inr node_ok_def checked_succ_Some)
  ultimately show ?thesis using m unfolding unbound_def by auto
qed

text \<open>Closed downwards by one step means closed downwards.\<close>

lemma descend:
  fixes S :: "u64 set"
  assumes "hi \<in> S" and "lo \<le> s" and "s \<le> hi"
    and step: "\<And>t. t \<in> S \<Longrightarrow> lo < t \<Longrightarrow> t \<le> hi \<Longrightarrow> \<exists>u \<in> S. checked_succ u = Some t"
  shows "s \<in> S"
  using assms(1-3) step
proof (induction "unat hi - unat s" arbitrary: hi)
  case 0
  then have "s = hi" by (simp add: word_le_nat_alt word_unat_eq_iff)
  with 0 show ?case by simp
next
  case (Suc k)
  then have lt: "s < hi" by (simp add: word_less_nat_alt)
  then obtain u where u: "u \<in> S" "checked_succ u = Some hi"
    using Suc.prems(1,4) Suc.prems(2) by (meson order_refl order_le_less_trans)
  then have nat: "unat hi = Suc (unat u)" by (simp add: checked_succ_Some)
  show ?case
  proof (rule Suc.hyps(1))
    show "k = unat u - unat s" using Suc.hyps(2) nat by simp
    show "s \<le> u" using lt nat by (simp add: word_le_nat_alt word_less_nat_alt)
    show "\<exists>v \<in> S. checked_succ v = Some t" if "t \<in> S" "lo < t" "t \<le> u" for t
      using that nat by (intro Suc.prems(4)) (simp_all add: word_le_nat_alt)
  qed (use u Suc.prems in auto)
qed

text \<open>The groups of a chain that is not empty, and its lowest sequence.\<close>

lemma groups_Cons:
  assumes "nodes \<noteq> []"
  obtains g gs where "sequence_groups (sorted_nodes nodes) = g # gs"
    "\<forall>n \<in> set nodes. chain_sequence (hd g) \<le> chain_sequence n"
proof -
  obtain g gs where G: "sequence_groups (sorted_nodes nodes) = g # gs"
    using assms in_groupsI [of "hd nodes" nodes] by (cases "sequence_groups (sorted_nodes nodes)") auto
  have "chain_sequence (hd g) \<le> chain_sequence n" if n: "n \<in> set nodes" for n
  proof -
    obtain h where "h \<in> set (g # gs)" "chain_sequence (hd h) = chain_sequence n"
      using in_groupsI [OF n] unfolding G by metis
    with groups_increase [of nodes] show ?thesis unfolding G by auto
  qed
  with G show ?thesis by (intro that) auto
qed

lemma stop_undisputed:
  "build_chain cid nodes = Inr c \<Longrightarrow>
   below_stop (first_disputed_sequence (vc_forks c) (vc_breaks c)) s \<longleftrightarrow> undisputed c s"
  by (simp add: below_first_disputed undisputed_def)

lemma walked_nodes:
  assumes c: "build_chain cid nodes = Inr c" and G: "sequence_groups (sorted_nodes nodes) = g # gs"
    and lo: "\<forall>n \<in> set nodes. chain_sequence (hd g) \<le> chain_sequence n"
    and w: "walked (head_of (hd g)) gs (first_disputed_sequence (vc_forks c) (vc_breaks c)) q"
  shows "(\<exists>n \<in> set nodes. q = head_of n) \<and> undisputed c (head_sequence q)
    \<and> linear_between (set nodes) (chain_sequence (hd g)) (head_sequence q)"
proof -
  have hds: "hd h \<in> set nodes" if "h \<in> set (g # gs)" for h
    using that groups_hd [of h nodes] by (simp add: G)
  have q: "\<exists>n \<in> set nodes. q = head_of n"
    using w hds unfolding walked_def by auto
  have und: "undisputed c (head_sequence q)"
    using w unfolding walked_def stop_undisputed [OF c] by blast
  have pred: "\<exists>m \<in> set nodes. checked_succ (chain_sequence m) = Some (chain_sequence n)"
    if n: "n \<in> set nodes" "chain_sequence (hd g) < chain_sequence n" "chain_sequence n \<le> head_sequence q" for n
  proof -
    obtain h where "h \<in> set (g # gs)" "chain_sequence (hd h) = chain_sequence n"
      using in_groupsI [OF n(1)] unfolding G by metis
    with n(2) have h: "h \<in> set gs" "chain_sequence (hd h) = chain_sequence n" by auto
    with w n(3) have "checked_succ (chain_sequence (hd g)) = Some (chain_sequence n)
        \<or> (\<exists>g' \<in> set gs. checked_succ (chain_sequence (hd g')) = Some (chain_sequence n))"
      unfolding walked_def by (auto simp: head_of_def)
    with hds show ?thesis by auto
  qed
  have "s \<in> chain_sequence ` set nodes" if "chain_sequence (hd g) \<le> s" "s \<le> head_sequence q" for s
    by (rule descend [OF _ that]) (use q pred in \<open>auto simp: head_of_def\<close>)
  moreover have "entry_hash a = entry_hash b"
    if "a \<in> set nodes" "b \<in> set nodes" "chain_sequence a = chain_sequence b" "chain_sequence a \<le> head_sequence q" for a b
    using undisputed_unique [OF c undisputed_mono [OF und that(4)] that(1,2,3)] .
  moreover have "\<exists>m \<in> set nodes. checked_succ (chain_sequence m) = Some (chain_sequence n)
      \<and> previous_entry_hash n = Some (entry_hash m)"
    if n: "n \<in> set nodes" "chain_sequence (hd g) < chain_sequence n" "chain_sequence n \<le> head_sequence q" for n
    using pred [OF n] undisputed_bound [OF c undisputed_mono [OF und n(3)] n(1)] by blast
  ultimately show ?thesis using q und unfolding linear_between_def by blast
qed

lemma walked_maximal:
  assumes c: "build_chain cid nodes = Inr c" and G: "sequence_groups (sorted_nodes nodes) = g # gs"
    and lo: "\<forall>n \<in> set nodes. chain_sequence (hd g) \<le> chain_sequence n"
    and w: "walked (head_of (hd g)) gs (first_disputed_sequence (vc_forks c) (vc_breaks c)) q"
    and n: "n \<in> set nodes" "checked_succ (head_sequence q) = Some (chain_sequence n)"
  shows "\<not> undisputed c (chain_sequence n)"
proof
  assume und: "undisputed c (chain_sequence n)"
  obtain p where p: "p \<in> set nodes" "q = head_of p"
    using walked_nodes [OF c G lo w] by blast
  have gt: "chain_sequence (hd g) < chain_sequence n"
    using w n(2) by (simp add: walked_def head_of_def checked_succ_Some word_le_nat_alt word_less_nat_alt)
  obtain h where h: "h \<in> set (g # gs)" "n \<in> set h" "chain_sequence (hd h) = chain_sequence n"
    using in_groupsI [OF n(1)] unfolding G by metis
  with gt have h': "h \<in> set gs" "hd h \<in> set nodes" using groups_hd [of h nodes] by (auto simp: G)
  have suc: "checked_succ (chain_sequence p) = Some (chain_sequence (hd h))"
    using n(2) p(2) h(3) by (simp add: head_of_def)
  obtain m where m: "m \<in> set nodes" "checked_succ (chain_sequence m) = Some (chain_sequence (hd h))"
      "previous_entry_hash (hd h) = Some (entry_hash m)"
    using undisputed_bound [OF c _ h'(2) p(1) suc] und h(3) by auto
  have "entry_hash m = entry_hash p"
  proof (rule undisputed_unique [OF c _ m(1) p(1)])
    show "chain_sequence m = chain_sequence p" using m(2) suc by (rule checked_succ_inject)
    then show "undisputed c (chain_sequence m)"
      using suc h(3) by (intro undisputed_mono [OF und]) (simp add: checked_succ_Some word_le_nat_alt)
  qed
  with w h' h(3) m(3) n(2) p(2) und show False
    unfolding walked_def stop_undisputed [OF c] by (auto simp: head_of_def)
qed

lemma verified_head_cases:
  assumes c: "build_chain cid nodes = Inr c"
  shows "case verified_head c of
      None \<Rightarrow> \<forall>n \<in> set nodes. \<not> undisputed c (chain_sequence n)
    | Some h \<Rightarrow> (\<exists>n \<in> set nodes. h = head_of n) \<and> undisputed c (head_sequence h)
        \<and> (\<exists>lo. (\<forall>n \<in> set nodes. lo \<le> chain_sequence n) \<and> linear_between (set nodes) lo (head_sequence h))
        \<and> (\<forall>n \<in> set nodes. checked_succ (head_sequence h) = Some (chain_sequence n) \<longrightarrow>
             \<not> undisputed c (chain_sequence n))"
proof (cases "nodes = []")
  case True
  with c show ?thesis
    by (simp add: build_chain_Inr sorted_nodes_def sequence_groups_def walk_verified_prefix_def)
next
  case False
  then obtain g gs where G: "sequence_groups (sorted_nodes nodes) = g # gs"
    and lo: "\<forall>n \<in> set nodes. chain_sequence (hd g) \<le> chain_sequence n" by (rule groups_Cons)
  have inc: "sorted_wrt (<) (map (\<lambda>g. chain_sequence (hd g)) (g # gs))"
    using groups_increase [of nodes] unfolding G .
  have vh: "verified_head c = walk_verified_prefix (g # gs) (first_disputed_sequence (vc_forks c) (vc_breaks c))"
    using c unfolding build_chain_Inr G by simp
  from walk_verified_prefix_eq [OF inc, of "first_disputed_sequence (vc_forks c) (vc_breaks c)"] consider
      (none) "verified_head c = None" "\<not> undisputed c (chain_sequence (hd g))"
    | (some) q where "verified_head c = Some q"
        "walked (head_of (hd g)) gs (first_disputed_sequence (vc_forks c) (vc_breaks c)) q"
    unfolding vh stop_undisputed [OF c, symmetric] by auto
  then show ?thesis
  proof cases
    case none
    with lo undisputed_mono show ?thesis by auto
  next
    case some
    from walked_nodes [OF c G lo some(2)] walked_maximal [OF c G lo some(2)] lo some(1) show ?thesis by auto
  qed
qed

text \<open>
  C13. The verified head ends a line of nodes from the lowest sequence on: every sequence up to it is
  occupied by a single entry that is bound to the entry before it, and no fork or break touches it. It is the
  longest such line: a node at the next sequence is at or after a reported fork or break. There is no
  verified head exactly when no node is undisputed.
\<close>

theorem verified_head_prefix:
  assumes "build_chain cid nodes = Inr c"
  shows "case verified_head c of
      None \<Rightarrow> \<forall>n \<in> set nodes. \<not> undisputed c (chain_sequence n)
    | Some h \<Rightarrow> (\<exists>n \<in> set nodes. h = head_of n) \<and> undisputed c (head_sequence h)
        \<and> (\<exists>lo. (\<forall>n \<in> set nodes. lo \<le> chain_sequence n) \<and> linear_between (set nodes) lo (head_sequence h))
        \<and> (\<forall>n \<in> set nodes. checked_succ (head_sequence h) = Some (chain_sequence n) \<longrightarrow>
             \<not> undisputed c (chain_sequence n))"
  using assms by (rule verified_head_cases)

lemma gaps_cover:
  assumes "build_chain cid nodes = Inr c"
  shows "(\<exists>g \<in> set (vc_gaps c). gap_covers g x) \<longleftrightarrow>
     x \<notin> chain_sequence ` set nodes \<and> (\<exists>n \<in> set nodes. x < chain_sequence n)"
  using assms gaps_from_cover [OF sorted_nodes_sequence, of nodes 0 cid x]
  by (simp add: build_chain_Inr collect_gaps_def)

lemma gaps_separated:
  assumes "build_chain cid nodes = Inr c"
  shows "sorted_wrt (\<lambda>g h. Suc (unat (through_sequence g)) < unat (from_sequence h)) (vc_gaps c)
    \<and> (\<forall>g \<in> set (vc_gaps c). from_sequence g \<le> through_sequence g \<and> gap_chain_id g = cid)"
  using assms gaps_from_separated [OF sorted_nodes_sequence, of nodes 0 cid]
  by (simp add: build_chain_Inr collect_gaps_def)

text \<open>
  C23. The gaps are exactly the missing sequences: a sequence lies in a gap if and only if no node
  occupies it and some node has a higher one. They are maximal intervals, listed in ascending order
  with at least one occupied sequence between any two.
\<close>

theorem gaps_exact:
  assumes "build_chain cid nodes = Inr c"
  shows "((\<exists>g \<in> set (vc_gaps c). gap_covers g x) \<longleftrightarrow>
       x \<notin> chain_sequence ` set nodes \<and> (\<exists>n \<in> set nodes. x < chain_sequence n))
    \<and> sorted_wrt (\<lambda>g h. Suc (unat (through_sequence g)) < unat (from_sequence h)) (vc_gaps c)
    \<and> (\<forall>g \<in> set (vc_gaps c). from_sequence g \<le> through_sequence g \<and> gap_chain_id g = cid)"
  using gaps_cover [OF assms] gaps_separated [OF assms] by blast


section \<open>Full verification\<close>

definition linear_chain :: "chain_node set \<Rightarrow> bool" where
  "linear_chain N \<longleftrightarrow> (\<forall>n \<in> N. linear_between N 0 (chain_sequence n))
     \<and> (\<forall>a \<in> N. \<forall>b \<in> N. \<not> collide_at_predecessor a b)"

lemma no_gaps_iff:
  assumes "build_chain cid nodes = Inr c"
  shows "vc_gaps c = [] \<longleftrightarrow> (\<forall>n \<in> set nodes. \<forall>x. x < chain_sequence n \<longrightarrow> x \<in> chain_sequence ` set nodes)"
proof
  assume "vc_gaps c = []"
  with gaps_cover [OF assms] show "\<forall>n \<in> set nodes. \<forall>x. x < chain_sequence n \<longrightarrow> x \<in> chain_sequence ` set nodes"
    by auto
next
  assume all: "\<forall>n \<in> set nodes. \<forall>x. x < chain_sequence n \<longrightarrow> x \<in> chain_sequence ` set nodes"
  show "vc_gaps c = []"
  proof (rule ccontr)
    assume "vc_gaps c \<noteq> []"
    then obtain g where g: "g \<in> set (vc_gaps c)" by (cases "vc_gaps c") auto
    with gaps_separated [OF assms] have "gap_covers g (from_sequence g)" by (simp add: gap_covers_def)
    with g gaps_cover [OF assms, of "from_sequence g"] all show False by blast
  qed
qed

lemma checked_succ_pred: "(0::u64) < s \<Longrightarrow> checked_succ (s - 1) = Some s \<and> s - 1 < s"
proof -
  assume s: "0 < s"
  then have "unat (s - 1) = unat s - 1" by (intro unat_minus_one) auto
  with s show ?thesis by (simp add: checked_succ_Some word_less_nat_alt)
qed

lemma fully_verified_linear:
  assumes c: "build_chain cid nodes = Inr c" and full: "is_fully_verified c"
  shows "linear_chain (set nodes)"
proof -
  have und: "undisputed c s" for s using full by (simp add: undisputed_def is_fully_verified_def)
  have closed: "x \<in> chain_sequence ` set nodes" if "n \<in> set nodes" "x \<le> chain_sequence n" for n x
    using full that no_gaps_iff [OF c] by (auto simp: is_fully_verified_def order_le_less)
  have bound: "\<exists>m \<in> set nodes. checked_succ (chain_sequence m) = Some (chain_sequence n)
      \<and> previous_entry_hash n = Some (entry_hash m)" if n: "n \<in> set nodes" "0 < chain_sequence n" for n
  proof -
    have "chain_sequence n - 1 \<in> chain_sequence ` set nodes"
      using closed [OF n(1)] checked_succ_pred [OF n(2)] by (simp add: order_less_imp_le)
    then obtain y where y: "y \<in> set nodes" "checked_succ (chain_sequence y) = Some (chain_sequence n)"
      using checked_succ_pred [OF n(2)] by auto
    show ?thesis by (rule undisputed_bound [OF c und n(1) y])
  qed
  have "linear_between (set nodes) 0 (chain_sequence k)" if "k \<in> set nodes" for k
    unfolding linear_between_def using closed [OF that] undisputed_unique [OF c und] bound by blast
  moreover have "\<not> collide_at_predecessor a b" if "a \<in> set nodes" "b \<in> set nodes" for a b
    using collect_forks_complete [OF that, of cid] c full by (auto simp: is_fully_verified_def build_chain_Inr)
  ultimately show ?thesis by (simp add: linear_chain_def)
qed

lemma linear_fully_verified:
  assumes c: "build_chain cid nodes = Inr c" and lin: "linear_chain (set nodes)"
  shows "is_fully_verified c"
proof -
  have line: "linear_between (set nodes) 0 (chain_sequence n)" if "n \<in> set nodes" for n
    using lin that by (simp add: linear_chain_def)
  have "vc_gaps c = []"
    unfolding no_gaps_iff [OF c] using line unfolding linear_between_def by (metis imageI order_less_imp_le word_zero_le)
  moreover have "vc_forks c = []"
  proof (rule ccontr)
    assume "vc_forks c \<noteq> []"
    then obtain f where "f \<in> set (vc_forks c)" by (cases "vc_forks c") auto
    then obtain a b where ab: "a \<in> set nodes" "b \<in> set nodes" "fork_between cid a b f"
      using collect_forks_sound c unfolding build_chain_Inr by metis
    then have "collide_at_sequence a b \<or> collide_at_predecessor a b"
      by (auto simp: fork_between_def split: chain_fork_form.splits)
    with ab lin line [OF ab(1)] show False
      unfolding linear_chain_def linear_between_def collide_at_sequence_def by blast
  qed
  moreover have "\<not> unbound (set nodes) n" if "n \<in> set nodes" for n
  proof
    assume u: "unbound (set nodes) n"
    then have "0 < chain_sequence n" by (auto simp: unbound_def checked_succ_Some word_less_nat_alt)
    with line [OF that] that obtain m where "m \<in> set nodes" "checked_succ (chain_sequence m) = Some (chain_sequence n)"
        "previous_entry_hash n = Some (entry_hash m)"
      unfolding linear_between_def by blast
    with u show False by (auto simp: unbound_def)
  qed
  then have "vc_breaks c = []" using c no_breaks_iff by (simp add: build_chain_Inr)
  ultimately show ?thesis by (simp add: is_fully_verified_def)
qed

lemma sorted_last: "sorted (map f xs) \<Longrightarrow> x \<in> set xs \<Longrightarrow> f x \<le> f (last xs)"
  by (induction xs) auto

lemma fully_verified_head:
  assumes c: "build_chain cid nodes = Inr c" and full: "is_fully_verified c"
  shows "verified_head c = vc_head c"
proof (cases "nodes = []")
  case True
  with c show ?thesis by (simp add: build_chain_Inr sorted_nodes_def sequence_groups_def walk_verified_prefix_def)
next
  case False
  let ?l = "last (sorted_nodes nodes)"
  have und: "undisputed c s" for s using full by (simp add: undisputed_def is_fully_verified_def)
  have l: "?l \<in> set nodes" using False last_in_set [of "sorted_nodes nodes"] by simp
  have max: "chain_sequence n \<le> chain_sequence ?l" if "n \<in> set nodes" for n
    using sorted_last [OF sorted_nodes_sequence, of n nodes] that by simp
  obtain h n where h: "verified_head c = Some h" "n \<in> set nodes" "h = head_of n"
    and top: "\<forall>n \<in> set nodes. checked_succ (head_sequence h) \<noteq> Some (chain_sequence n)"
    using verified_head_cases [OF c] und l by (auto split: option.splits)
  have "chain_sequence n = chain_sequence ?l"
  proof (rule ccontr)
    assume "chain_sequence n \<noteq> chain_sequence ?l"
    with max [OF h(2)] have lt: "chain_sequence n < chain_sequence ?l" by simp
    then obtain e where e: "checked_succ (chain_sequence n) = Some e" "e \<le> chain_sequence ?l"
      by (cases "checked_succ (chain_sequence n)")
        (auto dest!: checked_succ_None [of _ "chain_sequence ?l"] simp: checked_succ_Some word_le_nat_alt word_less_nat_alt)
    then have "e \<in> chain_sequence ` set nodes"
      using full no_gaps_iff [OF c] l by (auto simp: is_fully_verified_def order_le_less)
    with top h(3) e(1) show False by (auto simp: head_of_def)
  qed
  with undisputed_unique [OF c und h(2) l] c h(2,3) l have "h = head_of ?l"
    by (simp add: head_of_def build_chain_Inr node_ok_def)
  with h(1) c False show ?thesis by (simp add: build_chain_Inr)
qed

text \<open>
  C11. A chain is fully verified if and only if its nodes form one line from sequence 0 to the highest
  sequence in which no two different entries share a predecessor; and then the verified head is the head
  of the whole inventory.
\<close>

theorem fully_verified_iff_linear:
  assumes "build_chain cid nodes = Inr c"
  shows "(is_fully_verified c \<longleftrightarrow> linear_chain (set nodes))
    \<and> (is_fully_verified c \<longrightarrow> verified_head c = vc_head c)"
  using fully_verified_linear [OF assms] linear_fully_verified [OF assms] fully_verified_head [OF assms] by blast

section \<open>Errors and order of the input\<close>

lemma ex_split_Cons:
  "(\<exists>us m vs. n # ns = us @ m # vs \<and> P us m) \<longleftrightarrow> P [] n \<or> (\<exists>us m vs. ns = us @ m # vs \<and> P (n # us) m)"
  unfolding Cons_eq_append_conv by blast

lemma foldE_check_Inl:
  "foldE (\<lambda>n _. check n) ns () = Inl e \<longleftrightarrow>
     (\<exists>us n vs. ns = us @ n # vs \<and> (\<forall>u \<in> set us. check u = Inr ()) \<and> check n = Inl e)"
proof (induction ns)
  case (Cons n ns)
  then show ?case unfolding ex_split_Cons by (cases "check n") auto
qed simp

lemma check_node_Inl:
  "check_node cid n = Inl e \<longleftrightarrow>
     (if node_chain_id n \<noteq> cid then e = ForeignChainId else \<not> node_ok cid n \<and> e = GenesisBinding)"
  by (auto simp: check_node_def node_ok_def result_simps)

text \<open>
  C32. Building a chain fails in exactly three ways, in this order: the inventory is over the limit; or
  the first node that is not acceptable belongs to another chain; or that node breaks the genesis rule that
  sequence 0, and only it, has no predecessor. Forks, breaks and gaps are findings, not failures.
\<close>

theorem build_chain_errors:
  "build_chain cid nodes = Inl e \<longleftrightarrow>
     (if length nodes > MAX_CHAIN_NODES_V1 then e = NodeLimit
      else \<exists>us n vs. nodes = us @ n # vs \<and> (\<forall>u \<in> set us. node_ok cid u)
             \<and> (if node_chain_id n \<noteq> cid then e = ForeignChainId else \<not> node_ok cid n \<and> e = GenesisBinding))"
  by (auto simp: build_chain_def Let_def result_simps foldE_check_Inl check_node_Inl check_node_Inr)

lemma map_remdups_adj_inj: "inj_on f (set xs) \<Longrightarrow> map f (remdups_adj xs) = remdups_adj (map f xs)"
  by (induction xs rule: remdups_adj.induct) (auto simp: inj_on_def)

lemma sorted_nodes_unique:
  assumes "set xs = set ys" and inj: "inj_on node_key (set xs)"
  shows "sorted_nodes xs = sorted_nodes ys"
proof -
  have keys: "map node_key (sorted_nodes zs) = remdups_adj (map node_key (sort_key node_key zs))"
    if "inj_on node_key (set zs)" for zs
    unfolding sorted_nodes_def using that by (intro map_remdups_adj_inj) simp
  have strict: "sorted_wrt (<) (map node_key (sorted_nodes zs))" if "inj_on node_key (set zs)" for zs
    unfolding keys [OF that] by (intro strict_sorted_remdups_adj) simp
  have "map node_key (sorted_nodes xs) = map node_key (sorted_nodes ys)"
    by (rule strict_sorted_equal) (use strict assms in auto)
  with inj assms(1) show ?thesis by (intro map_inj_on [of node_key]) auto
qed

text \<open>
  C33. When no two different nodes agree in sequence, entry hash and object hash, the result depends on
  the set of nodes only: neither their order nor their multiplicity matters.
\<close>

theorem build_chain_order_independent:
  assumes "set xs = set ys" and "inj_on node_key (set xs)"
    and "length xs \<le> MAX_CHAIN_NODES_V1" and "length ys \<le> MAX_CHAIN_NODES_V1"
    and "build_chain cid xs = Inr c"
  shows "build_chain cid ys = Inr c"
proof -
  have "xs = [] \<longleftrightarrow> ys = []" using assms(1) by auto
  with assms sorted_nodes_unique [OF assms(1,2)] show ?thesis by (simp add: build_chain_Inr)
qed

section \<open>A small chain\<close>

definition genesis :: chain_node where
  "genesis = \<lparr>node_chain_id = [9], chain_sequence = 0, previous_entry_hash = None, entry_hash = [1],
     object_hash = [11], writer_certificate_hash = [], writer_transition_event_hash = None, node_kind = EntryPackage\<rparr>"

definition second :: chain_node where
  "second = \<lparr>node_chain_id = [9], chain_sequence = 1, previous_entry_hash = Some [1], entry_hash = [2],
     object_hash = [12], writer_certificate_hash = [], writer_transition_event_hash = None, node_kind = DestroyedStub\<rparr>"

lemma small_chain: "\<exists>c. build_chain [9] [second, genesis] = Inr c"
  by (simp add: build_chain_def check_node_def genesis_def second_def MAX_CHAIN_NODES_V1_def Let_def)

lemma small_linear: "linear_chain {second, genesis}"
proof -
  have suc: "checked_succ (0::u64) = Some 1" by (simp add: checked_succ_def checked_add_word_def)
  have le: "s \<le> 1 \<longleftrightarrow> s = 0 \<or> s = 1" for s :: u64
    by (auto simp: word_le_nat_alt word_unat_eq_iff le_Suc_eq)
  show ?thesis
    by (auto simp: linear_chain_def linear_between_def collide_at_predecessor_def genesis_def second_def suc le)
qed

theorem fully_verified_iff_linear_witness:
  "\<exists>c. build_chain [9] [second, genesis] = Inr c \<and> is_fully_verified c \<and> verified_head c = vc_head c"
  using small_chain small_linear fully_verified_iff_linear [of "[9]" "[second, genesis]"] by fastforce

theorem build_chain_errors_witness:
  "build_chain [9] [genesis, second\<lparr>previous_entry_hash := None\<rparr>] = Inl GenesisBinding"
  unfolding build_chain_errors
  by (simp add: MAX_CHAIN_NODES_V1_def,
      intro exI [of _ "[genesis]"] exI [of _ "second\<lparr>previous_entry_hash := None\<rparr>"])
    (simp add: node_ok_def genesis_def second_def)

theorem verified_head_prefix_witness:
  "\<exists>c h. build_chain [9] [second, genesis] = Inr c \<and> verified_head c = Some h
     \<and> (\<exists>lo. linear_between {second, genesis} lo (head_sequence h))"
proof -
  obtain c where c: "build_chain [9] [second, genesis] = Inr c" using small_chain by blast
  have "is_fully_verified c" using c small_linear linear_fully_verified [OF c] by simp
  then have "undisputed c s" for s by (simp add: undisputed_def is_fully_verified_def)
  with c verified_head_prefix [OF c] show ?thesis by (cases "verified_head c") auto
qed

theorem gaps_exact_witness:
  "\<exists>c. build_chain [9] [second] = Inr c \<and> (\<exists>g \<in> set (vc_gaps c). gap_covers g 0)"
proof -
  obtain c where c: "build_chain [9] [second] = Inr c"
    by (simp add: build_chain_def check_node_def second_def MAX_CHAIN_NODES_V1_def Let_def)
  with gaps_exact [OF c, of 0] show ?thesis by (auto simp: second_def)
qed


theorem build_chain_order_independent_witness:
  "\<exists>c. build_chain [9] [second, genesis] = Inr c \<and> build_chain [9] [genesis, second, genesis] = Inr c"
proof -
  obtain c where c: "build_chain [9] [second, genesis] = Inr c" using small_chain by blast
  have "build_chain [9] [genesis, second, genesis] = Inr c"
    by (rule build_chain_order_independent [OF _ _ _ _ c])
      (auto simp: MAX_CHAIN_NODES_V1_def node_key_def genesis_def second_def)
  with c show ?thesis by blast
qed

end
