(* ===== verification/EaRollback.thy ===== *)
theory EaRollback
  imports EaChain
begin

text \<open>
  Rollback assessment (\<^verbatim>\<open>crates/ea-chain/src/rollback.rs\<close>): a chain is compared with what authenticated
  checkpoints say of an earlier head.
\<close>

section \<open>Model\<close>

record checkpoint_claim =
  claim_chain_id :: id16
  covered_from_sequence :: u64
  covered_through_sequence :: u64
  claim_head_entry_hash :: hash32
  checkpoint_object_hash :: hash32

text \<open>
  \<open>TruncatedBelowCheckpoint\<close> carries the covered sequence, the verified head sequence and the checkpoint;
  \<open>HeadEntryHashMismatch\<close> the sequence, the claimed and the found entry hash, the checkpoint and the
  conflicting object.
\<close>

datatype rollback_finding =
    TruncatedBelowCheckpoint u64 "u64 option" hash32
  | HeadEntryHashMismatch u64 hash32 hash32 hash32 hash32

fun proven_missing_sequences :: "rollback_finding \<Rightarrow> (u64 \<times> u64) option" where
  "proven_missing_sequences (TruncatedBelowCheckpoint through verified _) =
     (case (case verified of Some v \<Rightarrow> checked_succ v | None \<Rightarrow> Some 0) of
        None \<Rightarrow> None
      | Some from \<Rightarrow> if from > through then None else Some (from, through))"
| "proven_missing_sequences (HeadEntryHashMismatch _ _ _ _ _) = None"

fun finding_sort_key :: "rollback_finding \<Rightarrow> u64 \<times> hash32" where
  "finding_sort_key (TruncatedBelowCheckpoint through _ h) = (through, h)"
| "finding_sort_key (HeadEntryHashMismatch s _ _ h _) = (s, h)"

datatype rollback_assessment = NotAssessable | Consistent | RollbackFound "rollback_finding list"

definition verified_node_at :: "verified_chain \<Rightarrow> u64 \<Rightarrow> chain_node option" where
  "verified_node_at c s =
     (let index = partition_point (\<lambda>n. chain_sequence n < s) (vc_nodes c)
      in if index < length (vc_nodes c) \<and> chain_sequence (vc_nodes c ! index) = s
         then Some (vc_nodes c ! index) else None)"

definition claim_key :: "checkpoint_claim \<Rightarrow> u64 \<times> hash32 \<times> hash32 \<times> u64" where
  "claim_key k = (covered_through_sequence k, checkpoint_object_hash k, claim_head_entry_hash k,
     covered_from_sequence k)"

definition relevant_claims :: "verified_chain \<Rightarrow> checkpoint_claim list \<Rightarrow> checkpoint_claim list" where
  "relevant_claims c claims =
     remdups_adj (sort_key claim_key (filter (\<lambda>k. claim_chain_id k = vc_chain_id c) claims))"

definition assess_claim :: "verified_chain \<Rightarrow> checkpoint_claim \<Rightarrow> rollback_finding list" where
  "assess_claim c k =
     (let verified = map_option head_sequence (verified_head c);
          truncated = TruncatedBelowCheckpoint (covered_through_sequence k) verified (checkpoint_object_hash k)
      in if (case verified of None \<Rightarrow> True | Some v \<Rightarrow> v < covered_through_sequence k) then [truncated]
         else case verified_node_at c (covered_through_sequence k) of
           None \<Rightarrow> [truncated]
         | Some n \<Rightarrow>
             if entry_hash n \<noteq> claim_head_entry_hash k
             then [HeadEntryHashMismatch (covered_through_sequence k) (claim_head_entry_hash k) (entry_hash n)
                     (checkpoint_object_hash k) (object_hash n)]
             else [])"

definition assess_rollback :: "verified_chain \<Rightarrow> checkpoint_claim list \<Rightarrow> rollback_assessment" where
  "assess_rollback c claims =
     (let relevant = relevant_claims c claims
      in if relevant = [] then NotAssessable
         else let findings = concat (map (assess_claim c) relevant)
              in if findings = [] then Consistent
                 else RollbackFound (sort_key finding_sort_key findings))"

section \<open>What the assessment says\<close>

lemma partition_point_sorted:
  assumes "sorted (map f xs)"
  shows "(\<exists>x \<in> set xs. f x = s) \<longleftrightarrow>
      partition_point (\<lambda>x. f x < s) xs < length xs \<and> f (xs ! partition_point (\<lambda>x. f x < s) xs) = s"
  using assms
proof (induction xs)
  case (Cons x xs)
  then show ?case by (auto simp: partition_point_def)
qed (simp add: partition_point_def)

lemma verified_node_at_Some:
  "verified_node_at c s = Some n \<Longrightarrow> n \<in> set (vc_nodes c) \<and> chain_sequence n = s"
  unfolding verified_node_at_def Let_def by (metis nth_mem option.distinct(1) option.inject)

lemma verified_node_at_None:
  "sorted (map chain_sequence (vc_nodes c)) \<Longrightarrow>
   verified_node_at c s = None \<longleftrightarrow> (\<forall>n \<in> set (vc_nodes c). chain_sequence n \<noteq> s)"
  using partition_point_sorted [of chain_sequence "vc_nodes c" s]
  by (auto simp: verified_node_at_def Let_def)

lemma verified_node_at_built:
  assumes "build_chain cid nodes = Inr c"
  shows "verified_node_at c s = None \<longleftrightarrow> s \<notin> chain_sequence ` set nodes"
proof -
  have ns: "vc_nodes c = sorted_nodes nodes" using assms by (simp add: build_chain_Inr)
  then have "sorted (map chain_sequence (vc_nodes c))" by (simp add: sorted_nodes_sequence)
  from verified_node_at_None [OF this] ns show ?thesis by auto
qed

lemma relevant_claims_set [simp]:
  "set (relevant_claims c claims) = {k \<in> set claims. claim_chain_id k = vc_chain_id c}"
  by (simp add: relevant_claims_def)

lemma relevant_claims_empty:
  "relevant_claims c claims = [] \<longleftrightarrow> (\<forall>k \<in> set claims. claim_chain_id k \<noteq> vc_chain_id c)"
  by (simp only: set_empty [symmetric] relevant_claims_set) blast

text \<open>
  A claim reaches into the verified part when some verified head is at or above it and its sequence is
  occupied; it is kept when, besides, every entry at its sequence is the claimed one.
\<close>

definition reaches :: "chain_node list \<Rightarrow> verified_chain \<Rightarrow> checkpoint_claim \<Rightarrow> bool" where
  "reaches nodes c k \<longleftrightarrow> (\<exists>h. verified_head c = Some h \<and> covered_through_sequence k \<le> head_sequence h)
     \<and> covered_through_sequence k \<in> chain_sequence ` set nodes"

definition keeps :: "chain_node list \<Rightarrow> verified_chain \<Rightarrow> checkpoint_claim \<Rightarrow> bool" where
  "keeps nodes c k \<longleftrightarrow> reaches nodes c k
     \<and> (\<forall>n \<in> set nodes. chain_sequence n = covered_through_sequence k \<longrightarrow> entry_hash n = claim_head_entry_hash k)"

definition truncation_of :: "verified_chain \<Rightarrow> checkpoint_claim \<Rightarrow> rollback_finding" where
  "truncation_of c k = TruncatedBelowCheckpoint (covered_through_sequence k)
     (map_option head_sequence (verified_head c)) (checkpoint_object_hash k)"

definition mismatch_of :: "checkpoint_claim \<Rightarrow> chain_node \<Rightarrow> rollback_finding" where
  "mismatch_of k n = HeadEntryHashMismatch (covered_through_sequence k) (claim_head_entry_hash k) (entry_hash n)
     (checkpoint_object_hash k) (object_hash n)"

lemma below_head_unique:
  assumes c: "build_chain cid nodes = Inr c" and h: "verified_head c = Some h"
    and a: "a \<in> set nodes" "chain_sequence a \<le> head_sequence h"
    and b: "b \<in> set nodes" "chain_sequence b = chain_sequence a"
  shows "entry_hash a = entry_hash b"
proof -
  from verified_head_cases [OF c] h have "undisputed c (head_sequence h)" by auto
  then have "undisputed c (chain_sequence a)" using a(2) by (rule undisputed_mono)
  from undisputed_unique [OF c this a(1) b(1)] b(2) show ?thesis by simp
qed

lemma assess_claim_truncated:
  assumes c: "build_chain cid nodes = Inr c" and "\<not> reaches nodes c k"
  shows "assess_claim c k = [truncation_of c k]"
proof (cases "\<exists>h. verified_head c = Some h \<and> covered_through_sequence k \<le> head_sequence h")
  case True
  with assms(2) have "verified_node_at c (covered_through_sequence k) = None"
    unfolding verified_node_at_built [OF c] reaches_def by blast
  with True show ?thesis by (auto simp: assess_claim_def Let_def truncation_of_def)
next
  case False
  then show ?thesis
    by (cases "verified_head c") (auto simp: assess_claim_def Let_def truncation_of_def not_le)
qed

lemma assess_claim_reached:
  assumes c: "build_chain cid nodes = Inr c" and r: "reaches nodes c k"
  shows "\<exists>n \<in> set nodes. chain_sequence n = covered_through_sequence k
     \<and> assess_claim c k = (if keeps nodes c k then [] else [mismatch_of k n])
     \<and> (keeps nodes c k \<longleftrightarrow> entry_hash n = claim_head_entry_hash k)"
proof -
  from r obtain h where h: "verified_head c = Some h" "covered_through_sequence k \<le> head_sequence h"
    by (auto simp: reaches_def)
  from r have "verified_node_at c (covered_through_sequence k) \<noteq> None"
    unfolding verified_node_at_built [OF c] reaches_def by blast
  then obtain n where n: "verified_node_at c (covered_through_sequence k) = Some n" by auto
  have "set (vc_nodes c) = set nodes" using c by (simp add: build_chain_Inr)
  with verified_node_at_Some [OF n] have m: "n \<in> set nodes" "chain_sequence n = covered_through_sequence k"
    by blast+
  have "entry_hash n = entry_hash b" if "b \<in> set nodes" "chain_sequence b = covered_through_sequence k" for b
    using below_head_unique [OF c h(1) m(1) _ that(1)] that(2) m(2) h(2) by simp
  with r m have k: "keeps nodes c k \<longleftrightarrow> entry_hash n = claim_head_entry_hash k"
    unfolding keeps_def by metis
  from h n have "assess_claim c k = (if entry_hash n \<noteq> claim_head_entry_hash k then [mismatch_of k n] else [])"
    by (simp add: assess_claim_def Let_def mismatch_of_def not_less)
  with k m show ?thesis by (intro bexI [of _ n]) simp_all
qed

lemma assess_claim_Nil:
  "build_chain cid nodes = Inr c \<Longrightarrow> assess_claim c k = [] \<longleftrightarrow> keeps nodes c k"
  using assess_claim_truncated [of cid nodes c k] assess_claim_reached [of cid nodes c k]
  by (cases "reaches nodes c k") (force simp: keeps_def [of nodes c k] split: if_splits, simp add: keeps_def)

lemma assess_rollback_Consistent:
  assumes "build_chain cid nodes = Inr c"
  shows "assess_rollback c claims = Consistent \<longleftrightarrow> (\<exists>k \<in> set claims. claim_chain_id k = cid)
     \<and> (\<forall>k \<in> set claims. claim_chain_id k = cid \<longrightarrow> keeps nodes c k)"
proof -
  have "vc_chain_id c = cid" using assms by (simp add: build_chain_Inr)
  then show ?thesis
    by (auto simp: assess_rollback_def Let_def relevant_claims_empty assess_claim_Nil [OF assms])
qed

lemma assess_rollback_NotAssessable:
  assumes "build_chain cid nodes = Inr c"
  shows "assess_rollback c claims = NotAssessable \<longleftrightarrow> (\<forall>k \<in> set claims. claim_chain_id k \<noteq> cid)"
proof -
  have "vc_chain_id c = cid" using assms by (simp add: build_chain_Inr)
  then show ?thesis by (simp add: assess_rollback_def Let_def relevant_claims_empty)
qed

lemma assess_rollback_findings:
  assumes c: "build_chain cid nodes = Inr c" and "assess_rollback c claims = RollbackFound fs"
  shows "f \<in> set fs \<longleftrightarrow> (\<exists>k \<in> set claims. claim_chain_id k = cid \<and> f \<in> set (assess_claim c k))"
    and "fs \<noteq> []" and "sorted (map finding_sort_key fs)"
proof -
  have "vc_chain_id c = cid" using c by (simp add: build_chain_Inr)
  moreover have fs: "fs = sort_key finding_sort_key (concat (map (assess_claim c) (relevant_claims c claims)))"
    and ne: "concat (map (assess_claim c) (relevant_claims c claims)) \<noteq> []"
    using assms(2) by (auto simp: assess_rollback_def Let_def split: if_splits)
  ultimately show "f \<in> set fs \<longleftrightarrow> (\<exists>k \<in> set claims. claim_chain_id k = cid \<and> f \<in> set (assess_claim c k))" by auto
  have "set fs \<noteq> {}" using ne unfolding fs set_sort set_empty .
  then show "fs \<noteq> []" by auto
  show "sorted (map finding_sort_key fs)" unfolding fs by simp
qed


text \<open>
  C31. The interval of sequences a finding proves missing is nonempty, ends at the sequence of a checkpoint of
  this chain and lies entirely above the verified head, starting right after it. A truncation proves nothing
  missing only if the verified head is at or above its checkpoint.
\<close>

theorem proven_missing_above_head:
  assumes "build_chain cid nodes = Inr c" and "assess_rollback c claims = RollbackFound fs" and "f \<in> set fs"
  shows "case proven_missing_sequences f of
      Some (a, b) \<Rightarrow> a \<le> b \<and> (\<exists>k \<in> set claims. claim_chain_id k = cid \<and> covered_through_sequence k = b)
        \<and> (case verified_head c of None \<Rightarrow> a = 0 | Some h \<Rightarrow> unat a = Suc (unat (head_sequence h)))
    | None \<Rightarrow> \<exists>k \<in> set claims. claim_chain_id k = cid
        \<and> (\<exists>h. verified_head c = Some h \<and> covered_through_sequence k \<le> head_sequence h)"
proof -
  from assess_rollback_findings(1) [OF assms(1,2)] assms(3) obtain k
    where k: "k \<in> set claims" "claim_chain_id k = cid" "f \<in> set (assess_claim c k)" by blast
  show ?thesis
  proof (cases "reaches nodes c k")
    case True
    with k(3) obtain n where "f = mismatch_of k n"
      using assess_claim_reached [OF assms(1) True] by (auto split: if_splits)
    then have "proven_missing_sequences f = None" by (simp add: mismatch_of_def)
    moreover from True have "\<exists>h. verified_head c = Some h \<and> covered_through_sequence k \<le> head_sequence h"
      unfolding reaches_def by blast
    ultimately show ?thesis using k(1,2) by auto
  next
    case False
    then have f: "f = truncation_of c k" using k(3) assess_claim_truncated [OF assms(1) False] by simp
    show ?thesis
    proof (cases "verified_head c")
      case None
      then have "proven_missing_sequences f = Some (0, covered_through_sequence k)"
        by (simp add: f truncation_of_def)
      with None k(1,2) show ?thesis by auto
    next
      case (Some h)
      show ?thesis
      proof (cases "covered_through_sequence k \<le> head_sequence h")
        case True
        then have "proven_missing_sequences f = None"
          by (auto simp: f truncation_of_def Some checked_succ_Some word_le_nat_alt word_less_nat_alt split: option.splits)
        with True Some k(1,2) show ?thesis by auto
      next
        case above: False
        then have "checked_succ (head_sequence h) \<noteq> None" using checked_succ_None by blast
        then obtain a where a: "checked_succ (head_sequence h) = Some a" by blast
        then have u: "unat a = Suc (unat (head_sequence h))" by (simp add: checked_succ_Some)
        with above have le: "a \<le> covered_through_sequence k" by (simp add: word_le_nat_alt)
        with a have "proven_missing_sequences f = Some (a, covered_through_sequence k)"
          by (simp add: f truncation_of_def Some)
        with u le Some k(1,2) show ?thesis by auto
      qed
    qed
  qed
qed

section \<open>A checkpoint commits to everything below it\<close>

text \<open>
  Two inventories are free of entry hash collisions when equal entry hashes stand for entries with the same
  sequence and the same predecessor, both of which are part of what is hashed.
\<close>

definition collision_free :: "chain_node list \<Rightarrow> chain_node list \<Rightarrow> bool" where
  "collision_free ms ns \<longleftrightarrow> (\<forall>a \<in> set ms. \<forall>b \<in> set ns. entry_hash a = entry_hash b \<longrightarrow>
     chain_sequence a = chain_sequence b \<and> previous_entry_hash a = previous_entry_hash b)"

lemma linear_bound:
  assumes "linear_between N lo hi" and "n \<in> N" and "lo < chain_sequence n" and "chain_sequence n \<le> hi"
  obtains m where "m \<in> N" and "checked_succ (chain_sequence m) = Some (chain_sequence n)"
    and "previous_entry_hash n = Some (entry_hash m)"
  using assms unfolding linear_between_def by blast

lemma linear_agree:
  assumes cf: "collision_free ms ns" and lm: "linear_between (set ms) lo hi" and ln: "linear_between (set ns) lo' hi"
    and top: "\<exists>a \<in> set ms. \<exists>b \<in> set ns. chain_sequence a = hi \<and> chain_sequence b = hi \<and> entry_hash a = entry_hash b"
    and s: "max lo lo' \<le> s" "s \<le> hi"
  shows "\<exists>a \<in> set ms. \<exists>b \<in> set ns. chain_sequence a = s \<and> chain_sequence b = s \<and> entry_hash a = entry_hash b"
proof -
  let ?S = "{s. \<exists>a \<in> set ms. \<exists>b \<in> set ns. chain_sequence a = s \<and> chain_sequence b = s \<and> entry_hash a = entry_hash b}"
  have "s \<in> ?S"
  proof (rule descend [OF _ s])
    show "hi \<in> ?S" using top by (rule CollectI)
  next
    fix t assume t: "t \<in> ?S" "max lo lo' < t" "t \<le> hi"
    from t(1) obtain a b where ab: "a \<in> set ms" "b \<in> set ns" "chain_sequence a = t" "chain_sequence b = t"
      "entry_hash a = entry_hash b" by blast
    have "lo < chain_sequence a" "chain_sequence a \<le> hi" using ab(3) t by simp_all
    from linear_bound [OF lm ab(1) this] obtain p where p: "p \<in> set ms" "checked_succ (chain_sequence p) = Some t"
      "previous_entry_hash a = Some (entry_hash p)" unfolding ab(3) by blast
    have "lo' < chain_sequence b" "chain_sequence b \<le> hi" using ab(4) t by simp_all
    from linear_bound [OF ln ab(2) this] obtain q where q: "q \<in> set ns" "checked_succ (chain_sequence q) = Some t"
      "previous_entry_hash b = Some (entry_hash q)" unfolding ab(4) by blast
    have "previous_entry_hash a = previous_entry_hash b" using cf ab(1,2,5) unfolding collision_free_def by blast
    then have eq: "entry_hash p = entry_hash q" using p(3) q(3) by simp
    then have "chain_sequence p = chain_sequence q" using cf p(1) q(1) unfolding collision_free_def by blast
    then have "chain_sequence p \<in> ?S" using eq p(1) q(1) by (intro CollectI bexI [of _ p] bexI [of _ q]) simp_all
    with p(2) show "\<exists>u \<in> ?S. checked_succ u = Some t" by (rule bexI)
  qed
  then show ?thesis by (rule CollectD)
qed

lemma verified_linear:
  assumes "build_chain cid nodes = Inr c" and "verified_head c = Some h"
  obtains lo where "\<forall>n \<in> set nodes. lo \<le> chain_sequence n" and "linear_between (set nodes) lo (head_sequence h)"
  using verified_head_cases [OF assms(1)] assms(2) by auto

lemma linear_between_shorter: "linear_between N lo hi \<Longrightarrow> s \<le> hi \<Longrightarrow> linear_between N lo s"
  unfolding linear_between_def by (meson order_trans)

text \<open>
  C3. A kept checkpoint commits to everything below it. Let a checkpoint name an entry of the verified part of
  an earlier inventory, and let a later inventory of the same chain be assessed as consistent with it. Unless
  entry hashes collide, both inventories then hold the same entries at every sequence up to the checkpoint that
  both of them occupy: nothing below a checkpoint was replaced.
\<close>

theorem checkpoint_commits_prefix:
  assumes then_c: "build_chain cid ms = Inr d" and now_c: "build_chain cid ns = Inr c"
    and k: "k \<in> set claims" "claim_chain_id k = cid" "keeps ms d k"
    and ok: "assess_rollback c claims = Consistent" and cf: "collision_free ms ns"
    and a: "a \<in> set ms" and b: "b \<in> set ns"
    and s: "chain_sequence a = chain_sequence b" "chain_sequence a \<le> covered_through_sequence k"
  shows "entry_hash a = entry_hash b"
proof -
  have kn: "keeps ns c k" using ok k(1,2) unfolding assess_rollback_Consistent [OF now_c] by blast
  from k(3) obtain h where h: "verified_head d = Some h" "covered_through_sequence k \<le> head_sequence h"
    unfolding keeps_def reaches_def by blast
  from kn obtain i where i: "verified_head c = Some i" "covered_through_sequence k \<le> head_sequence i"
    unfolding keeps_def reaches_def by blast
  obtain lo where lo: "\<forall>n \<in> set ms. lo \<le> chain_sequence n" "linear_between (set ms) lo (head_sequence h)"
    by (rule verified_linear [OF then_c h(1)])
  obtain lo' where lo': "\<forall>n \<in> set ns. lo' \<le> chain_sequence n" "linear_between (set ns) lo' (head_sequence i)"
    by (rule verified_linear [OF now_c i(1)])
  have top: "\<exists>a \<in> set ms. \<exists>b \<in> set ns. chain_sequence a = covered_through_sequence k
      \<and> chain_sequence b = covered_through_sequence k \<and> entry_hash a = entry_hash b"
    using k(3) kn unfolding keeps_def reaches_def by (metis (no_types, lifting) imageE)
  have "max lo lo' \<le> chain_sequence a" using lo(1) lo'(1) a b s(1) by (metis max.bounded_iff)
  from linear_agree [OF cf linear_between_shorter [OF lo(2) h(2)] linear_between_shorter [OF lo'(2) i(2)] top this s(2)]
  obtain p q where pq: "p \<in> set ms" "q \<in> set ns" "chain_sequence p = chain_sequence a"
    "chain_sequence q = chain_sequence a" "entry_hash p = entry_hash q" by blast
  have "entry_hash a = entry_hash p"
    using below_head_unique [OF then_c h(1) a _ pq(1,3)] s(2) h(2) by (simp add: order_trans)
  moreover have "entry_hash b = entry_hash q"
    using below_head_unique [OF now_c i(1) b _ pq(2)] pq(4) s i(2) by (metis order_trans)
  ultimately show ?thesis using pq(5) by simp
qed

section \<open>Witnesses\<close>

text \<open>A linear chain keeps every checkpoint that names one of its entries.\<close>

lemma linear_keeps:
  assumes c: "build_chain cid nodes = Inr c" and lin: "linear_chain (set nodes)" and n: "n \<in> set nodes"
    and k: "covered_through_sequence k = chain_sequence n" "claim_head_entry_hash k = entry_hash n"
  shows "keeps nodes c k"
proof -
  from c lin have full: "is_fully_verified c" by (rule linear_fully_verified)
  from n have ne: "nodes \<noteq> []" by auto
  from fully_verified_head [OF c full] c ne have h: "verified_head c = Some (head_of (last (sorted_nodes nodes)))"
    by (simp add: build_chain_Inr)
  have le: "chain_sequence n \<le> head_sequence (head_of (last (sorted_nodes nodes)))"
    using sorted_last [OF sorted_nodes_sequence, of n nodes] n by (simp add: head_of_def)
  have "entry_hash m = entry_hash n" if "m \<in> set nodes" "chain_sequence m = chain_sequence n" for m
    using below_head_unique [OF c h n le that] by simp
  moreover have "reaches nodes c k" unfolding reaches_def k using h le n by blast
  ultimately show ?thesis unfolding keeps_def k by blast
qed

definition sample_claim :: checkpoint_claim where
  "sample_claim = \<lparr>claim_chain_id = [9], covered_from_sequence = 0, covered_through_sequence = 1,
     claim_head_entry_hash = [2], checkpoint_object_hash = [7]\<rparr>"

lemma sample_truncated:
  "\<exists>c. build_chain [9] [genesis] = Inr c \<and> assess_rollback c [sample_claim] = RollbackFound [truncation_of c sample_claim]"
proof -
  have "\<exists>c. build_chain [9] [genesis] = Inr c"
    by (simp add: build_chain_def check_node_def genesis_def MAX_CHAIN_NODES_V1_def Let_def)
  then obtain c where c: "build_chain [9] [genesis] = Inr c" by blast
  have "\<not> reaches [genesis] c sample_claim" by (simp add: reaches_def genesis_def sample_claim_def)
  from assess_claim_truncated [OF c this] have a: "assess_claim c sample_claim = [truncation_of c sample_claim]" .
  have "vc_chain_id c = [9]" using c by (simp add: build_chain_Inr)
  then have "relevant_claims c [sample_claim] = [sample_claim]" by (simp add: relevant_claims_def sample_claim_def)
  with a c show ?thesis by (auto simp: assess_rollback_def Let_def)
qed

lemma small_chain': "\<exists>c. build_chain [9] [genesis, second] = Inr c"
  by (simp add: build_chain_def check_node_def genesis_def second_def MAX_CHAIN_NODES_V1_def Let_def)

lemma sample_keeps:
  assumes "build_chain [9] ns = Inr c" and "set ns = {second, genesis}"
  shows "keeps ns c sample_claim"
proof (rule linear_keeps [OF assms(1), of second])
  show "linear_chain (set ns)" using small_linear assms(2) by simp
  show "second \<in> set ns" using assms(2) by simp
qed (simp_all add: sample_claim_def second_def)


theorem proven_missing_above_head_witness:
  "\<exists>c fs. build_chain [9] [genesis] = Inr c \<and> assess_rollback c [sample_claim] = RollbackFound fs
     \<and> (\<forall>f \<in> set fs. case proven_missing_sequences f of
           Some (a, b) \<Rightarrow> a \<le> b
         | None \<Rightarrow> \<exists>h. verified_head c = Some h \<and> 1 \<le> head_sequence h)"
proof -
  obtain c where c: "build_chain [9] [genesis] = Inr c"
      "assess_rollback c [sample_claim] = RollbackFound [truncation_of c sample_claim]"
    using sample_truncated by blast
  have "covered_through_sequence sample_claim = 1" by (simp add: sample_claim_def)
  with proven_missing_above_head [OF c, of "truncation_of c sample_claim"] c show ?thesis
    by (auto split: option.splits prod.splits)
qed

theorem checkpoint_commits_prefix_witness:
  "\<exists>d c. build_chain [9] [second, genesis] = Inr d \<and> build_chain [9] [genesis, second] = Inr c
     \<and> assess_rollback c [sample_claim] = Consistent \<and> entry_hash genesis = entry_hash genesis"
proof -
  obtain d where d: "build_chain [9] [second, genesis] = Inr d" using small_chain by blast
  obtain c where c: "build_chain [9] [genesis, second] = Inr c" using small_chain' by blast
  have ok: "assess_rollback c [sample_claim] = Consistent"
    unfolding assess_rollback_Consistent [OF c] using sample_keeps [OF c] by (auto simp: sample_claim_def)
  have cf: "collision_free [second, genesis] [genesis, second]"
    by (auto simp: collision_free_def genesis_def second_def)
  have "entry_hash genesis = entry_hash genesis"
    by (rule checkpoint_commits_prefix [OF d c, of sample_claim "[sample_claim]"])
      (use sample_keeps [OF d] ok cf in \<open>auto simp: sample_claim_def genesis_def\<close>)
  with d c ok show ?thesis by blast
qed

end
