(* ===== verification/EaCbor.thy ===== *)
theory EaCbor
  imports EaPrelude
begin

text \<open>
  Deterministic CBOR (\<^verbatim>\<open>crates/ea-cbor\<close>): the bounded scanner that every object of the archive
  passes before it is decoded, and the canonical re-encoder. The input slice, the limits and the
  order flag of the two Rust structs never change and are arguments; their mutable fields, the
  position and the number of items, are passed and returned. The Unicode normalisation crate is the
  argument \<open>nfc\<close>, on the code points of a text. Failed allocations are not modelled.
\<close>

unbundle bit_operations_syntax

section \<open>Limits and errors\<close>

record parser_limits =
  max_depth :: nat
  max_container_items :: nat
  max_total_items :: nat
  max_text_or_bytes :: nat

definition ParserLimits_V1 :: parser_limits where
  "ParserLimits_V1 = \<lparr>max_depth = 16, max_container_items = 10000, max_total_items = 10000,
     max_text_or_bytes = 1048592\<rparr>"

definition has_nonzero_security_budgets :: "parser_limits \<Rightarrow> bool" where
  "has_nonzero_security_budgets L \<longleftrightarrow>
     max_depth L > 0 \<and> max_container_items L > 0 \<and> max_total_items L > 0"

datatype cbor_error = Indefinite | ItemLimit | DepthLimit | ContainerLimit | TokenLimit | TrailingBytes
  | NonMinimal | Float | InvalidUtf8 | NonNfc | MapOrder | DuplicateKey | Invalid | Encode

section \<open>Text\<close>

text \<open>
  \<^verbatim>\<open>core::str::from_utf8\<close> followed by \<^verbatim>\<open>chars()\<close>: the code points of a well-formed UTF-8 string.
  Overlong forms, surrogates and values above \<open>0x10FFFF\<close> are refused by the range of the second byte.
\<close>

definition continuation :: "byte \<Rightarrow> byte \<Rightarrow> byte \<Rightarrow> bool" where
  "continuation lo hi b \<longleftrightarrow> lo \<le> b \<and> b \<le> hi"

definition second_range :: "byte \<Rightarrow> byte \<times> byte" where
  "second_range a = (if a = 0xE0 then (0xA0, 0xBF) else if a = 0xED then (0x80, 0x9F)
     else if a = 0xF0 then (0x90, 0xBF) else if a = 0xF4 then (0x80, 0x8F) else (0x80, 0xBF))"

fun utf8_chars :: "bytes \<Rightarrow> nat list option" where
  "utf8_chars [] = Some []"
| "utf8_chars (a # bs) =
     (if a < 0x80 then map_option (Cons (unat a)) (utf8_chars bs)
      else if 0xC2 \<le> a \<and> a \<le> 0xDF then
        (case bs of
           b # r \<Rightarrow> if continuation 0x80 0xBF b
             then map_option (Cons (unat a mod 32 * 64 + unat b mod 64)) (utf8_chars r) else None
         | _ \<Rightarrow> None)
      else if 0xE0 \<le> a \<and> a \<le> 0xEF then
        (case bs of
           b # c # r \<Rightarrow> if continuation (fst (second_range a)) (snd (second_range a)) b \<and> continuation 0x80 0xBF c
             then map_option (Cons (unat a mod 16 * 4096 + unat b mod 64 * 64 + unat c mod 64)) (utf8_chars r)
             else None
         | _ \<Rightarrow> None)
      else if 0xF0 \<le> a \<and> a \<le> 0xF4 then
        (case bs of
           b # c # d # r \<Rightarrow> if continuation (fst (second_range a)) (snd (second_range a)) b
               \<and> continuation 0x80 0xBF c \<and> continuation 0x80 0xBF d
             then map_option (Cons (unat a mod 8 * 262144 + unat b mod 64 * 4096 + unat c mod 64 * 64 + unat d mod 64))
               (utf8_chars r)
             else None
         | _ \<Rightarrow> None)
      else None)"

definition check_text :: "(nat list \<Rightarrow> nat list) \<Rightarrow> bytes \<Rightarrow> cbor_error + unit" where
  "check_text nfc payload =
     bindE (ok_or InvalidUtf8 (utf8_chars payload)) (\<lambda>text. reject_if (nfc text \<noteq> text) NonNfc)"

section \<open>Reading\<close>

text \<open>The scanner and the encoder have the same three readers.\<close>

definition read_byte :: "bytes \<Rightarrow> nat \<Rightarrow> cbor_error + byte \<times> nat" where
  "read_byte input position =
     (if position < length input then Inr (input ! position, position + 1) else Inl Invalid)"

definition read_slice :: "bytes \<Rightarrow> nat \<Rightarrow> nat \<Rightarrow> cbor_error + bytes \<times> nat" where
  "read_slice input position len =
     bindE (ok_or ItemLimit (checked_add_usize position len)) (\<lambda>until.
       bindE (ok_or Invalid (slice_get input position until)) (\<lambda>bytes. Inr (bytes, until)))"

definition read_uint :: "bytes \<Rightarrow> nat \<Rightarrow> nat \<Rightarrow> cbor_error + u64 \<times> nat" where
  "read_uint input position width =
     bindE (read_slice input position width) (\<lambda>(bytes, p). Inr (from_be_bytes bytes, p))"

definition at_least :: "u64 \<Rightarrow> u64 \<times> nat \<Rightarrow> cbor_error + u64 \<times> nat" where
  "at_least least = (\<lambda>(value, p). if value < least then Inl NonMinimal else Inr (value, p))"

definition read_argument :: "bytes \<Rightarrow> nat \<Rightarrow> byte \<Rightarrow> cbor_error + u64 \<times> nat" where
  "read_argument input position additional =
     (if additional \<le> 23 then Inr (ucast additional, position)
      else if additional = 24 then
        bindE (read_byte input position) (\<lambda>(value, p). at_least 24 (ucast value, p))
      else if additional = 25 then bindE (read_uint input position 2) (at_least 0x100)
      else if additional = 26 then bindE (read_uint input position 4) (at_least 0x10000)
      else if additional = 27 then bindE (read_uint input position 8) (at_least 0x100000000)
      else if additional = 31 then Inl Indefinite
      else Inl Invalid)"

definition read_length :: "bytes \<Rightarrow> nat \<Rightarrow> byte \<Rightarrow> cbor_error + nat \<times> nat" where
  "read_length input position additional =
     bindE (read_argument input position additional) (\<lambda>(value, p).
       if unat value \<le> usize_max then Inr (unat value, p) else Inl ItemLimit)"

definition read_container_length :: "parser_limits \<Rightarrow> bytes \<Rightarrow> nat \<Rightarrow> byte \<Rightarrow> cbor_error + nat \<times> nat" where
  "read_container_length L input position additional =
     bindE (read_length input position additional) (\<lambda>(len, p).
       if len > max_container_items L then Inl ContainerLimit else Inr (len, p))"

definition check_container_depth :: "parser_limits \<Rightarrow> nat \<Rightarrow> cbor_error + unit" where
  "check_container_depth L container_depth = reject_if (container_depth \<ge> max_depth L) DepthLimit"

definition scan_simple :: "bytes \<Rightarrow> nat \<Rightarrow> byte \<Rightarrow> cbor_error + nat" where
  "scan_simple input position additional =
     (if additional \<le> 23 then Inr position
      else if additional = 24 then
        bindE (read_byte input position) (\<lambda>(value, p).
          if value \<le> 23 then Inl NonMinimal else if value \<le> 31 then Inl Invalid else Inr p)
      else if additional \<le> 27 then Inl Float
      else if additional = 31 then Inl Indefinite
      else Inl Invalid)"

datatype ordering = Less | Equal | Greater

definition deterministic_key_cmp :: "bytes \<Rightarrow> bytes \<Rightarrow> ordering" where
  "deterministic_key_cmp left right =
     (if left < right then Less else if left = right then Equal else Greater)"

definition check_key_order :: "bytes \<Rightarrow> (nat \<times> nat) option \<Rightarrow> nat \<times> nat \<Rightarrow> cbor_error + unit" where
  "check_key_order input previous_key key =
     (case previous_key of
        None \<Rightarrow> Inr ()
      | Some previous \<Rightarrow>
          (case deterministic_key_cmp (slice input (fst previous) (snd previous)) (slice input (fst key) (snd key)) of
             Equal \<Rightarrow> Inl DuplicateKey
           | Greater \<Rightarrow> Inl MapOrder
           | Less \<Rightarrow> Inr ()))"

section \<open>The scanner\<close>

text \<open>
  \<open>scan_items\<close> is the loop over the elements of an array, \<open>scan_entries\<close> the one over the entries of a
  map. Recursion ends because every container checks the depth before it is entered.
\<close>

definition count_item :: "parser_limits \<Rightarrow> nat \<Rightarrow> cbor_error + nat" where
  "count_item L total_items =
     bindE (reject_if (\<not> has_nonzero_security_budgets L) Invalid) (\<lambda>_.
     bindE (ok_or TokenLimit (checked_add_usize total_items 1)) (\<lambda>items.
     bindE (reject_if (items > max_total_items L) TokenLimit) (\<lambda>_. Inr items)))"

definition scan_string :: "(nat list \<Rightarrow> nat list) \<Rightarrow> parser_limits \<Rightarrow> bytes \<Rightarrow> byte \<Rightarrow> byte \<Rightarrow> nat \<Rightarrow> cbor_error + nat" where
  "scan_string nfc L input major additional position =
     bindE (read_length input position additional) (\<lambda>(len, p).
     bindE (reject_if (len > max_text_or_bytes L) ItemLimit) (\<lambda>_.
     bindE (read_slice input p len) (\<lambda>(payload, p).
     bindE (if major = 3 then check_text nfc payload else Inr ()) (\<lambda>_. Inr p))))"

function
  scan_item :: "(nat list \<Rightarrow> nat list) \<Rightarrow> parser_limits \<Rightarrow> bool \<Rightarrow> bytes \<Rightarrow> nat \<Rightarrow> nat \<Rightarrow> nat \<Rightarrow> cbor_error + nat \<times> nat" and
  scan_items :: "(nat list \<Rightarrow> nat list) \<Rightarrow> parser_limits \<Rightarrow> bool \<Rightarrow> bytes \<Rightarrow> nat \<Rightarrow> nat \<Rightarrow> nat \<Rightarrow> nat \<Rightarrow> cbor_error + nat \<times> nat" and
  scan_entries :: "(nat list \<Rightarrow> nat list) \<Rightarrow> parser_limits \<Rightarrow> bool \<Rightarrow> bytes \<Rightarrow> nat \<Rightarrow> nat \<Rightarrow> (nat \<times> nat) option \<Rightarrow> nat \<Rightarrow> nat
    \<Rightarrow> cbor_error + nat \<times> nat"
where
  "scan_item nfc L enforce input container_depth position total_items =
     bindE (count_item L total_items) (\<lambda>items.
     bindE (read_byte input position) (\<lambda>(initial, p).
       let major = drop_bit 5 initial; additional = initial AND 0x1f in
       if major = 0 \<or> major = 1 then
         bindE (read_argument input p additional) (\<lambda>(_, p). Inr (p, items))
       else if major = 2 \<or> major = 3 then
         bindE (scan_string nfc L input major additional p) (\<lambda>p. Inr (p, items))
       else if major = 4 then
         bindE (read_container_length L input p additional) (\<lambda>(len, p).
         bindE (check_container_depth L container_depth) (\<lambda>_.
           scan_items nfc L enforce input (container_depth + 1) len p items))
       else if major = 5 then
         bindE (read_container_length L input p additional) (\<lambda>(len, p).
         bindE (check_container_depth L container_depth) (\<lambda>_.
           scan_entries nfc L enforce input (container_depth + 1) len None p items))
       else if major = 6 then
         bindE (read_argument input p additional) (\<lambda>(_, p).
         bindE (check_container_depth L container_depth) (\<lambda>_.
           scan_item nfc L enforce input (container_depth + 1) p items))
       else bindE (scan_simple input p additional) (\<lambda>p. Inr (p, items))))"
| "scan_items nfc L enforce input depth remaining position items =
     (case remaining of
        0 \<Rightarrow> Inr (position, items)
      | Suc k \<Rightarrow> bindE (scan_item nfc L enforce input depth position items) (\<lambda>(p, items).
          scan_items nfc L enforce input depth k p items))"
| "scan_entries nfc L enforce input depth remaining previous_key position items =
     (case remaining of
        0 \<Rightarrow> Inr (position, items)
      | Suc k \<Rightarrow> bindE (scan_item nfc L enforce input depth position items) (\<lambda>(key_end, items).
          bindE (if enforce then check_key_order input previous_key (position, key_end) else Inr ()) (\<lambda>_.
          bindE (scan_item nfc L enforce input depth key_end items) (\<lambda>(p, items).
            scan_entries nfc L enforce input depth k
              (if enforce then Some (position, key_end) else previous_key) p items))))"
  by pat_completeness auto

termination
  by (relation "inv_image (less_than <*lex*> less_than <*lex*> less_than)
      (\<lambda>x. case x of
         Inl (_, L, _, _, d, _, _) \<Rightarrow> (max_depth L - d, 0, 0)
       | Inr (Inl (_, L, _, _, d, k, _, _)) \<Rightarrow> (max_depth L - d, 1, k)
       | Inr (Inr (_, L, _, _, d, k, _, _, _)) \<Rightarrow> (max_depth L - d, 1, k))")
    (auto simp: check_container_depth_def result_simps)

declare scan_item.simps [simp del] scan_items.simps [simp del] scan_entries.simps [simp del]

definition scan_relaxed :: "(nat list \<Rightarrow> nat list) \<Rightarrow> parser_limits \<Rightarrow> bytes \<Rightarrow> cbor_error + unit" where
  "scan_relaxed nfc L input =
     bindE (scan_item nfc L False input 0 0 0) (\<lambda>(position, _).
       reject_if (position \<noteq> length input) TrailingBytes)"

section \<open>The canonical encoder\<close>

definition append_buffer :: "bytes \<Rightarrow> bytes \<Rightarrow> cbor_error + bytes" where
  "append_buffer buffer bytes =
     bindE (ok_or ItemLimit (checked_add_usize (length buffer) (length bytes))) (\<lambda>_. Inr (buffer @ bytes))"

definition encode_head :: "byte \<Rightarrow> u64 \<Rightarrow> bytes" where
  "encode_head major argument =
     (let prefix = push_bit 5 major in
      if argument < 24 then [prefix OR ucast argument]
      else if argument \<le> 0xff then [prefix OR 24, ucast argument]
      else if argument \<le> 0xffff then (prefix OR 25) # to_be_bytes 2 argument
      else if argument \<le> 0xffffffff then (prefix OR 26) # to_be_bytes 4 argument
      else (prefix OR 27) # to_be_bytes 8 argument)"

definition encode_read_argument :: "bytes \<Rightarrow> nat \<Rightarrow> byte \<Rightarrow> cbor_error + u64 \<times> nat" where
  "encode_read_argument input position additional =
     (if additional \<le> 23 then Inr (ucast additional, position)
      else if additional = 24 then
        bindE (read_byte input position) (\<lambda>(value, p). Inr (ucast value, p))
      else if additional = 25 then read_uint input position 2
      else if additional = 26 then read_uint input position 4
      else if additional = 27 then read_uint input position 8
      else if additional = 31 then Inl Indefinite
      else Inl Invalid)"

definition emit_entries :: "byte \<Rightarrow> u64 \<Rightarrow> (bytes \<times> bytes) list \<Rightarrow> cbor_error + bytes" where
  "emit_entries major len entries =
     (let sorted = sort_key fst entries in
      bindE (reject_if (\<exists>(a, b) \<in> set (windows2 sorted). fst a = fst b) DuplicateKey) (\<lambda>_.
        foldE (\<lambda>(key, value) output. bindE (append_buffer output key) (\<lambda>output. append_buffer output value))
          sorted (encode_head major len)))"

definition encode_simple :: "bytes \<Rightarrow> nat \<Rightarrow> byte \<Rightarrow> byte \<Rightarrow> cbor_error + bytes \<times> nat" where
  "encode_simple input position initial additional =
     (if additional \<le> 23 then Inr ([initial], position)
      else if additional = 24 then bindE (read_byte input position) (\<lambda>(value, p). Inr ([initial, value], p))
      else if additional \<le> 27 then Inl Float
      else if additional = 31 then Inl Indefinite
      else Inl Invalid)"

function
  encode_item :: "bytes \<Rightarrow> nat \<Rightarrow> cbor_error + bytes \<times> nat" and
  encode_items :: "bytes \<Rightarrow> nat \<Rightarrow> bytes \<Rightarrow> nat \<Rightarrow> cbor_error + bytes \<times> nat" and
  encode_entries :: "bytes \<Rightarrow> nat \<Rightarrow> (bytes \<times> bytes) list \<Rightarrow> nat \<Rightarrow> cbor_error + (bytes \<times> bytes) list \<times> nat"
where
  "encode_item input position =
     bindE (read_byte input position) (\<lambda>(initial, p).
       let major = drop_bit 5 initial; additional = initial AND 0x1f in
       if major = 0 \<or> major = 1 then
         bindE (encode_read_argument input p additional) (\<lambda>(argument, p). Inr (encode_head major argument, p))
       else if major = 2 \<or> major = 3 then
         bindE (encode_read_argument input p additional) (\<lambda>(len, p).
         bindE (if unat len \<le> usize_max then Inr (unat len) else Inl ItemLimit) (\<lambda>usize_length.
         bindE (read_slice input p usize_length) (\<lambda>(payload, p).
         bindE (append_buffer (encode_head major len) payload) (\<lambda>output. Inr (output, p)))))
       else if major = 4 then
         bindE (encode_read_argument input p additional) (\<lambda>(len, p).
           encode_items input (unat len) (encode_head major len) p)
       else if major = 5 then
         bindE (encode_read_argument input p additional) (\<lambda>(len, p).
         bindE (reject_if (unat len > usize_max) ContainerLimit) (\<lambda>_.
         bindE (encode_entries input (unat len) [] p) (\<lambda>(entries, p).
         bindE (emit_entries major len entries) (\<lambda>output. Inr (output, p)))))
       else if major = 6 then
         bindE (encode_read_argument input p additional) (\<lambda>(tag, p).
         bindE (encode_item input p) (\<lambda>(item, p).
         bindE (append_buffer (encode_head major tag) item) (\<lambda>output. Inr (output, p))))
       else encode_simple input p initial additional)"
| "encode_items input remaining output position =
     (case remaining of
        0 \<Rightarrow> Inr (output, position)
      | Suc k \<Rightarrow> bindE (encode_item input position) (\<lambda>(item, p).
          bindE (append_buffer output item) (\<lambda>output. encode_items input k output p)))"
| "encode_entries input remaining entries position =
     (case remaining of
        0 \<Rightarrow> Inr (entries, position)
      | Suc k \<Rightarrow> bindE (encode_item input position) (\<lambda>(key, p).
          bindE (encode_item input p) (\<lambda>(value, p). encode_entries input k (entries @ [(key, value)]) p)))"
  by pat_completeness auto

text \<open>
  The encoder has no depth limit of its own: it ends because every item consumes at least its first
  byte. That an item never moves the position backwards is shown on the domain of the recursion first.
\<close>

lemma read_byte_next: "read_byte input position = Inr (b, p) \<Longrightarrow> position < length input \<and> p = position + 1"
  by (auto simp: read_byte_def split: if_splits)

lemma read_slice_next: "read_slice input position len = Inr (bs, p) \<Longrightarrow> p = position + len \<and> p \<le> length input"
  by (auto simp: read_slice_def result_simps checked_add_usize_Some slice_get_def split: if_splits)

lemma encode_read_argument_next:
  "encode_read_argument input position a = Inr (v, p) \<Longrightarrow> position \<le> p"
  by (auto simp: encode_read_argument_def read_uint_def result_simps dest!: read_byte_next read_slice_next
      split: if_splits)

lemma encode_simple_next: "encode_simple input position i a = Inr (out, p) \<Longrightarrow> position \<le> p"
  by (auto simp: encode_simple_def result_simps dest!: read_byte_next split: if_splits)

lemma encode_next_dom:
  "encode_item_encode_items_encode_entries_dom (Inl (input, position)) \<Longrightarrow>
     encode_item input position = Inr (out, p) \<Longrightarrow> position \<le> p"
  "encode_item_encode_items_encode_entries_dom (Inr (Inl (input, k, buf, position))) \<Longrightarrow>
     encode_items input k buf position = Inr (out, p) \<Longrightarrow> position \<le> p"
  "encode_item_encode_items_encode_entries_dom (Inr (Inr (input, k, es, position))) \<Longrightarrow>
     encode_entries input k es position = Inr (es', p) \<Longrightarrow> position \<le> p"
proof (induction arbitrary: out p and out p and es' p rule: encode_item_encode_items_encode_entries.pinduct)
  case (1 input position)
  note IH = 1(2-4) and ok = 1(5) [unfolded encode_item.psimps [OF 1(1)]]
  obtain i q where q: "read_byte input position = Inr (i, q)"
    using ok by (cases "read_byte input position") auto
  then have le: "position \<le> q" by (auto dest: read_byte_next)
  define m where "m = drop_bit 5 i"
  note body = ok [unfolded q bindE_simps Let_def prod.case, folded m_def]
  note IH = IH [OF q refl refl refl, folded m_def]
  show ?case
  proof (cases "m = 7 \<or> \<not> m \<in> {0, 1, 2, 3, 4, 5, 6}")
    case True
    with body le show ?thesis by (auto dest!: encode_simple_next)
  next
    case False
    then have m: "m = 0 \<or> m = 1 \<or> m = 2 \<or> m = 3 \<or> m = 4 \<or> m = 5 \<or> m = 6" by simp
    then obtain a r where r: "encode_read_argument input q (i AND 0x1f) = Inr (a, r)"
      using body by (elim disjE) (simp_all add: result_simps, blast+)
    then have "position \<le> r" using le encode_read_argument_next le_trans by blast
    moreover have "r \<le> p"
      using m body [unfolded r bindE_simps prod.case] IH(1) [OF _ _ _ r refl] IH(2) [OF _ _ _ _ r refl]
        IH(3) [OF _ _ _ _ _ r refl]
      by (elim disjE) (simp_all add: result_simps, auto dest!: read_slice_next)
    ultimately show ?thesis by simp
  qed
next
  case (2 input remaining buf position)
  from 2(4) [unfolded encode_items.psimps [OF 2(1)]] 2(2,3) show ?case
    by (cases remaining) (auto simp: result_simps, metis le_trans)
next
  case (3 input remaining entries position)
  from 3(5) [unfolded encode_entries.psimps [OF 3(1)]] 3(2,3,4) show ?case
    by (cases remaining) (auto simp: result_simps, metis le_trans)
qed

definition encode_measure ::
  "bytes \<times> nat + bytes \<times> nat \<times> bytes \<times> nat + bytes \<times> nat \<times> (bytes \<times> bytes) list \<times> nat \<Rightarrow> nat \<times> nat \<times> nat"
where
  "encode_measure x = (case x of
     Inl (input, position) \<Rightarrow> (length input - position, 0, 0)
   | Inr (Inl (input, k, _, position)) \<Rightarrow> (length input - position, 1, k)
   | Inr (Inr (input, k, _, position)) \<Rightarrow> (length input - position, 1, k))"

termination encode_item
  by (relation "inv_image (less_than <*lex*> less_than <*lex*> less_than) encode_measure")
    (auto simp: encode_measure_def less_diff_iff diff_less_mono2
      dest!: read_byte_next encode_read_argument_next encode_next_dom(1))

declare encode_item.simps [simp del] encode_items.simps [simp del] encode_entries.simps [simp del]

definition canonical_reencode :: "(nat list \<Rightarrow> nat list) \<Rightarrow> parser_limits \<Rightarrow> bytes \<Rightarrow> cbor_error + bytes" where
  "canonical_reencode nfc L input =
     bindE (scan_relaxed nfc L input) (\<lambda>_.
     bindE (encode_item input 0) (\<lambda>(result, position).
       if position \<noteq> length input then Inl TrailingBytes else Inr result))"

text \<open>
  \<^verbatim>\<open>minicbor::Encode\<close> is a third-party trait: \<open>upstream\<close> is what the encoder of a value wrote, or its failure.
\<close>

definition to_deterministic_vec :: "(nat list \<Rightarrow> nat list) \<Rightarrow> bytes option \<Rightarrow> cbor_error + bytes" where
  "to_deterministic_vec nfc upstream =
     bindE (ok_or Encode upstream) (canonical_reencode nfc ParserLimits_V1)"

section \<open>The bounded decoder\<close>

record bounded_decoder =
  dec_input :: bytes
  dec_limits :: parser_limits
  dec_position :: nat

definition new_decoder :: "bytes \<Rightarrow> parser_limits \<Rightarrow> bounded_decoder" where
  "new_decoder input L = \<lparr>dec_input = input, dec_limits = L, dec_position = 0\<rparr>"

definition validate_one :: "(nat list \<Rightarrow> nat list) \<Rightarrow> bounded_decoder \<Rightarrow> cbor_error + bounded_decoder" where
  "validate_one nfc d =
     (let start = dec_position d in
      bindE (ok_or Invalid (slice_get (dec_input d) start (length (dec_input d)))) (\<lambda>remaining.
      bindE (scan_item nfc (dec_limits d) True remaining 0 0 0) (\<lambda>(consumed, _).
      bindE (ok_or ItemLimit (checked_add_usize start consumed)) (\<lambda>until.
      bindE (ok_or Invalid (slice_get (dec_input d) start until)) (\<lambda>exact.
      bindE (canonical_reencode nfc (dec_limits d) exact) (\<lambda>canonical.
        if canonical \<noteq> exact then Inl Invalid
        else Inr (d\<lparr>dec_position := start + consumed\<rparr>)))))))"

definition is_eof :: "bounded_decoder \<Rightarrow> bool" where
  "is_eof d \<longleftrightarrow> dec_position d = length (dec_input d)"

definition validate :: "(nat list \<Rightarrow> nat list) \<Rightarrow> bytes \<Rightarrow> parser_limits \<Rightarrow> cbor_error + unit" where
  "validate nfc input L =
     bindE (validate_one nfc (new_decoder input L)) (\<lambda>decoder. reject_if (\<not> is_eof decoder) TrailingBytes)"

end
