(* ===== verification/EaCborSpec.thy ===== *)
theory EaCborSpec
  imports EaCbor
begin

text \<open>
  What the CBOR crate promises. A data item is a value of the datatype \<open>cbor\<close>; \<open>cbor_bytes\<close> is its encoding
  with heads of minimal width, \<open>within\<close> says that it respects the limits, that its texts are normalised
  and, if asked, that the keys of its maps ascend. The scanner accepts exactly the encodings of the items
  within the limits, and the encoder maps an item to its canonical form.
\<close>

section \<open>Bytes at a position\<close>

definition stands_at :: "bytes \<Rightarrow> nat \<Rightarrow> bytes \<Rightarrow> bool" where
  "stands_at input position w \<longleftrightarrow> take (length w) (drop position input) = w"

lemma stands_at_Nil [simp]: "stands_at input position []"
  by (simp add: stands_at_def)

lemma stands_at_append:
  "stands_at input position (u @ w) \<longleftrightarrow> stands_at input position u \<and> stands_at input (position + length u) w"
proof -
  have "take (length u + length w) (drop position input) =
      take (length u) (drop position input) @ take (length w) (drop (position + length u) input)"
    by (simp add: take_add add.commute)
  moreover have "take (length u) (drop position input) @ take (length w) (drop (position + length u) input) = u @ w \<longleftrightarrow>
      take (length u) (drop position input) = u \<and> take (length w) (drop (position + length u) input) = w"
  proof (cases "length (take (length u) (drop position input)) = length u")
    case True then show ?thesis by simp
  next
    case False
    then have short: "length (drop position input) < length u" by simp
    then have "drop (position + length u) input = []" by simp
    with short show ?thesis by (auto dest: arg_cong [of _ _ length])
  qed
  ultimately show ?thesis by (simp add: stands_at_def)
qed

lemma stands_at_bound: "stands_at input position w \<Longrightarrow> w \<noteq> [] \<Longrightarrow> position + length w \<le> length input"
  unfolding stands_at_def by (drule arg_cong [of _ _ length]) (cases w, auto simp: min_def split: if_splits)

lemma stands_at_Cons:
  "stands_at input position (b # w) \<longleftrightarrow>
     position < length input \<and> input ! position = b \<and> stands_at input (position + 1) w"
proof -
  have "stands_at input position [b] \<longleftrightarrow> position < length input \<and> input ! position = b"
    unfolding stands_at_def by (cases "position < length input") (auto simp: take_Suc_conv_app_nth hd_drop_conv_nth take_Suc)
  then show ?thesis using stands_at_append [of input position "[b]" w] by simp
qed

lemma stands_at_whole: "stands_at input 0 w \<Longrightarrow> length w = length input \<Longrightarrow> w = input"
  by (simp add: stands_at_def)

lemma stands_at_0 [simp]: "stands_at input 0 input"
  by (simp add: stands_at_def)

lemma slice_stands_at: "stands_at input position w \<Longrightarrow> slice input position (position + length w) = w"
  by (simp add: stands_at_def slice_def)

lemma read_byte_stands: "read_byte input position = Inr (b, p) \<longleftrightarrow> stands_at input position [b] \<and> p = position + 1"
  by (auto simp: read_byte_def stands_at_Cons)

lemma read_slice_stands:
  assumes "length input \<le> usize_max" and "position \<le> length input"
  shows "read_slice input position len = Inr (w, p) \<longleftrightarrow>
     stands_at input position w \<and> length w = len \<and> p = position + len"
  using assms
  by (auto simp: read_slice_def result_simps checked_add_usize_Some slice_get_def stands_at_def min_def
      split: if_splits dest: arg_cong [of _ _ length])

section \<open>Heads\<close>

lemma head_byte_split: "push_bit 5 (drop_bit 5 i) OR (i AND 0x1f) = (i :: byte)"
proof -
  have mask: "(31 :: byte) = mask 5" by (simp add: mask_eq_exp_minus_1)
  show ?thesis unfolding mask by (rule bit_word_eqI) (auto simp: bit_simps)
qed

lemma head_byte_parts:
  assumes "m < (8 :: byte)" and "x < 32"
  shows "drop_bit 5 (push_bit 5 m OR x) = m" and "(push_bit 5 m OR x) AND 0x1f = x"
proof -
  have mask: "(31 :: byte) = mask 5" by (simp add: mask_eq_exp_minus_1)
  have m: "take_bit 3 m = m" using assms(1) by (simp add: word_unat_eq_iff take_bit_eq_mod unat_mod word_less_nat_alt)
  have x: "take_bit 5 x = x" using assms(2) by (simp add: word_unat_eq_iff take_bit_eq_mod unat_mod word_less_nat_alt)
  have bm: "bit m n \<Longrightarrow> n < 3" for n by (subst (asm) m [symmetric]) (simp add: bit_simps)
  have bx: "bit x n \<Longrightarrow> n < 5" for n by (subst (asm) x [symmetric]) (simp add: bit_simps)
  show "drop_bit 5 (push_bit 5 m OR x) = m"
    by (rule bit_word_eqI) (auto simp: bit_simps dest: bm bx)
  show "(push_bit 5 m OR x) AND 0x1f = x"
    unfolding mask by (rule bit_word_eqI) (auto simp: bit_simps dest: bm bx)
qed

text \<open>The argument of a head decides its width; the widths are the ones the strict reader insists on.\<close>

lemma read_uint_stands:
  assumes "length input \<le> usize_max" and "position \<le> length input" and "n \<le> 8"
  shows "read_uint input position n = Inr (a, p) \<longleftrightarrow>
     unat a < 256 ^ n \<and> stands_at input position (to_be_bytes n a) \<and> p = position + n"
proof -
  have "unat (from_be_bytes w) < 256 ^ n" if "length w = n" for w
    using that assms(3) be_nat_less [of w] by (simp add: unat_from_be_bytes)
  then show ?thesis
    using from_to_be_bytes [OF assms(3)] to_from_be_bytes [of _ n] assms(3)
    by (auto simp: read_uint_def result_simps read_slice_stands [OF assms(1,2)])
qed

lemma encode_head_length: "length (encode_head m a) \<ge> 1"
  by (simp add: encode_head_def Let_def)

lemma encode_head_nonempty [simp]: "encode_head m a \<noteq> []"
  using encode_head_length [of m a] by auto

definition width :: "u64 \<Rightarrow> byte" where
  "width a = (if a < 24 then ucast a else if a \<le> 0xff then 24 else if a \<le> 0xffff then 25
     else if a \<le> 0xffffffff then 26 else 27)"

definition head_tail :: "u64 \<Rightarrow> bytes" where
  "head_tail a = (if a < 24 then [] else if a \<le> 0xff then [ucast a] else if a \<le> 0xffff then to_be_bytes 2 a
     else if a \<le> 0xffffffff then to_be_bytes 4 a else to_be_bytes 8 a)"

lemma encode_head_width: "encode_head m a = (push_bit 5 m OR width a) # head_tail a"
  by (simp add: encode_head_def width_def head_tail_def Let_def)

lemma unat_ucast_byte: "a \<le> 0xff \<Longrightarrow> unat (ucast (a :: u64) :: byte) = unat a"
  by (simp add: unsigned_ucast_eq take_bit_eq_mod word_le_nat_alt)

lemma unat_ucast_u64 [simp]: "unat (ucast (x :: byte) :: u64) = unat x"
proof -
  have "unat x < 256" using unsigned_less [of x, where ?'a = nat] by simp
  then show ?thesis by (simp add: unsigned_ucast_eq take_bit_eq_mod)
qed

lemma ucast_ucast_byte [simp]: "ucast (ucast (x :: byte) :: u64) = x"
proof -
  have "unat x < 256" using unsigned_less [of x, where ?'a = nat] by simp
  then show ?thesis by (simp add: word_unat_eq_iff unat_ucast_byte word_le_nat_alt)
qed

lemma width_less: "width a < 32"
  using unat_ucast_byte [of a] by (auto simp: width_def word_less_nat_alt word_le_nat_alt)

lemma width_small: "a < 24 \<Longrightarrow> width a \<le> 23"
  using unat_ucast_byte [of a] by (auto simp: width_def word_less_nat_alt word_le_nat_alt)

lemma read_argument_sound:
  assumes "length input \<le> usize_max" and "position \<le> length input"
    and "read_argument input position x = Inr (a, p)"
  shows "x = width a \<and> stands_at input position (head_tail a) \<and> p = position + length (head_tail a)"
proof -
  note r = read_uint_stands [OF assms(1,2)]
  note n = word_less_nat_alt word_le_nat_alt
  consider "x \<le> 23" | "x = 24" | "x = 25" | "x = 26" | "x = 27"
    using assms(3) by (auto simp: read_argument_def split: if_splits)
  then show ?thesis
  proof cases
    case 1
    then have "a = ucast x" "p = position" using assms(3) by (auto simp: read_argument_def)
    with 1 show ?thesis by (simp add: width_def head_tail_def n)
  next
    case 2
    then obtain b where b: "stands_at input position [b]" "p = position + 1" "a = ucast b" "\<not> a < 24"
      using assms(3) by (auto simp: read_argument_def result_simps read_byte_stands at_least_def split: if_splits)
    have "unat b < 256" using unsigned_less [of b, where ?'a = nat] by simp
    with b 2 show ?thesis by (simp add: width_def head_tail_def n)
  next
    case 3
    then show ?thesis using assms(3)
      by (auto simp: read_argument_def result_simps r at_least_def width_def head_tail_def n split: if_splits)
  next
    case 4
    then show ?thesis using assms(3)
      by (auto simp: read_argument_def result_simps r at_least_def width_def head_tail_def n split: if_splits)
  next
    case 5
    then show ?thesis using assms(3)
      by (auto simp: read_argument_def result_simps r at_least_def width_def head_tail_def n split: if_splits)
  qed
qed

lemma read_argument_complete:
  assumes "length input \<le> usize_max" and "position \<le> length input" and "stands_at input position (head_tail a)"
  shows "read_argument input position (width a) = Inr (a, position + length (head_tail a))"
proof -
  note r = read_uint_stands [OF assms(1,2)]
  note n = word_less_nat_alt word_le_nat_alt
  consider "a < 24" | "24 \<le> a" "a \<le> 0xff" | "0xff < a" "a \<le> 0xffff" | "0xffff < a" "a \<le> 0xffffffff"
    | "0xffffffff < a" by fastforce
  then show ?thesis
  proof cases
    case 1
    then have "width a \<le> 23" by (rule width_small)
    moreover have "ucast (width a) = a" using 1 unat_ucast_byte [of a]
      by (simp add: width_def word_unat_eq_iff n)
    ultimately show ?thesis using 1 by (simp add: read_argument_def head_tail_def)
  next
    case 2
    then have w: "width a = 24" and h: "head_tail a = [ucast a]" by (auto simp: width_def head_tail_def n)
    have "ucast (ucast a :: byte) = a" using 2 by (simp add: word_unat_eq_iff unat_ucast_byte)
    moreover have "read_byte input position = Inr (ucast a, position + 1)"
      using assms(3) by (simp add: h read_byte_stands)
    ultimately show ?thesis using 2 by (simp add: w h read_argument_def at_least_def not_less)
  next
    case 3
    then have w: "width a = 25" and h: "head_tail a = to_be_bytes 2 a" by (auto simp: width_def head_tail_def n)
    have "read_uint input position 2 = Inr (a, position + 2)" using assms(3) 3 by (simp add: r h n)
    with 3 show ?thesis by (simp add: w h read_argument_def at_least_def n)
  next
    case 4
    then have w: "width a = 26" and h: "head_tail a = to_be_bytes 4 a" by (auto simp: width_def head_tail_def n)
    have "read_uint input position 4 = Inr (a, position + 4)" using assms(3) 4 by (simp add: r h n)
    with 4 show ?thesis by (simp add: w h read_argument_def at_least_def n)
  next
    case 5
    then have w: "width a = 27" and h: "head_tail a = to_be_bytes 8 a" by (auto simp: width_def head_tail_def n)
    have "unat a < 256 ^ 8" using unsigned_less [of a, where ?'a = nat] by simp
    then have "read_uint input position 8 = Inr (a, position + 8)" using assms(3) by (simp add: r h)
    with 5 show ?thesis by (simp add: w h read_argument_def at_least_def n)
  qed
qed

lemma encode_read_argument_strict:
  "read_argument input position x = Inr r \<Longrightarrow> encode_read_argument input position x = Inr r"
  by (cases r) (auto simp: read_argument_def encode_read_argument_def result_simps at_least_def split: if_splits)

text \<open>What a reader that starts at a head sees.\<close>

lemma at_head:
  assumes "length input \<le> usize_max" and "m < 8" and "stands_at input position (encode_head m a)"
  obtains i where "read_byte input position = Inr (i, position + 1)" and "drop_bit 5 i = m"
    and "read_argument input (position + 1) (i AND 0x1f) = Inr (a, position + length (encode_head m a))"
proof
  let ?i = "push_bit 5 m OR width a"
  have s: "position < length input" "stands_at input position [?i]" "stands_at input (position + 1) (head_tail a)"
    using assms(3) by (auto simp: encode_head_width stands_at_Cons)
  then show "read_byte input position = Inr (?i, position + 1)" by (simp add: read_byte_stands)
  show "drop_bit 5 ?i = m" by (rule head_byte_parts(1) [OF assms(2) width_less])
  show "read_argument input (position + 1) (?i AND 0x1f) = Inr (a, position + length (encode_head m a))"
    unfolding head_byte_parts(2) [OF assms(2) width_less]
    using read_argument_complete [OF assms(1) _ s(3)] s(1) by (simp add: encode_head_width)
qed

lemma is_head:
  assumes "length input \<le> usize_max" and "read_byte input position = Inr (i, q)"
    and "read_argument input q (i AND 0x1f) = Inr (a, p)"
  shows "stands_at input position (encode_head (drop_bit 5 i) a) \<and> p = position + length (encode_head (drop_bit 5 i) a)"
proof -
  from assms(2) have i: "stands_at input position [i]" "q = position + 1" by (auto simp: read_byte_stands)
  then have "q \<le> length input" by (auto simp: stands_at_Cons)
  from read_argument_sound [OF assms(1) this assms(3)]
  have a: "i AND 0x1f = width a" "stands_at input q (head_tail a)" "p = q + length (head_tail a)" by auto
  have "encode_head (drop_bit 5 i) a = i # head_tail a"
    unfolding encode_head_width a(1) [symmetric] by (simp only: head_byte_split)
  with i a show ?thesis by (simp add: stands_at_Cons)
qed

section \<open>Data items\<close>

datatype cbor =
    UInt u64
  | NInt u64
  | Bytes bytes
  | Text bytes
  | Array "cbor list"
  | Map "(cbor \<times> cbor) list"
  | Tag u64 cbor
  | Simple byte

primrec cbor_bytes :: "cbor \<Rightarrow> bytes" where
  "cbor_bytes (UInt n) = encode_head 0 n"
| "cbor_bytes (NInt n) = encode_head 1 n"
| "cbor_bytes (Bytes b) = encode_head 2 (of_nat (length b)) @ b"
| "cbor_bytes (Text b) = encode_head 3 (of_nat (length b)) @ b"
| "cbor_bytes (Array vs) = encode_head 4 (of_nat (length vs)) @ concat (map cbor_bytes vs)"
| "cbor_bytes (Map es) = encode_head 5 (of_nat (length es))
     @ concat (map (\<lambda>e. fst e @ snd e) (map (map_prod cbor_bytes cbor_bytes) es))"
| "cbor_bytes (Tag t v) = encode_head 6 t @ cbor_bytes v"
| "cbor_bytes (Simple s) = (if s \<le> 23 then [0xE0 OR s] else [0xF8, s])"

primrec cbor_items :: "cbor \<Rightarrow> nat" where
  "cbor_items (UInt n) = 1"
| "cbor_items (NInt n) = 1"
| "cbor_items (Bytes b) = 1"
| "cbor_items (Text b) = 1"
| "cbor_items (Array vs) = 1 + sum_list (map cbor_items vs)"
| "cbor_items (Map es) = 1 + sum_list (map (\<lambda>e. fst e + snd e) (map (map_prod cbor_items cbor_items) es))"
| "cbor_items (Tag t v) = 1 + cbor_items v"
| "cbor_items (Simple s) = 1"

fun within :: "(nat list \<Rightarrow> nat list) \<Rightarrow> parser_limits \<Rightarrow> bool \<Rightarrow> nat \<Rightarrow> cbor \<Rightarrow> bool" where
  "within nfc L ordered d (Bytes b) \<longleftrightarrow> length b \<le> max_text_or_bytes L"
| "within nfc L ordered d (Text b) \<longleftrightarrow> length b \<le> max_text_or_bytes L \<and> (\<exists>cs. utf8_chars b = Some cs \<and> nfc cs = cs)"
| "within nfc L ordered d (Array vs) \<longleftrightarrow> d < max_depth L \<and> length vs \<le> max_container_items L
     \<and> (\<forall>v \<in> set vs. within nfc L ordered (d + 1) v)"
| "within nfc L ordered d (Map es) \<longleftrightarrow> d < max_depth L \<and> length es \<le> max_container_items L
     \<and> (\<forall>e \<in> set es. within nfc L ordered (d + 1) (fst e) \<and> within nfc L ordered (d + 1) (snd e))
     \<and> (ordered \<longrightarrow> sorted_wrt (<) (map (\<lambda>e. cbor_bytes (fst e)) es))"
| "within nfc L ordered d (Tag t v) \<longleftrightarrow> d < max_depth L \<and> within nfc L ordered (d + 1) v"
| "within nfc L ordered d (Simple s) \<longleftrightarrow> s \<le> 23 \<or> 32 \<le> s"
| "within nfc L ordered d _ \<longleftrightarrow> True"

section \<open>The scanner at a head\<close>

definition scan_body where
  "scan_body nfc L enforce input d m a q items =
     (if m = 0 \<or> m = 1 then Inr (q, items)
      else if m = 2 \<or> m = 3 then
        bindE (reject_if (a > max_text_or_bytes L) ItemLimit) (\<lambda>_.
        bindE (read_slice input q a) (\<lambda>(payload, p).
        bindE (if m = 3 then check_text nfc payload else Inr ()) (\<lambda>_. Inr (p, items))))
      else if m = 4 then
        bindE (reject_if (a > max_container_items L) ContainerLimit) (\<lambda>_.
        bindE (check_container_depth L d) (\<lambda>_. scan_items nfc L enforce input (d + 1) a q items))
      else if m = 5 then
        bindE (reject_if (a > max_container_items L) ContainerLimit) (\<lambda>_.
        bindE (check_container_depth L d) (\<lambda>_. scan_entries nfc L enforce input (d + 1) a None q items))
      else bindE (check_container_depth L d) (\<lambda>_. scan_item nfc L enforce input (d + 1) q items))"

lemma bindE_assoc: "bindE (bindE r f) g = bindE r (\<lambda>x. bindE (f x) g)"
  by (cases r) simp_all

lemma bindE_case_prod: "bindE (case x of (a, b) \<Rightarrow> f a b) g = (case x of (a, b) \<Rightarrow> bindE (f a b) g)"
  by (cases x) simp

lemma major_cases:
  assumes "(m :: byte) < 8"
  obtains "m = 0" | "m = 1" | "m = 2" | "m = 3" | "m = 4" | "m = 5" | "m = 6" | "m = 7"
proof -
  have "unat m < 8" using assms by (simp add: word_less_nat_alt)
  then have "unat m \<in> {0, 1, 2, 3, 4, 5, 6, 7}" by auto
  then show ?thesis using that by (auto simp: word_unat_eq_iff)
qed

lemma major_less: "drop_bit 5 (i :: byte) < 8"
proof -
  have "unat i < 256" using unsigned_less [of i, where ?'a = nat] by simp
  then show ?thesis by (simp add: word_less_nat_alt drop_bit_eq_div unat_div)
qed

lemma usize_u64 [simp]: "unat (a :: u64) \<le> usize_max"
  using unsigned_less [of a, where ?'a = nat] by (simp add: usize_max_def)

lemma scan_at_head:
  assumes "length input \<le> usize_max" and "m < 7" and "stands_at input position (encode_head m a)"
  shows "scan_item nfc L enforce input d position n =
     bindE (count_item L n) (scan_body nfc L enforce input d m (unat a) (position + length (encode_head m a)))"
proof -
  from assms(2) have m: "m < 8" "m \<noteq> 7" by (auto simp: word_less_nat_alt)
  obtain i where i: "read_byte input position = Inr (i, position + 1)" "drop_bit 5 i = m"
    "read_argument input (position + 1) (i AND 0x1f) = Inr (a, position + length (encode_head m a))"
    by (rule at_head [OF assms(1) m(1) assms(3)])
  note d = scan_string_def scan_body_def read_length_def read_container_length_def reject_if_def bindE_assoc
    bindE_case_prod
  show ?thesis
    by (cases "count_item L n", (subst scan_item.simps, simp), subst scan_item.simps, rule major_cases [OF m(1)])
      (simp_all add: i [simplified] m(2) d)
qed

definition fits :: "parser_limits \<Rightarrow> bytes \<Rightarrow> bool" where
  "fits L input \<longleftrightarrow> length input \<le> usize_max \<and> max_total_items L \<le> usize_max \<and> has_nonzero_security_budgets L"

lemma count_item_Inr:
  "fits L input \<Longrightarrow> count_item L n = Inr c \<longleftrightarrow> c = n + 1 \<and> c \<le> max_total_items L"
  by (auto simp: count_item_def fits_def result_simps checked_add_usize_Some)

lemma simple_head:
  assumes "stands_at input position (cbor_bytes (Simple s))" and "s \<le> 23 \<or> 32 \<le> s"
  shows "scan_item nfc L enforce input d position n =
     bindE (count_item L n) (\<lambda>items. Inr (position + length (cbor_bytes (Simple s)), items))"
proof (cases "s \<le> 23")
  case True
  then have s: "s < 32" by (simp add: word_less_nat_alt word_le_nat_alt)
  have "0xE0 = push_bit 5 (7 :: byte)" by simp
  then have p: "drop_bit 5 (0xE0 OR s) = 7" "(0xE0 OR s) AND 31 = s"
    using head_byte_parts [of 7 s, OF _ s] by simp_all
  from True assms(1) have "read_byte input position = Inr (0xE0 OR s, position + 1)" by (simp add: read_byte_stands)
  with True p show ?thesis
    by (cases "count_item L n", (subst scan_item.simps, simp), subst scan_item.simps) (simp_all add: scan_simple_def)
next
  case False
  then have "stands_at input position [0xF8]" "stands_at input (position + 1) [s]"
    using assms(1) by (simp_all add: stands_at_Cons)
  then have "read_byte input position = Inr (0xF8, position + 1)" "read_byte input (position + 1) = Inr (s, position + 2)"
    by (simp_all add: read_byte_stands)
  moreover have "\<not> s \<le> 31" using False assms(2) by (simp add: word_le_nat_alt)
  ultimately show ?thesis using False
    by (cases "count_item L n", (subst scan_item.simps, simp), subst scan_item.simps) (simp_all add: scan_simple_def)
qed

lemma scan_item_Inr:
  assumes fit: "fits L input" and ok: "scan_item nfc L enforce input d position n = Inr (p, n')"
  obtains (head) m a where "m < 7" and "stands_at input position (encode_head m a)"
      and "scan_body nfc L enforce input d m (unat a) (position + length (encode_head m a)) (n + 1) = Inr (p, n')"
      and "n + 1 \<le> max_total_items L"
    | (simple) s where "stands_at input position (cbor_bytes (Simple s))" and "s \<le> 23 \<or> 32 \<le> s"
      and "p = position + length (cbor_bytes (Simple s))" and "n' = n + 1" and "n + 1 \<le> max_total_items L"
proof -
  from fit have len: "length input \<le> usize_max" by (simp add: fits_def)
  from ok obtain c where c: "count_item L n = Inr c" by (subst (asm) scan_item.simps) (auto simp: result_simps)
  then have n: "c = n + 1" "n + 1 \<le> max_total_items L" using count_item_Inr [OF fit, of n c] by auto
  from ok c obtain i q where i: "read_byte input position = Inr (i, q)"
    by (subst (asm) scan_item.simps) (auto simp: result_simps)
  let ?m = "drop_bit 5 i" and ?x = "i AND 0x1f"
  show ?thesis
  proof (cases "?m = 7")
    case False
    with major_less [of i] have m7: "?m < 7" by (auto simp: word_less_nat_alt word_unat_eq_iff)
    have m6: "?m = 0 \<or> ?m = 1 \<or> ?m = 2 \<or> ?m = 3 \<or> ?m = 4 \<or> ?m = 5 \<or> ?m = 6"
      by (rule major_cases [OF major_less [of i]]) (use False in auto)
    obtain a r where "read_argument input q ?x = Inr (a, r)"
      using ok c i m6
      by (subst (asm) scan_item.simps) (auto simp: result_simps Let_def scan_string_def read_length_def
          read_container_length_def split: if_splits)
    with is_head [OF len i] have st: "stands_at input position (encode_head ?m a)" by blast
    with scan_at_head [OF len m7 st] ok c n m7 show ?thesis by (intro head [of ?m a]) auto
  next
    case True
    with ok c i n have sc: "scan_simple input q ?x = Inr p" "n' = n + 1"
      by (subst (asm) scan_item.simps, auto simp: result_simps)+
    have i7: "0xE0 OR ?x = i" using head_byte_split [of i] True by simp
    from i have b: "stands_at input position [i]" "q = position + 1" by (simp_all add: read_byte_stands)
    show ?thesis
    proof (cases "?x \<le> 23")
      case True
      with sc(1) b i7 n sc(2) show ?thesis by (intro simple [of ?x]) (simp_all add: scan_simple_def)
    next
      case False
      then have x: "?x = 24" using sc(1) by (auto simp: scan_simple_def split: if_splits)
      with sc(1) obtain v where v: "stands_at input q [v]" "p = q + 1" "\<not> v \<le> 23" "\<not> v \<le> 31"
        by (auto simp: scan_simple_def result_simps read_byte_stands split: if_splits)
      have "i = 0xF8" using i7 x by simp
      with v b n sc(2) show ?thesis by (intro simple [of v]) (auto simp: stands_at_Cons word_le_nat_alt)
    qed
  qed
qed

section \<open>The scanner accepts exactly the items within the limits\<close>

lemma scan_items_unfold [simp]:
  "scan_items nfc L enforce input d 0 position n = Inr (position, n)"
  "scan_items nfc L enforce input d (Suc k) position n =
     bindE (scan_item nfc L enforce input d position n) (\<lambda>(p, m). scan_items nfc L enforce input d k p m)"
  by (subst scan_items.simps, simp)+

lemma scan_entries_unfold [simp]:
  "scan_entries nfc L enforce input d 0 previous position n = Inr (position, n)"
  "scan_entries nfc L enforce input d (Suc k) previous position n =
     bindE (scan_item nfc L enforce input d position n) (\<lambda>(q, m).
     bindE (if enforce then check_key_order input previous (position, q) else Inr ()) (\<lambda>_.
     bindE (scan_item nfc L enforce input d q m) (\<lambda>(p, m).
       scan_entries nfc L enforce input d k (if enforce then Some (position, q) else previous) p m)))"
  by (subst scan_entries.simps, simp)+

definition scans_to where
  "scans_to nfc L enforce input d position n p n' v \<longleftrightarrow> within nfc L enforce d v \<and> stands_at input position (cbor_bytes v)
     \<and> p = position + length (cbor_bytes v) \<and> n' = n + cbor_items v"

lemma scan_items_sound:
  assumes item: "\<And>position n p n'. scan_item nfc L enforce input d position n = Inr (p, n') \<Longrightarrow>
      \<exists>v. scans_to nfc L enforce input d position n p n' v"
    and "scan_items nfc L enforce input d k position n = Inr (p, n')"
  shows "\<exists>vs. length vs = k \<and> (\<forall>v \<in> set vs. within nfc L enforce d v) \<and> stands_at input position (concat (map cbor_bytes vs))
     \<and> p = position + length (concat (map cbor_bytes vs)) \<and> n' = n + sum_list (map cbor_items vs)"
  using assms(2)
proof (induction k arbitrary: position n)
  case 0
  then show ?case by (intro exI [of _ "[]"]) simp
next
  case (Suc k)
  then obtain q m where q: "scan_item nfc L enforce input d position n = Inr (q, m)"
    and r: "scan_items nfc L enforce input d k q m = Inr (p, n')"
    by (auto simp: result_simps)
  from item [OF q] obtain v where v: "scans_to nfc L enforce input d position n q m v" by blast
  from Suc.IH [OF r] obtain vs where vs: "length vs = k" "\<forall>v \<in> set vs. within nfc L enforce d v"
    "stands_at input q (concat (map cbor_bytes vs))" "p = q + length (concat (map cbor_bytes vs))"
    "n' = m + sum_list (map cbor_items vs)" by blast
  with v show ?case by (intro exI [of _ "v # vs"]) (simp add: scans_to_def stands_at_append)
qed

abbreviation key_of :: "cbor \<times> cbor \<Rightarrow> bytes" where "key_of e \<equiv> cbor_bytes (fst e)"

abbreviation entries_bytes :: "(cbor \<times> cbor) list \<Rightarrow> bytes" where
  "entries_bytes es \<equiv> concat (map (\<lambda>e. fst e @ snd e) (map (map_prod cbor_bytes cbor_bytes) es))"

abbreviation entries_items :: "(cbor \<times> cbor) list \<Rightarrow> nat" where
  "entries_items es \<equiv> sum_list (map (\<lambda>e. fst e + snd e) (map (map_prod cbor_items cbor_items) es))"

definition key_before :: "bytes \<Rightarrow> (nat \<times> nat) option \<Rightarrow> bytes list" where
  "key_before input previous = (case previous of None \<Rightarrow> [] | Some (a, b) \<Rightarrow> [slice input a b])"

lemma check_key_order_Inr:
  "check_key_order input previous key = Inr () \<longleftrightarrow> sorted_wrt (<) (key_before input previous @ [slice input (fst key) (snd key)])"
  by (auto simp: check_key_order_def key_before_def deterministic_key_cmp_def split: option.splits ordering.splits)

lemma sorted_wrt_snoc_less:
  fixes k :: "'a::order"
  shows "length xs \<le> 1 \<Longrightarrow> sorted_wrt (<) (xs @ k # ys) \<longleftrightarrow> sorted_wrt (<) (xs @ [k]) \<and> sorted_wrt (<) (k # ys)"
  by (cases xs) (auto intro: less_trans)

lemma scan_entries_sound:
  assumes item: "\<And>position n p n'. scan_item nfc L enforce input d position n = Inr (p, n') \<Longrightarrow>
      \<exists>v. scans_to nfc L enforce input d position n p n' v"
    and "scan_entries nfc L enforce input d k previous position n = Inr (p, n')"
  shows "\<exists>es. length es = k \<and> (\<forall>e \<in> set es. within nfc L enforce d (fst e) \<and> within nfc L enforce d (snd e))
     \<and> (enforce \<longrightarrow> sorted_wrt (<) (key_before input previous @ map key_of es))
     \<and> stands_at input position (entries_bytes es) \<and> p = position + length (entries_bytes es) \<and> n' = n + entries_items es"
  using assms(2)
proof (induction k arbitrary: previous position n)
  case 0
  then show ?case
    by (intro exI [of _ "[]"]) (auto simp: key_before_def split: option.splits)
next
  case (Suc k)
  obtain q m where q: "scan_item nfc L enforce input d position n = Inr (q, m)"
    using Suc.prems by (cases "scan_item nfc L enforce input d position n") auto
  have o: "(if enforce then check_key_order input previous (position, q) else Inr ()) = Inr ()"
    using Suc.prems q by (cases "if enforce then check_key_order input previous (position, q) else Inr ()") auto
  obtain q' m' where q': "scan_item nfc L enforce input d q m = Inr (q', m')"
    using Suc.prems q o by (cases "scan_item nfc L enforce input d q m") auto
  have r: "scan_entries nfc L enforce input d k (if enforce then Some (position, q) else previous) q' m' = Inr (p, n')"
    using Suc.prems by (simp only: scan_entries_unfold q o q' bindE_simps prod.case)
  from item [OF q] obtain key where key: "scans_to nfc L enforce input d position n q m key" by blast
  from item [OF q'] obtain v where v: "scans_to nfc L enforce input d q m q' m' v" by blast
  from Suc.IH [OF r] obtain es where es: "length es = k"
    "\<forall>e \<in> set es. within nfc L enforce d (fst e) \<and> within nfc L enforce d (snd e)"
    "enforce \<longrightarrow> sorted_wrt (<) (key_before input (if enforce then Some (position, q) else previous) @ map key_of es)"
    "stands_at input q' (entries_bytes es)" "p = q' + length (entries_bytes es)" "n' = m' + entries_items es"
    by blast
  have sl: "slice input position q = cbor_bytes key"
    using key slice_stands_at unfolding scans_to_def by blast
  have one: "length (key_before input previous) \<le> 1" by (simp add: key_before_def split: option.splits)
  have "sorted_wrt (<) (key_before input previous @ map key_of ((key, v) # es))" if enforce
  proof -
    have "sorted_wrt (<) (key_before input previous @ [cbor_bytes key])"
      using o that by (simp add: check_key_order_Inr sl)
    moreover have "sorted_wrt (<) (cbor_bytes key # map key_of es)"
      using es(3) that by (simp add: key_before_def [of _ "Some _"] sl)
    ultimately show ?thesis using sorted_wrt_snoc_less [OF one, of "cbor_bytes key" "map key_of es"] by simp
  qed
  with key v es show ?case
    by (intro exI [of _ "(key, v) # es"]) (simp add: scans_to_def stands_at_append add.assoc)
qed

lemma scan_leaf_sound:
  assumes len: "length input \<le> usize_max" and head: "stands_at input position (encode_head m a)"
    and m: "m = 0 \<or> m = 1 \<or> m = 2 \<or> m = 3"
    and ok: "scan_body nfc L enforce input d m (unat a) (position + length (encode_head m a)) (n + 1) = Inr (p, n')"
  shows "\<exists>v. scans_to nfc L enforce input d position n p n' v"
proof (cases "m = 0 \<or> m = 1")
  case True
  with ok head show ?thesis
    by (intro exI [of _ "if m = 0 then UInt a else NInt a"]) (auto simp: scans_to_def scan_body_def)
next
  case False
  let ?q = "position + length (encode_head m a)"
  have q: "?q \<le> length input" using stands_at_bound [OF head] by simp
  from False m have m: "m \<noteq> 0" "m \<noteq> 1" "m = 2 \<or> m = 3" by auto
  then have "bindE (reject_if (unat a > max_text_or_bytes L) ItemLimit) (\<lambda>_.
      bindE (read_slice input ?q (unat a)) (\<lambda>(payload, p).
      bindE (if m = 3 then check_text nfc payload else Inr ()) (\<lambda>_. Inr (p, n + 1)))) = Inr (p, n')"
    using ok by (simp add: scan_body_def)
  note eq = this
  have max: "unat a \<le> max_text_or_bytes L"
    using eq by (cases "unat a \<le> max_text_or_bytes L") (simp_all add: not_le)
  obtain b t where t: "read_slice input ?q (unat a) = Inr (b, t)"
    using eq max by (cases "read_slice input ?q (unat a)") (auto simp: not_less [symmetric])
  have r: "(if m = 3 then check_text nfc b else Inr ()) = Inr () \<and> t = p \<and> n' = n + 1"
    using eq max t by (cases "if m = 3 then check_text nfc b else Inr ()") (simp_all add: not_less [symmetric])
  from t r have b: "stands_at input ?q b" "length b = unat a" "p = ?q + length b"
    by (auto simp: read_slice_stands [OF len q])
  have a: "of_nat (length b) = a" using b(2) by simp
  show ?thesis
  proof (cases "m = 3")
    case True
    with b r max head a show ?thesis
      by (intro exI [of _ "Text b"]) (auto simp: scans_to_def stands_at_append check_text_def result_simps)
  next
    case False
    with b r max head a m(3) show ?thesis
      by (intro exI [of _ "Bytes b"]) (auto simp: scans_to_def stands_at_append)
  qed
qed

lemma scan_container_sound:
  assumes head: "stands_at input position (encode_head m a)" and m: "m = 4 \<or> m = 5 \<or> m = 6"
    and ok: "scan_body nfc L enforce input d m (unat a) (position + length (encode_head m a)) (n + 1) = Inr (p, n')"
    and deeper: "\<And>q m r m'. d < max_depth L \<Longrightarrow> scan_item nfc L enforce input (d + 1) q m = Inr (r, m') \<Longrightarrow>
      \<exists>v. scans_to nfc L enforce input (d + 1) q m r m' v"
  shows "\<exists>v. scans_to nfc L enforce input d position n p n' v"
proof -
  let ?q = "position + length (encode_head m a)"
  have lim: "d < max_depth L" using ok m by (auto simp: scan_body_def result_simps check_container_depth_def)
  have big: "unat a \<le> max_container_items L" if "m \<noteq> 6" using ok m that by (auto simp: scan_body_def result_simps)
  have a: "of_nat (unat a) = a" by simp
  from m show ?thesis
  proof (elim disjE)
    assume m: "m = 4"
    with ok have "scan_items nfc L enforce input (d + 1) (unat a) ?q (n + 1) = Inr (p, n')"
      by (simp add: scan_body_def result_simps)
    from scan_items_sound [OF deeper [OF lim] this] obtain vs where
      "length vs = unat a" "\<forall>v \<in> set vs. within nfc L enforce (d + 1) v"
      "stands_at input ?q (concat (map cbor_bytes vs))" "p = ?q + length (concat (map cbor_bytes vs))"
      "n' = n + 1 + sum_list (map cbor_items vs)" by blast
    with m head lim big a show ?thesis by (intro exI [of _ "Array vs"]) (auto simp: scans_to_def stands_at_append)
  next
    assume m: "m = 5"
    with ok have "scan_entries nfc L enforce input (d + 1) (unat a) None ?q (n + 1) = Inr (p, n')"
      by (simp add: scan_body_def result_simps)
    from scan_entries_sound [OF deeper [OF lim] this] obtain es where "length es = unat a"
      "\<forall>e \<in> set es. within nfc L enforce (d + 1) (fst e) \<and> within nfc L enforce (d + 1) (snd e)"
      "enforce \<longrightarrow> sorted_wrt (<) (map key_of es)" "stands_at input ?q (entries_bytes es)"
      "p = ?q + length (entries_bytes es)" "n' = n + 1 + entries_items es"
      unfolding key_before_def option.case append.simps by blast
    with m head lim big a show ?thesis by (intro exI [of _ "Map es"]) (auto simp: scans_to_def stands_at_append)
  next
    assume m: "m = 6"
    with ok have "scan_item nfc L enforce input (d + 1) ?q (n + 1) = Inr (p, n')"
      by (simp add: scan_body_def result_simps)
    with deeper [OF lim this] obtain v where "scans_to nfc L enforce input (d + 1) ?q (n + 1) p n' v" by blast
    with m head lim show ?thesis by (intro exI [of _ "Tag a v"]) (auto simp: scans_to_def stands_at_append)
  qed
qed

lemma scan_item_sound:
  assumes fit: "fits L input" and "scan_item nfc L enforce input d position n = Inr (p, n')"
  shows "\<exists>v. scans_to nfc L enforce input d position n p n' v"
  using assms(2)
proof (induction "max_depth L - d" arbitrary: d position n p n' rule: less_induct)
  case less
  have len: "length input \<le> usize_max" using fit by (simp add: fits_def)
  have deeper: "\<exists>v. scans_to nfc L enforce input (d + 1) q m r m' v"
    if "d < max_depth L" "scan_item nfc L enforce input (d + 1) q m = Inr (r, m')" for q m r m'
    using less.hyps [OF _ that(2)] that(1) by simp
  from fit less.prems show ?case
  proof (cases rule: scan_item_Inr)
    case (simple s)
    then show ?thesis by (intro exI [of _ "Simple s"]) (simp add: scans_to_def)
  next
    case (head m a)
    from head(1) have m: "m < 8" "m \<noteq> 7" by (auto simp: word_less_nat_alt)
    have "m = 0 \<or> m = 1 \<or> m = 2 \<or> m = 3 \<or> m = 4 \<or> m = 5 \<or> m = 6"
      by (rule major_cases [OF m(1)]) (use m(2) in auto)
    then consider "m = 0 \<or> m = 1 \<or> m = 2 \<or> m = 3" | "m = 4 \<or> m = 5 \<or> m = 6" by blast
    then show ?thesis
      using scan_leaf_sound [OF len head(2) _ head(3)] scan_container_sound [OF head(2) _ head(3) deeper] by cases blast+
  qed
qed

lemma cbor_bytes_nonempty: "cbor_bytes v \<noteq> []"
  by (cases v) auto

lemma cbor_items_pos: "cbor_items v \<ge> 1"
  by (cases v) auto

lemma scan_items_complete:
  assumes item: "\<And>v position n. v \<in> set vs \<Longrightarrow> stands_at input position (cbor_bytes v) \<Longrightarrow> n + cbor_items v \<le> max_total_items L \<Longrightarrow>
      scan_item nfc L enforce input d position n = Inr (position + length (cbor_bytes v), n + cbor_items v)"
    and "stands_at input position (concat (map cbor_bytes vs))" and "n + sum_list (map cbor_items vs) \<le> max_total_items L"
  shows "scan_items nfc L enforce input d (length vs) position n =
     Inr (position + length (concat (map cbor_bytes vs)), n + sum_list (map cbor_items vs))"
  using assms
proof (induction vs arbitrary: position n)
  case (Cons v vs)
  have "scan_item nfc L enforce input d position n = Inr (position + length (cbor_bytes v), n + cbor_items v)"
    using Cons.prems by (intro Cons.prems(1)) (auto simp: stands_at_append)
  moreover have "scan_items nfc L enforce input d (length vs) (position + length (cbor_bytes v)) (n + cbor_items v) =
     Inr (position + length (cbor_bytes v) + length (concat (map cbor_bytes vs)), n + cbor_items v + sum_list (map cbor_items vs))"
    using Cons.prems by (intro Cons.IH) (auto simp: stands_at_append)
  ultimately show ?case by (simp add: add.assoc)
qed simp

lemma scan_entries_complete:
  assumes item: "\<And>e v position n. e \<in> set es \<Longrightarrow> v = fst e \<or> v = snd e \<Longrightarrow> stands_at input position (cbor_bytes v) \<Longrightarrow>
      n + cbor_items v \<le> max_total_items L \<Longrightarrow>
      scan_item nfc L enforce input d position n = Inr (position + length (cbor_bytes v), n + cbor_items v)"
    and "stands_at input position (entries_bytes es)" and "n + entries_items es \<le> max_total_items L"
    and "enforce \<longrightarrow> sorted_wrt (<) (key_before input previous @ map key_of es)"
  shows "scan_entries nfc L enforce input d (length es) previous position n =
     Inr (position + length (entries_bytes es), n + entries_items es)"
  using assms
proof (induction es arbitrary: previous position n)
  case (Cons e es)
  let ?q = "position + length (cbor_bytes (fst e))" and ?m = "n + cbor_items (fst e)"
  let ?r = "?q + length (cbor_bytes (snd e))" and ?o = "?m + cbor_items (snd e)"
  have st: "stands_at input position (cbor_bytes (fst e))" "stands_at input ?q (cbor_bytes (snd e))"
    "stands_at input ?r (entries_bytes es)"
    using Cons.prems(2) by (simp_all add: stands_at_append add.assoc)
  have bd: "?m \<le> max_total_items L" "?o \<le> max_total_items L" "?o + entries_items es \<le> max_total_items L"
    using Cons.prems(3) by simp_all
  have key: "scan_item nfc L enforce input d position n = Inr (?q, ?m)"
    using Cons.prems(1) [of e "fst e"] st bd by simp
  have val: "scan_item nfc L enforce input d ?q ?m = Inr (?r, ?o)"
    using Cons.prems(1) [of e "snd e"] st bd by simp
  have sl: "slice input position ?q = cbor_bytes (fst e)" using st(1) by (rule slice_stands_at)
  have one: "length (key_before input previous) \<le> 1" by (simp add: key_before_def split: option.splits)
  have srt: "enforce \<longrightarrow> sorted_wrt (<) (key_before input previous @ [cbor_bytes (fst e)])
      \<and> sorted_wrt (<) (cbor_bytes (fst e) # map key_of es)"
    using Cons.prems(4) sorted_wrt_snoc_less [OF one, of "cbor_bytes (fst e)" "map key_of es"] by simp
  have ord: "(if enforce then check_key_order input previous (position, ?q) else Inr ()) = Inr ()"
    using srt by (simp add: check_key_order_Inr sl)
  have rest: "scan_entries nfc L enforce input d (length es) (if enforce then Some (position, ?q) else previous) ?r ?o =
      Inr (?r + length (entries_bytes es), ?o + entries_items es)"
  proof (rule Cons.IH)
    show "scan_item nfc L enforce input d position n = Inr (position + length (cbor_bytes v), n + cbor_items v)"
      if "e' \<in> set es" "v = fst e' \<or> v = snd e'" "stands_at input position (cbor_bytes v)"
        "n + cbor_items v \<le> max_total_items L" for e' v position n
      using Cons.prems(1) [of e' v position n] that by simp
    show "enforce \<longrightarrow> sorted_wrt (<) (key_before input (if enforce then Some (position, ?q) else previous) @ map key_of es)"
      using srt by (simp add: key_before_def [of _ "Some _"] sl)
  qed (use st(3) bd(3) in simp_all)
  have "scan_entries nfc L enforce input d (Suc (length es)) previous position n =
      Inr (?r + length (entries_bytes es), ?o + entries_items es)"
    by (simp only: scan_entries_unfold key bindE_simps prod.case ord val rest)
  then show ?case by (simp add: add.assoc del: scan_entries_unfold)
qed simp

lemma length_concat_bytes: "length vs \<le> length (concat (map cbor_bytes vs))"
proof (induction vs)
  case (Cons v vs)
  have "length (cbor_bytes v) \<ge> 1" using cbor_bytes_nonempty [of v] by (cases "cbor_bytes v") auto
  with Cons show ?case by simp
qed simp

lemma length_entries_bytes: "length es \<le> length (entries_bytes es)"
proof (induction es)
  case (Cons e es)
  have "length (cbor_bytes (fst e)) \<ge> 1" using cbor_bytes_nonempty [of "fst e"] by (cases "cbor_bytes (fst e)") auto
  with Cons show ?case by simp
qed simp

lemma unat_length:
  assumes "length input \<le> usize_max" and "stands_at input position w" and "n \<le> length w"
  shows "unat (of_nat n :: u64) = n"
proof -
  have "n \<le> length input" using stands_at_bound [OF assms(2)] assms(3) by (cases "w = []") auto
  with assms(1) have "n < 2 ^ 64" by (simp add: usize_max_def)
  then show ?thesis by (simp add: unat_of_nat)
qed

lemma scan_string_complete:
  assumes len: "length input \<le> usize_max" and m: "m = 2 \<or> m = 3" and "count_item L n = Inr c"
    and st: "stands_at input position (encode_head m (of_nat (length b)) @ b)" and "length b \<le> max_text_or_bytes L"
    and "m = 3 \<longrightarrow> check_text nfc b = Inr ()"
  shows "scan_item nfc L enforce input d position n =
     Inr (position + length (encode_head m (of_nat (length b)) @ b), c)"
proof -
  let ?h = "encode_head m (of_nat (length b))"
  from st have h: "stands_at input position ?h" and b: "stands_at input (position + length ?h) b"
    by (simp_all add: stands_at_append)
  have q: "position + length ?h \<le> length input" using stands_at_bound [OF h] by simp
  have "read_slice input (position + length ?h) (length b) = Inr (b, position + length ?h + length b)"
    using b by (simp add: read_slice_stands [OF len q])
  moreover have "m < 7" using m by auto
  ultimately show ?thesis
    using assms(3,5,6) m scan_at_head [OF len _ h] unat_length [OF len b order_refl]
    by (auto simp: scan_body_def add.assoc)
qed

lemma scan_array_complete:
  assumes len: "length input \<le> usize_max" and "count_item L n = Inr (n + 1)" and lim: "d < max_depth L"
    "length vs \<le> max_container_items L" and st: "stands_at input position (cbor_bytes (Array vs))"
    and items: "\<And>position. stands_at input position (concat (map cbor_bytes vs)) \<Longrightarrow>
      scan_items nfc L enforce input (d + 1) (length vs) position (n + 1) = Inr (position + length (concat (map cbor_bytes vs)), c)"
  shows "scan_item nfc L enforce input d position n = Inr (position + length (cbor_bytes (Array vs)), c)"
proof -
  let ?h = "encode_head 4 (of_nat (length vs))"
  from st have h: "stands_at input position ?h" and b: "stands_at input (position + length ?h) (concat (map cbor_bytes vs))"
    by (simp_all add: stands_at_append)
  show ?thesis
    using scan_at_head [OF len _ h] items [OF b] unat_length [OF len b length_concat_bytes] assms(2) lim
    by (simp add: scan_body_def check_container_depth_def add.assoc)
qed

lemma scan_map_complete:
  assumes len: "length input \<le> usize_max" and "count_item L n = Inr (n + 1)" and lim: "d < max_depth L"
    "length es \<le> max_container_items L" and st: "stands_at input position (cbor_bytes (Map es))"
    and items: "\<And>position. stands_at input position (entries_bytes es) \<Longrightarrow>
      scan_entries nfc L enforce input (d + 1) (length es) None position (n + 1) = Inr (position + length (entries_bytes es), c)"
  shows "scan_item nfc L enforce input d position n = Inr (position + length (cbor_bytes (Map es)), c)"
proof -
  let ?h = "encode_head 5 (of_nat (length es))"
  from st have h: "stands_at input position ?h" and b: "stands_at input (position + length ?h) (entries_bytes es)"
    by (simp_all add: stands_at_append)
  show ?thesis
    using scan_at_head [OF len _ h] items [OF b] unat_length [OF len b length_entries_bytes] assms(2) lim
    by (simp add: scan_body_def check_container_depth_def add.assoc)
qed

lemma scan_item_complete:
  assumes fit: "fits L input" and "within nfc L enforce d v" and "stands_at input position (cbor_bytes v)"
    and "n + cbor_items v \<le> max_total_items L"
  shows "scan_item nfc L enforce input d position n = Inr (position + length (cbor_bytes v), n + cbor_items v)"
proof -
  have len: "length input \<le> usize_max" using fit by (simp add: fits_def)
  have cnt: "count_item L n = Inr (n + 1)" if "n + cbor_items v \<le> max_total_items L" for n v
    using cbor_items_pos [of v] that by (simp add: count_item_Inr [OF fit])
  note head = scan_at_head [OF len]
  from assms(2-) show ?thesis
  proof (induction v arbitrary: d position n)
    case (UInt a)
    then show ?case using head [of 0 position a] cnt [OF UInt.prems(3)] by (simp add: scan_body_def)
  next
    case (NInt a)
    then show ?case using head [of 1 position a] cnt [OF NInt.prems(3)] by (simp add: scan_body_def)
  next
    case (Simple s)
    then show ?case using simple_head [of input position s] cnt [OF Simple.prems(3)] by simp
  next
    case (Tag t v)
    have st: "stands_at input position (encode_head 6 t)" using Tag.prems(2) by (simp add: stands_at_append)
    moreover have "scan_item nfc L enforce input (d + 1) (position + length (encode_head 6 t)) (n + 1) =
        Inr (position + length (encode_head 6 t) + length (cbor_bytes v), n + 1 + cbor_items v)"
      using Tag.prems by (intro Tag.IH) (simp_all add: stands_at_append)
    ultimately show ?case using Tag.prems(1) head [OF _ st] cnt [OF Tag.prems(3)]
      by (simp add: scan_body_def check_container_depth_def add.assoc)
  next
    case (Bytes b)
    then show ?case using scan_string_complete [OF len _ cnt [OF Bytes.prems(3)], of 2] by simp
  next
    case (Text b)
    then show ?case using scan_string_complete [OF len _ cnt [OF Text.prems(3)], of 3] by (auto simp: check_text_def)
  next
    case (Array vs)
    have "scan_items nfc L enforce input (d + 1) (length vs) p (n + 1) =
        Inr (p + length (concat (map cbor_bytes vs)), n + 1 + sum_list (map cbor_items vs))"
      if "stands_at input p (concat (map cbor_bytes vs))" for p
      using Array that by (intro scan_items_complete) auto
    from scan_array_complete [OF len cnt [OF Array.prems(3)] _ _ Array.prems(2) this] Array.prems(1) show ?case
      by (simp add: add.assoc)
  next
    case (Map es)
    have "scan_entries nfc L enforce input (d + 1) (length es) None p (n + 1) =
        Inr (p + length (entries_bytes es), n + 1 + entries_items es)"
      if "stands_at input p (entries_bytes es)" for p
    proof (rule scan_entries_complete)
      fix e v position n
      assume e: "e \<in> set es" "v = fst e \<or> v = snd e" and "stands_at input position (cbor_bytes v)"
        and "n + cbor_items v \<le> max_total_items L"
      moreover have "within nfc L enforce (d + 1) v" using Map.prems(1) e by auto
      moreover have member: "v \<in> Basic_BNFs.fsts e \<or> v \<in> Basic_BNFs.snds e"
        using e(2) by (auto simp: fsts.simps snds.simps)
      ultimately show "scan_item nfc L enforce input (d + 1) position n = Inr (position + length (cbor_bytes v), n + cbor_items v)"
        using Map.IH(1) [OF e(1), of v] Map.IH(2) [OF e(1), of v] member by blast
    qed (use that Map.prems in \<open>auto simp: key_before_def\<close>)
    from scan_map_complete [OF len cnt [OF Map.prems(3)] _ _ Map.prems(2) this] Map.prems(1) show ?case
      by (simp add: add.assoc)
  qed
qed

end
