(* ===== verification/EaCborCanonical.thy ===== *)
theory EaCborCanonical
  imports EaCborSpec
begin

text \<open>
  The canonical form of a data item and the contract of the CBOR crate: the encoder computes the canonical
  form, the decoder accepts exactly the canonical encodings, and every encoding stands for one item.
\<close>

section \<open>The canonical form\<close>

primrec canonical :: "cbor \<Rightarrow> cbor" where
  "canonical (UInt n) = UInt n"
| "canonical (NInt n) = NInt n"
| "canonical (Bytes b) = Bytes b"
| "canonical (Text b) = Text b"
| "canonical (Array vs) = Array (map canonical vs)"
| "canonical (Map es) = Map (sort_key key_of (map (map_prod canonical canonical) es))"
| "canonical (Tag t v) = Tag t (canonical v)"
| "canonical (Simple s) = Simple s"

primrec unique_keys :: "cbor \<Rightarrow> bool" where
  "unique_keys (UInt n) = True"
| "unique_keys (NInt n) = True"
| "unique_keys (Bytes b) = True"
| "unique_keys (Text b) = True"
| "unique_keys (Array vs) = list_all (\<lambda>b. b) (map unique_keys vs)"
| "unique_keys (Map es) = (list_all (\<lambda>e. fst e \<and> snd e) (map (map_prod unique_keys unique_keys) es)
     \<and> distinct (map (\<lambda>e. cbor_bytes (canonical (fst e))) es))"
| "unique_keys (Tag t v) = unique_keys v"
| "unique_keys (Simple s) = True"

lemma unique_keys_Array [simp]: "unique_keys (Array vs) \<longleftrightarrow> (\<forall>v \<in> set vs. unique_keys v)"
  by (simp add: list_all_iff)

lemma unique_keys_Map [simp]:
  "unique_keys (Map es) \<longleftrightarrow> (\<forall>e \<in> set es. unique_keys (fst e) \<and> unique_keys (snd e))
     \<and> distinct (map (\<lambda>e. cbor_bytes (canonical (fst e))) es)"
  by (simp add: list_all_iff)

declare unique_keys.simps(5,6) [simp del]

lemma cbor_induct [case_names UInt NInt Bytes Text Array Map Tag Simple]:
  assumes "\<And>n. P (UInt n)" and "\<And>n. P (NInt n)" and "\<And>b. P (Bytes b)" and "\<And>b. P (Text b)"
    and "\<And>vs. (\<And>v. v \<in> set vs \<Longrightarrow> P v) \<Longrightarrow> P (Array vs)"
    and map: "\<And>es. (\<And>e. e \<in> set es \<Longrightarrow> P (fst e) \<and> P (snd e)) \<Longrightarrow> P (Map es)"
    and "\<And>t v. P v \<Longrightarrow> P (Tag t v)" and "\<And>s. P (Simple s)"
  shows "P v"
proof (induction v)
  case (Map es)
  then have "P (fst e) \<and> P (snd e)" if "e \<in> set es" for e
    using Map [OF that] by (simp add: fsts.simps snds.simps)
  then show ?case by (rule map)
qed (use assms in blast)+

lemma length_entries: "length (entries_bytes es) = sum_list (map (\<lambda>e. length (key_of e) + length (cbor_bytes (snd e))) es)"
  by (induction es) auto

lemma entries_items_sum: "entries_items es = sum_list (map (\<lambda>e. cbor_items (fst e) + cbor_items (snd e)) es)"
  by (induction es) auto

lemma sum_list_sort_key: "sum_list (map f (sort_key g xs)) = sum_list (map f xs)" for f :: "'a \<Rightarrow> nat"
  by (metis mset_map mset_sort sum_mset_sum_list)

lemma distinct_map_sort_key: "distinct (map f (sort_key g xs)) \<longleftrightarrow> distinct (map f xs)"
  by (simp add: distinct_map)

lemma canonical_length [simp]: "length (cbor_bytes (canonical v)) = length (cbor_bytes v)"
proof (induction v rule: cbor_induct)
  case (Array vs)
  then show ?case by (auto simp: length_concat intro!: arg_cong [where f = sum_list])
next
  case (Map es)
  then have "map (\<lambda>e. length (key_of e) + length (cbor_bytes (snd e))) (map (map_prod canonical canonical) es) =
      map (\<lambda>e. length (key_of e) + length (cbor_bytes (snd e))) es" by simp
  then show ?case by (simp del: map_map add: length_entries sum_list_sort_key)
qed simp_all

lemma canonical_items [simp]: "cbor_items (canonical v) = cbor_items v"
proof (induction v rule: cbor_induct)
  case (Array vs)
  then show ?case by (auto intro!: arg_cong [where f = sum_list])
next
  case (Map es)
  then have "map (\<lambda>e. cbor_items (fst e) + cbor_items (snd e)) (map (map_prod canonical canonical) es) =
      map (\<lambda>e. cbor_items (fst e) + cbor_items (snd e)) es" by simp
  then show ?case by (simp del: map_map add: entries_items_sum sum_list_sort_key)
qed simp_all

lemma within_relax: "within nfc L True d v \<Longrightarrow> within nfc L False d v"
  by (induction v arbitrary: d rule: cbor_induct) auto

lemma canonical_within:
  "within nfc L False d v \<Longrightarrow> unique_keys v \<Longrightarrow> within nfc L True d (canonical v)"
proof (induction v arbitrary: d rule: cbor_induct)
  case (Map es)
  let ?es = "map (map_prod canonical canonical) es"
  have "distinct (map key_of ?es)" using Map.prems(2) by (simp add: comp_def)
  then have "distinct (map key_of (sort_key key_of ?es))"
    by (simp only: distinct_map_sort_key)
  then have "sorted_wrt (<) (map key_of (sort_key key_of ?es))"
    by (simp add: strict_sorted_iff)
  with Map show ?case by auto
qed auto

lemma canonical_id: "within nfc L True d v \<Longrightarrow> canonical v = v \<and> unique_keys v"
proof (induction v arbitrary: d rule: cbor_induct)
  case (Array vs)
  then have "\<forall>v \<in> set vs. canonical v = v \<and> unique_keys v" by auto
  then show ?case by (simp add: map_idI)
next
  case (Map es)
  then have same: "\<forall>e \<in> set es. canonical (fst e) = fst e \<and> canonical (snd e) = snd e
      \<and> unique_keys (fst e) \<and> unique_keys (snd e)" by fastforce
  then have m: "map (map_prod canonical canonical) es = es"
    by (intro map_idI) (metis fst_map_prod prod.collapse snd_map_prod)
  have keys: "map (\<lambda>e. cbor_bytes (canonical (fst e))) es = map key_of es" using same by simp
  have s: "sorted_wrt (<) (map key_of es)" using Map.prems by simp
  then have "sorted (map key_of es)" "distinct (map key_of es)" by (simp_all add: strict_sorted_iff)
  then have "unique_keys (Map es)" and "sort_key key_of es = es"
    unfolding unique_keys_Map keys using same by (simp_all add: sort_key_id_if_sorted)
  with m show ?case by simp
qed auto

section \<open>The encoder computes the canonical form\<close>

lemma append_buffer_fits: "length u + length w \<le> usize_max \<Longrightarrow> append_buffer u w = Inr (u @ w)"
  by (simp add: append_buffer_def checked_add_usize_def)

definition encode_body where
  "encode_body input m a q =
     (if m = 0 \<or> m = 1 then Inr (encode_head m a, q)
      else if m = 2 \<or> m = 3 then
        bindE (read_slice input q (unat a)) (\<lambda>(payload, p).
        bindE (append_buffer (encode_head m a) payload) (\<lambda>output. Inr (output, p)))
      else if m = 4 then encode_items input (unat a) (encode_head m a) q
      else if m = 5 then
        bindE (encode_entries input (unat a) [] q) (\<lambda>(entries, p).
        bindE (emit_entries m a entries) (\<lambda>output. Inr (output, p)))
      else
        bindE (encode_item input q) (\<lambda>(item, p).
        bindE (append_buffer (encode_head m a) item) (\<lambda>output. Inr (output, p))))"

lemma encode_at_head:
  assumes "length input \<le> usize_max" and "m < 7" and "stands_at input position (encode_head m a)"
  shows "encode_item input position = encode_body input m a (position + length (encode_head m a))"
proof -
  from assms(2) have m: "m < 8" "m \<noteq> 7" by (auto simp: word_less_nat_alt)
  obtain i where i: "read_byte input position = Inr (i, position + 1)" "drop_bit 5 i = m"
    "read_argument input (position + 1) (i AND 0x1f) = Inr (a, position + length (encode_head m a))"
    by (rule at_head [OF assms(1) m(1) assms(3)])
  note r = encode_read_argument_strict [OF i(3)]
  have u: "\<not> usize_max < unat a" by (simp add: not_less)
  show ?thesis
    by (subst encode_item.simps, rule major_cases [OF m(1)])
      (simp_all add: i(1,2) [simplified] r [simplified] m(2) u encode_body_def)
qed

lemma encode_at_simple:
  assumes "stands_at input position (cbor_bytes (Simple s))"
  shows "encode_item input position = Inr (cbor_bytes (Simple s), position + length (cbor_bytes (Simple s)))"
proof (cases "s \<le> 23")
  case True
  then have s: "s < 32" by (simp add: word_less_nat_alt word_le_nat_alt)
  have "0xE0 = push_bit 5 (7 :: byte)" by simp
  then have p: "drop_bit 5 (0xE0 OR s) = 7" "(0xE0 OR s) AND 31 = s"
    using head_byte_parts [of 7 s, OF _ s] by simp_all
  from True assms(1) have "read_byte input position = Inr (0xE0 OR s, position + 1)" by (simp add: read_byte_stands)
  with True p show ?thesis by (subst encode_item.simps) (simp add: encode_simple_def)
next
  case False
  then have "stands_at input position [0xF8]" "stands_at input (position + 1) [s]"
    using assms(1) by (simp_all add: stands_at_Cons)
  then have "read_byte input position = Inr (0xF8, position + 1)" "read_byte input (position + 1) = Inr (s, position + 2)"
    by (simp_all add: read_byte_stands)
  with False show ?thesis by (subst encode_item.simps) (simp add: encode_simple_def)
qed

lemma encode_items_unfold [simp]:
  "encode_items input 0 output position = Inr (output, position)"
  "encode_items input (Suc k) output position =
     bindE (encode_item input position) (\<lambda>(item, p).
     bindE (append_buffer output item) (\<lambda>output. encode_items input k output p))"
  by (subst encode_items.simps, simp)+

lemma encode_entries_unfold [simp]:
  "encode_entries input 0 entries position = Inr (entries, position)"
  "encode_entries input (Suc k) entries position =
     bindE (encode_item input position) (\<lambda>(key, p).
     bindE (encode_item input p) (\<lambda>(value, p). encode_entries input k (entries @ [(key, value)]) p))"
  by (subst encode_entries.simps, simp)+

definition encodes_to :: "bytes \<Rightarrow> cbor \<Rightarrow> bool" where
  "encodes_to input v \<longleftrightarrow> (\<forall>position. stands_at input position (cbor_bytes v) \<longrightarrow>
     encode_item input position = (if unique_keys v
       then Inr (cbor_bytes (canonical v), position + length (cbor_bytes v)) else Inl DuplicateKey))"

lemma encode_items_eq:
  assumes "\<And>v. v \<in> set vs \<Longrightarrow> encodes_to input v" and "stands_at input position (concat (map cbor_bytes vs))"
    and "length buffer + length (concat (map cbor_bytes vs)) \<le> usize_max"
  shows "encode_items input (length vs) buffer position = (if \<forall>v \<in> set vs. unique_keys v
     then Inr (buffer @ concat (map (\<lambda>v. cbor_bytes (canonical v)) vs), position + length (concat (map cbor_bytes vs)))
     else Inl DuplicateKey)"
  using assms
proof (induction vs arbitrary: buffer position)
  case (Cons v vs)
  have st: "stands_at input position (cbor_bytes v)" "stands_at input (position + length (cbor_bytes v)) (concat (map cbor_bytes vs))"
    using Cons.prems(2) by (simp_all add: stands_at_append)
  have e: "encode_item input position = (if unique_keys v
      then Inr (cbor_bytes (canonical v), position + length (cbor_bytes v)) else Inl DuplicateKey)"
    using Cons.prems(1) [of v] st(1) by (simp add: encodes_to_def)
  have a: "append_buffer buffer (cbor_bytes (canonical v)) = Inr (buffer @ cbor_bytes (canonical v))"
    using Cons.prems(3) by (intro append_buffer_fits) simp
  have "encode_items input (length vs) (buffer @ cbor_bytes (canonical v)) (position + length (cbor_bytes v)) =
      (if \<forall>v \<in> set vs. unique_keys v then Inr ((buffer @ cbor_bytes (canonical v)) @ concat (map (\<lambda>v. cbor_bytes (canonical v)) vs),
        position + length (cbor_bytes v) + length (concat (map cbor_bytes vs))) else Inl DuplicateKey)"
    using Cons.prems st(2) by (intro Cons.IH) simp_all
  with e a show ?case by (simp add: add.assoc)
qed simp

lemma encode_entries_eq:
  assumes "\<And>e. e \<in> set es \<Longrightarrow> encodes_to input (fst e) \<and> encodes_to input (snd e)" and "stands_at input position (entries_bytes es)"
  shows "encode_entries input (length es) done position = (if \<forall>e \<in> set es. unique_keys (fst e) \<and> unique_keys (snd e)
     then Inr (done @ map (map_prod cbor_bytes cbor_bytes) (map (map_prod canonical canonical) es),
       position + length (entries_bytes es)) else Inl DuplicateKey)"
  using assms
proof (induction es arbitrary: "done" position)
  case (Cons e es)
  let ?q = "position + length (key_of e)" and ?r = "position + length (key_of e) + length (cbor_bytes (snd e))"
  have st: "stands_at input position (key_of e)" "stands_at input ?q (cbor_bytes (snd e))"
    "stands_at input ?r (entries_bytes es)"
    using Cons.prems(2) by (simp_all add: stands_at_append add.assoc)
  have k: "encode_item input position = (if unique_keys (fst e) then Inr (cbor_bytes (canonical (fst e)), ?q) else Inl DuplicateKey)"
    and v: "encode_item input ?q = (if unique_keys (snd e) then Inr (cbor_bytes (canonical (snd e)), ?r) else Inl DuplicateKey)"
    using Cons.prems(1) [of e] st(1,2) by (simp_all add: encodes_to_def)
  have "encode_entries input (length es) (done @ [(cbor_bytes (canonical (fst e)), cbor_bytes (canonical (snd e)))]) ?r =
      (if \<forall>e \<in> set es. unique_keys (fst e) \<and> unique_keys (snd e)
       then Inr ((done @ [(cbor_bytes (canonical (fst e)), cbor_bytes (canonical (snd e)))])
          @ map (map_prod cbor_bytes cbor_bytes) (map (map_prod canonical canonical) es), ?r + length (entries_bytes es))
       else Inl DuplicateKey)"
    using Cons.prems(1) st(3) by (intro Cons.IH) simp_all
  with k v show ?case by (cases e) (simp add: add.assoc)
qed simp

lemma windows_distinct:
  assumes "sorted (map f xs)"
  shows "(\<exists>(a, b) \<in> set (windows2 xs). f a = f b) \<longleftrightarrow> \<not> distinct (map f xs)"
  using assms
proof (induction xs rule: induct_list012)
  case (3 x y zs)
  then have "f x \<notin> f ` set (y # zs)" if "f x \<noteq> f y" using that by auto
  with 3 show ?case by auto
qed auto

lemma append_entries:
  "length buffer + length (concat (map (\<lambda>e. fst e @ snd e) es)) \<le> usize_max \<Longrightarrow>
   foldE (\<lambda>(key, value) output. bindE (append_buffer output key) (\<lambda>output. append_buffer output value)) es buffer =
     Inr (buffer @ concat (map (\<lambda>e. fst e @ snd e) es))"
  by (induction es arbitrary: buffer) (auto simp: append_buffer_fits)

lemma insort_key_map: "insort_key g (f x) (map f xs) = map f (insort_key (\<lambda>x. g (f x)) x xs)"
  by (induction xs) auto

lemma sort_key_map: "sort_key g (map f xs) = map f (sort_key (\<lambda>x. g (f x)) xs)"
  by (induction xs) (auto simp: insort_key_map)

lemma emit_entries_eq:
  assumes "length (encode_head m a) + length (entries_bytes es) \<le> usize_max"
  shows "emit_entries m a (map (map_prod cbor_bytes cbor_bytes) es) =
     (if distinct (map key_of es) then Inr (encode_head m a @ entries_bytes (sort_key key_of es)) else Inl DuplicateKey)"
proof -
  let ?s = "map (map_prod cbor_bytes cbor_bytes) (sort_key key_of es)"
  have s: "sort_key fst (map (map_prod cbor_bytes cbor_bytes) es) = ?s"
    by (simp add: sort_key_map)
  have "sorted (map fst ?s)" by (simp add: comp_def)
  then have d: "(\<exists>(a, b) \<in> set (windows2 ?s). fst a = fst b) \<longleftrightarrow> \<not> distinct (map key_of es)"
    using windows_distinct [of fst ?s] by (simp add: comp_def distinct_map_sort_key)
  have "length (entries_bytes (sort_key key_of es)) = length (entries_bytes es)"
    by (simp only: length_entries sum_list_sort_key)
  with assms have "length (encode_head m a) + length (concat (map (\<lambda>e. fst e @ snd e) ?s)) \<le> usize_max" by simp
  from append_entries [OF this] d show ?thesis by (simp add: emit_entries_def Let_def s)
qed

lemma stands_at_total: "length input \<le> usize_max \<Longrightarrow> stands_at input position w \<Longrightarrow> length w \<le> usize_max"
  using stands_at_bound [of input position w] by (cases "w = []") auto

lemma encode_string:
  assumes len: "length input \<le> usize_max" and m: "m = 2 \<or> m = 3"
    and st: "stands_at input position (encode_head m (of_nat (length b)) @ b)"
  shows "encode_item input position = Inr (encode_head m (of_nat (length b)) @ b,
     position + length (encode_head m (of_nat (length b)) @ b))"
proof -
  let ?h = "encode_head m (of_nat (length b))"
  from st have h: "stands_at input position ?h" and b: "stands_at input (position + length ?h) b"
    by (simp_all add: stands_at_append)
  have q: "position + length ?h \<le> length input" using stands_at_bound [OF h] by simp
  have "read_slice input (position + length ?h) (length b) = Inr (b, position + length ?h + length b)"
    using b by (simp add: read_slice_stands [OF len q])
  moreover have "append_buffer ?h b = Inr (?h @ b)"
    using stands_at_total [OF len st] by (intro append_buffer_fits) simp
  moreover have "m < 7" using m by auto
  ultimately show ?thesis
    using m encode_at_head [OF len _ h] unat_length [OF len b order_refl] by (auto simp: encode_body_def add.assoc)
qed

lemma encode_tag:
  assumes len: "length input \<le> usize_max" and v: "encodes_to input v"
  shows "encodes_to input (Tag t v)"
  unfolding encodes_to_def
proof (intro allI impI)
  fix position assume st: "stands_at input position (cbor_bytes (Tag t v))"
  then have h: "stands_at input position (encode_head 6 t)"
    and b: "stands_at input (position + length (encode_head 6 t)) (cbor_bytes v)" by (simp_all add: stands_at_append)
  have "append_buffer (encode_head 6 t) (cbor_bytes (canonical v)) = Inr (encode_head 6 t @ cbor_bytes (canonical v))"
    using stands_at_total [OF len st] by (intro append_buffer_fits) simp
  with v b encode_at_head [OF len _ h]
  show "encode_item input position = (if unique_keys (Tag t v)
      then Inr (cbor_bytes (canonical (Tag t v)), position + length (cbor_bytes (Tag t v))) else Inl DuplicateKey)"
    by (simp add: encodes_to_def encode_body_def add.assoc)
qed

lemma encode_array:
  assumes len: "length input \<le> usize_max" and vs: "\<And>v. v \<in> set vs \<Longrightarrow> encodes_to input v"
  shows "encodes_to input (Array vs)"
  unfolding encodes_to_def
proof (intro allI impI)
  fix position assume st: "stands_at input position (cbor_bytes (Array vs))"
  let ?h = "encode_head 4 (of_nat (length vs))"
  from st have h: "stands_at input position ?h" and b: "stands_at input (position + length ?h) (concat (map cbor_bytes vs))"
    by (simp_all add: stands_at_append)
  have "length ?h + length (concat (map cbor_bytes vs)) \<le> usize_max" using stands_at_total [OF len st] by simp
  from encode_items_eq [OF vs b this] encode_at_head [OF len _ h] unat_length [OF len b length_concat_bytes]
  show "encode_item input position = (if unique_keys (Array vs)
      then Inr (cbor_bytes (canonical (Array vs)), position + length (cbor_bytes (Array vs))) else Inl DuplicateKey)"
    by (simp add: encode_body_def add.assoc comp_def)
qed

lemma encode_map:
  assumes len: "length input \<le> usize_max"
    and es: "\<And>e. e \<in> set es \<Longrightarrow> encodes_to input (fst e) \<and> encodes_to input (snd e)"
  shows "encodes_to input (Map es)"
  unfolding encodes_to_def
proof (intro allI impI)
  fix position assume st: "stands_at input position (cbor_bytes (Map es))"
  let ?h = "encode_head 5 (of_nat (length es))" and ?es = "map (map_prod canonical canonical) es"
  from st have h: "stands_at input position ?h" and b: "stands_at input (position + length ?h) (entries_bytes es)"
    by (simp_all add: stands_at_append)
  have "length (entries_bytes ?es) = length (entries_bytes es)" unfolding length_entries by (simp add: comp_def)
  then have "length ?h + length (entries_bytes ?es) \<le> usize_max" using stands_at_total [OF len st] by simp
  from emit_entries_eq [OF this] encode_entries_eq [OF es b, of "[]"] encode_at_head [OF len _ h]
    unat_length [OF len b length_entries_bytes]
  show "encode_item input position = (if unique_keys (Map es)
      then Inr (cbor_bytes (canonical (Map es)), position + length (cbor_bytes (Map es))) else Inl DuplicateKey)"
    by (simp add: encode_body_def add.assoc comp_def)
qed

lemma encode_item_canonical: "length input \<le> usize_max \<Longrightarrow> encodes_to input v"
proof (induction v rule: cbor_induct)
  case (UInt n) then show ?case using encode_at_head [of input 0 _ n] by (simp add: encodes_to_def encode_body_def)
next
  case (NInt n) then show ?case using encode_at_head [of input 1 _ n] by (simp add: encodes_to_def encode_body_def)
next
  case (Bytes b) then show ?case using encode_string [of input 2 _ b] by (simp add: encodes_to_def)
next
  case (Text b) then show ?case using encode_string [of input 3 _ b] by (simp add: encodes_to_def)
next
  case (Simple s) then show ?case using encode_at_simple [of input _ s] by (auto simp: encodes_to_def)
qed (simp_all add: encode_tag encode_array encode_map)

section \<open>What the crate promises\<close>

definition encoded :: "(nat list \<Rightarrow> nat list) \<Rightarrow> parser_limits \<Rightarrow> bool \<Rightarrow> cbor \<Rightarrow> bool" where
  "encoded nfc L ordered v \<longleftrightarrow> within nfc L ordered 0 v \<and> cbor_items v \<le> max_total_items L"

lemma scan_items_total:
  assumes "\<And>position n p n'. scan_item nfc L enforce input d position n = Inr (p, n') \<Longrightarrow> n' \<le> max_total_items L"
    and "scan_items nfc L enforce input d k position n = Inr (p, n')" and "n \<le> max_total_items L"
  shows "n' \<le> max_total_items L"
  using assms(2,3) by (induction k arbitrary: position n) (auto simp: result_simps dest: assms(1))

lemma scan_entries_total:
  assumes "\<And>position n p n'. scan_item nfc L enforce input d position n = Inr (p, n') \<Longrightarrow> n' \<le> max_total_items L"
    and "scan_entries nfc L enforce input d k previous position n = Inr (p, n')" and "n \<le> max_total_items L"
  shows "n' \<le> max_total_items L"
  using assms(2,3)
proof (induction k arbitrary: previous position n)
  case (Suc k)
  obtain q m where q: "scan_item nfc L enforce input d position n = Inr (q, m)"
    using Suc.prems(1) by (cases "scan_item nfc L enforce input d position n") auto
  have o: "(if enforce then check_key_order input previous (position, q) else Inr ()) = Inr ()"
    using Suc.prems(1) q by (cases "if enforce then check_key_order input previous (position, q) else Inr ()") auto
  obtain q' m' where q': "scan_item nfc L enforce input d q m = Inr (q', m')"
    using Suc.prems(1) q o by (cases "scan_item nfc L enforce input d q m") auto
  have "scan_entries nfc L enforce input d k (if enforce then Some (position, q) else previous) q' m' = Inr (p, n')"
    using Suc.prems(1) by (simp only: scan_entries_unfold q o q' bindE_simps prod.case)
  from Suc.IH [OF this assms(1) [OF q']] show ?case .
qed simp

lemma scan_item_total:
  assumes fit: "fits L input" and "scan_item nfc L enforce input d position n = Inr (p, n')"
  shows "n' \<le> max_total_items L"
  using assms(2)
proof (induction "max_depth L - d" arbitrary: d position n p n' rule: less_induct)
  case less
  have deeper: "m' \<le> max_total_items L"
    if "d < max_depth L" "scan_item nfc L enforce input (d + 1) q m = Inr (r, m')" for q m r m'
    using less.hyps [OF _ that(2)] that(1) by simp
  from fit less.prems show ?case
  proof (cases rule: scan_item_Inr)
    case (head m a)
    let ?q = "position + length (encode_head m a)"
    show ?thesis
    proof (cases "m = 0 \<or> m = 1 \<or> m = 2 \<or> m = 3")
      case True
      with head(3,4) show ?thesis by (auto simp: scan_body_def result_simps)
    next
      case False
      have lim: "d < max_depth L"
        using head(3) False by (auto simp: scan_body_def result_simps check_container_depth_def split: if_splits)
      consider "scan_items nfc L enforce input (d + 1) (unat a) ?q (n + 1) = Inr (p, n')"
        | "scan_entries nfc L enforce input (d + 1) (unat a) None ?q (n + 1) = Inr (p, n')"
        | "scan_item nfc L enforce input (d + 1) ?q (n + 1) = Inr (p, n')"
        using head(3) False by (auto simp: scan_body_def result_simps split: if_splits)
      then show ?thesis
      proof cases
        case 1 show ?thesis by (rule scan_items_total [OF deeper [OF lim] 1 head(4)])
      next
        case 2 show ?thesis by (rule scan_entries_total [OF deeper [OF lim] 2 head(4)])
      next
        case 3 show ?thesis by (rule deeper [OF lim 3])
      qed
    qed
  qed simp
qed

lemma scan_item_iff:
  assumes "fits L input"
  shows "scan_item nfc L enforce input 0 position 0 = Inr (p, n) \<longleftrightarrow>
     (\<exists>v. encoded nfc L enforce v \<and> stands_at input position (cbor_bytes v)
        \<and> p = position + length (cbor_bytes v) \<and> n = cbor_items v)"
  (is "?l \<longleftrightarrow> ?r")
proof
  assume ok: ?l
  from scan_item_sound [OF assms ok] obtain v where "scans_to nfc L enforce input 0 position 0 p n v" by blast
  with scan_item_total [OF assms ok] show ?r by (auto simp: scans_to_def encoded_def)
next
  assume ?r
  then show ?l using scan_item_complete [OF assms, of nfc enforce 0 _ position 0] by (auto simp: encoded_def)
qed

text \<open>The relaxed scan and the encoder together.\<close>

lemma scan_relaxed_iff:
  assumes "fits L input"
  shows "scan_relaxed nfc L input = Inr () \<longleftrightarrow> (\<exists>v. input = cbor_bytes v \<and> encoded nfc L False v)"
proof
  assume "scan_relaxed nfc L input = Inr ()"
  then obtain p n where "scan_item nfc L False input 0 0 0 = Inr (p, n)" "p = length input"
    by (auto simp: scan_relaxed_def result_simps)
  then obtain v where "encoded nfc L False v" "stands_at input 0 (cbor_bytes v)" "length input = length (cbor_bytes v)"
    unfolding scan_item_iff [OF assms] by auto
  with stands_at_whole show "\<exists>v. input = cbor_bytes v \<and> encoded nfc L False v" by metis
next
  assume "\<exists>v. input = cbor_bytes v \<and> encoded nfc L False v"
  then obtain v where v: "input = cbor_bytes v" "encoded nfc L False v" by blast
  then have "scan_item nfc L False input 0 0 0 = Inr (length input, cbor_items v)"
    unfolding scan_item_iff [OF assms] by auto
  then show "scan_relaxed nfc L input = Inr ()" by (simp add: scan_relaxed_def)
qed

lemma canonical_reencode_bytes:
  assumes "fits L (cbor_bytes v)" and "encoded nfc L False v"
  shows "canonical_reencode nfc L (cbor_bytes v) =
     (if unique_keys v then Inr (cbor_bytes (canonical v)) else Inl DuplicateKey)"
proof -
  have "scan_relaxed nfc L (cbor_bytes v) = Inr ()" using assms by (auto simp: scan_relaxed_iff)
  moreover have "encodes_to (cbor_bytes v) v"
    using assms(1) by (intro encode_item_canonical) (simp add: fits_def)
  ultimately show ?thesis by (simp add: canonical_reencode_def encodes_to_def)
qed

lemma canonical_reencode_iff:
  assumes "fits L input"
  shows "canonical_reencode nfc L input = Inr out \<longleftrightarrow>
     (\<exists>v. input = cbor_bytes v \<and> encoded nfc L False v \<and> unique_keys v \<and> out = cbor_bytes (canonical v))"
proof
  assume ok: "canonical_reencode nfc L input = Inr out"
  then have "scan_relaxed nfc L input = Inr ()" by (auto simp: canonical_reencode_def result_simps)
  then obtain v where "input = cbor_bytes v" "encoded nfc L False v" unfolding scan_relaxed_iff [OF assms] by blast
  with ok canonical_reencode_bytes [of L v nfc] assms
  show "\<exists>v. input = cbor_bytes v \<and> encoded nfc L False v \<and> unique_keys v \<and> out = cbor_bytes (canonical v)"
    by (auto split: if_splits)
qed (use assms canonical_reencode_bytes in auto)

lemma encoded_canonical: "encoded nfc L False v \<Longrightarrow> unique_keys v \<Longrightarrow> encoded nfc L True (canonical v)"
  by (simp add: encoded_def canonical_within)

lemma encoded_relax: "encoded nfc L True v \<Longrightarrow> encoded nfc L False v"
  by (simp add: encoded_def within_relax)

lemma encoded_fixed: "encoded nfc L True v \<Longrightarrow> canonical v = v \<and> unique_keys v"
  using canonical_id by (auto simp: encoded_def)

lemma reencode_fixed:
  assumes "fits L (cbor_bytes v)" and "encoded nfc L True v"
  shows "canonical_reencode nfc L (cbor_bytes v) = Inr (cbor_bytes v)"
  using canonical_reencode_bytes [OF assms(1) encoded_relax [OF assms(2)]] encoded_fixed [OF assms(2)] by simp

section \<open>Errors of the scanner\<close>

text \<open>The scanner never complains about what follows an item, and about keys only if their order is enforced.\<close>

definition scan_error :: "bool \<Rightarrow> cbor_error \<Rightarrow> bool" where
  "scan_error enforce e \<longleftrightarrow> e \<noteq> TrailingBytes \<and> e \<noteq> Encode \<and> (enforce \<or> e \<noteq> DuplicateKey \<and> e \<noteq> MapOrder)"

lemma read_errors:
  "read_byte input position = Inl e \<Longrightarrow> scan_error enforce e"
  "read_slice input position len = Inl e \<Longrightarrow> scan_error enforce e"
  "read_uint input position len = Inl e \<Longrightarrow> scan_error enforce e"
  by (auto simp: read_byte_def read_slice_def read_uint_def result_simps scan_error_def split: if_splits)

lemma at_least_error: "at_least k r = Inl e \<Longrightarrow> scan_error enforce e"
  by (cases r) (auto simp: at_least_def scan_error_def split: if_splits)

lemma read_argument_error: "read_argument input position x = Inl e \<Longrightarrow> scan_error enforce e"
  by (auto simp: read_argument_def result_simps split: if_splits dest: read_errors at_least_error)
    (auto simp: scan_error_def)

lemma read_length_error:
  "read_length input position x = Inl e \<Longrightarrow> scan_error enforce e"
  "read_container_length L input position x = Inl e \<Longrightarrow> scan_error enforce e"
  by (auto simp: read_length_def read_container_length_def result_simps scan_error_def [of _ ItemLimit]
      scan_error_def [of _ ContainerLimit] split: if_splits prod.splits dest: read_argument_error)

lemma other_errors:
  "count_item L n = Inl e \<Longrightarrow> scan_error enforce e"
  "check_container_depth L d = Inl e \<Longrightarrow> scan_error enforce e"
  "scan_simple input position x = Inl e \<Longrightarrow> scan_error enforce e"
  "check_text nfc b = Inl e \<Longrightarrow> scan_error enforce e"
  by (auto simp: count_item_def check_container_depth_def scan_simple_def check_text_def result_simps scan_error_def
      read_byte_def split: if_splits)

lemma scan_string_error: "scan_string nfc L input m x position = Inl e \<Longrightarrow> scan_error enforce e"
  by (auto simp: scan_string_def result_simps scan_error_def [of _ ItemLimit] split: if_splits
      dest: read_errors read_length_error other_errors)

lemma check_key_order_error: "(if enforce then check_key_order input prev key else Inr ()) = Inl e \<Longrightarrow> scan_error enforce e"
  by (auto simp: check_key_order_def scan_error_def split: if_splits option.splits ordering.splits)

lemmas scan_errors = read_errors read_argument_error read_length_error other_errors scan_string_error check_key_order_error

lemma scan_items_error:
  assumes "\<And>position n e. scan_item nfc L enforce input d position n = Inl e \<Longrightarrow> scan_error enforce e"
  shows "scan_items nfc L enforce input d k position n = Inl e \<Longrightarrow> scan_error enforce e"
  by (induction k arbitrary: position n) (auto simp: result_simps dest: assms)

lemma scan_entries_error:
  assumes "\<And>position n e. scan_item nfc L enforce input d position n = Inl e \<Longrightarrow> scan_error enforce e"
  shows "scan_entries nfc L enforce input d k previous position n = Inl e \<Longrightarrow> scan_error enforce e"
proof (induction k arbitrary: previous position n)
  case (Suc k)
  from Suc.prems show ?case unfolding scan_entries_unfold bindE_eq_Inl
    by (elim disjE exE conjE; (simp only: split_paired_all prod.case bindE_eq_Inl)?)
      (auto dest: assms Suc.IH check_key_order_error)
qed simp

lemma scan_item_error: "scan_item nfc L enforce input d position n = Inl e \<Longrightarrow> scan_error enforce e"
proof (induction "max_depth L - d" arbitrary: d position n e rule: less_induct)
  case less
  have deeper: "scan_error enforce e"
    if "d < max_depth L" "scan_item nfc L enforce input (Suc d) q m = Inl e" for q m e
    using less.hyps [OF _ that(2)] that(1) by simp
  have items: "scan_error enforce e"
    if "d < max_depth L" "scan_items nfc L enforce input (Suc d) k q m = Inl e" for k q m e
    using scan_items_error [OF deeper [OF that(1)] that(2)] .
  have entries: "scan_error enforce e"
    if "d < max_depth L" "scan_entries nfc L enforce input (Suc d) k None q m = Inl e" for k q m e
    using scan_entries_error [OF deeper [OF that(1)] that(2)] .
  have depth: "d < max_depth L" if "check_container_depth L d = Inr u" for u
    using that by (simp add: check_container_depth_def reject_if_eq_Inr)
  show ?case
  proof (cases "count_item L n")
    case (Inl x)
    with less.prems show ?thesis by (subst (asm) scan_item.simps) (auto dest: scan_errors)
  next
    case c: (Inr c)
    show ?thesis
    proof (cases "read_byte input position")
      case (Inl x)
      with less.prems c show ?thesis by (subst (asm) scan_item.simps) (auto dest: scan_errors)
    next
      case (Inr r)
      obtain i q where i: "read_byte input position = Inr (i, q)" using Inr by (cases r) auto
      note body = less.prems [unfolded scan_item.simps [of nfc L enforce input d position n] c i bindE_simps prod.case Let_def]
      show ?thesis
        by (rule major_cases [OF major_less [of i]]; insert body)
          (auto simp: result_simps dest: scan_errors deeper [OF depth] items [OF depth] entries [OF depth])
    qed
  qed
qed

section \<open>Unique decoding\<close>

primrec major_of :: "cbor \<Rightarrow> byte" where
  "major_of (UInt n) = 0"
| "major_of (NInt n) = 1"
| "major_of (Bytes b) = 2"
| "major_of (Text b) = 3"
| "major_of (Array vs) = 4"
| "major_of (Map es) = 5"
| "major_of (Tag t v) = 6"
| "major_of (Simple s) = 7"

lemma lead_byte_head: "stands_at input position (encode_head m a @ w) \<Longrightarrow> m < 8 \<Longrightarrow> drop_bit 5 (input ! position) = m"
  using head_byte_parts(1) [OF _ width_less, of m a] by (simp add: encode_head_width stands_at_Cons)

lemma lead_byte_simple: "drop_bit 5 (hd (cbor_bytes (Simple s))) = 7"
proof (cases "s \<le> 23")
  case True
  then have "s < 32" by (simp add: word_less_nat_alt word_le_nat_alt)
  with True head_byte_parts(1) [of 7 s] show ?thesis by simp
qed simp

lemma lead_byte: "stands_at input position (cbor_bytes v) \<Longrightarrow> drop_bit 5 (input ! position) = major_of v"
proof (cases v)
  case (Simple s)
  assume st: "stands_at input position (cbor_bytes v)"
  obtain b w where b: "cbor_bytes (Simple s) = b # w" using cbor_bytes_nonempty [of "Simple s"] by (cases "cbor_bytes (Simple s)") auto
  with st Simple have "input ! position = b" by (simp add: stands_at_Cons del: cbor_bytes.simps)
  with lead_byte_simple [of s] b Simple show ?thesis by simp
qed (auto dest: lead_byte_head [where w = "[]", simplified] lead_byte_head)

lemma head_unique:
  assumes "length input \<le> usize_max" and "m < 8"
    and "stands_at input position (encode_head m a)" and "stands_at input position (encode_head m b)"
  shows "a = b"
proof -
  obtain i where "read_byte input position = Inr (i, position + 1)"
    "read_argument input (position + 1) (i AND 0x1f) = Inr (a, position + length (encode_head m a))"
    by (rule at_head [OF assms(1-3)])
  moreover obtain j where "read_byte input position = Inr (j, position + 1)"
    "read_argument input (position + 1) (j AND 0x1f) = Inr (b, position + length (encode_head m b))"
    by (rule at_head [OF assms(1,2,4)])
  ultimately show ?thesis by simp
qed

lemma simple_unique:
  assumes "stands_at input position (cbor_bytes (Simple s))" and "stands_at input position (cbor_bytes (Simple t))"
  shows "s = t"
proof -
  have split: "(0xE0 OR x) AND 31 = x" if "x \<le> 23" for x :: byte
  proof -
    have "x < 32" using that by (simp add: word_less_nat_alt word_le_nat_alt)
    with head_byte_parts(2) [of 7 x] show ?thesis by simp
  qed
  have not: "0xE0 OR x \<noteq> 0xF8" if "x \<le> 23" for x :: byte
    using split [OF that] that by auto
  consider "s \<le> 23" "t \<le> 23" "0xE0 OR s = 0xE0 OR t" | "\<not> s \<le> 23" "\<not> t \<le> 23"
    using assms not [of s] not [of t] by (cases "s \<le> 23"; cases "t \<le> 23") (simp_all add: stands_at_Cons)
  then show ?thesis
  proof cases
    case 1 with split [OF 1(1)] split [OF 1(2)] show ?thesis by metis
  next
    case 2 with assms show ?thesis by (simp add: stands_at_Cons)
  qed
qed

lemma items_unique:
  assumes "length vs = length ws" and "\<And>v w position. v \<in> set vs \<Longrightarrow> stands_at input position (cbor_bytes v) \<Longrightarrow>
      stands_at input position (cbor_bytes w) \<Longrightarrow> v = w"
    and "stands_at input position (concat (map cbor_bytes vs))" and "stands_at input position (concat (map cbor_bytes ws))"
  shows "vs = ws"
  using assms
proof (induction vs ws arbitrary: position rule: list_induct2)
  case (Cons v vs w ws)
  have "v = w" using Cons.prems(1) [of v position w] Cons.prems(2,3) by (simp add: stands_at_append)
  moreover have "vs = ws"
    using Cons.prems \<open>v = w\<close> by (intro Cons.IH [of "position + length (cbor_bytes v)"]) (auto simp: stands_at_append)
  ultimately show ?case by simp
qed simp

lemma entries_flat: "entries_bytes es = concat (map cbor_bytes (concat (map (\<lambda>e. [fst e, snd e]) es)))"
  by (induction es) auto

lemma pairs_inject: "concat (map (\<lambda>e. [fst e, snd e]) es) = concat (map (\<lambda>e. [fst e, snd e]) fs) \<Longrightarrow> es = fs"
proof (induction es arbitrary: fs)
  case Nil then show ?case by (cases fs) auto
next
  case (Cons e es) then show ?case by (cases fs) (auto simp: prod_eq_iff)
qed

lemma entries_unique:
  assumes "length es = length fs" and "\<And>e v w position. e \<in> set es \<Longrightarrow> v = fst e \<or> v = snd e \<Longrightarrow>
      stands_at input position (cbor_bytes v) \<Longrightarrow> stands_at input position (cbor_bytes w) \<Longrightarrow> v = w"
    and "stands_at input position (entries_bytes es)" and "stands_at input position (entries_bytes fs)"
  shows "es = fs"
proof (rule pairs_inject, rule items_unique)
  show "length (concat (map (\<lambda>e. [fst e, snd e]) es)) = length (concat (map (\<lambda>e. [fst e, snd e]) fs))"
    using assms(1) by (induction es fs rule: list_induct2) auto
  show "v = w" if "v \<in> set (concat (map (\<lambda>e. [fst e, snd e]) es))" "stands_at input position (cbor_bytes v)"
      "stands_at input position (cbor_bytes w)" for v w position
    using that(1) assms(2) [OF _ _ that(2,3)] by auto
qed (use assms(3,4) in \<open>simp_all only: entries_flat\<close>)

lemma stands_at_same:
  "stands_at input position u \<Longrightarrow> stands_at input position w \<Longrightarrow> length u = length w \<Longrightarrow> u = w"
  unfolding stands_at_def by metis

lemma counted_unique:
  assumes len: "length input \<le> usize_max" and "m < 8"
    and u: "stands_at input position (encode_head m (of_nat k) @ u)" "k \<le> length u"
    and w: "stands_at input position (encode_head m (of_nat l) @ w)" "l \<le> length w"
  shows "k = l \<and> stands_at input (position + length (encode_head m (of_nat k))) u
     \<and> stands_at input (position + length (encode_head m (of_nat k))) w"
proof -
  have "(of_nat k :: u64) = of_nat l"
    using head_unique [OF len assms(2), of position "of_nat k" "of_nat l"] u(1) w(1) by (simp add: stands_at_append)
  moreover from u(1) w(1) have st: "stands_at input (position + length (encode_head m (of_nat k))) u"
    "stands_at input (position + length (encode_head m (of_nat l))) w" by (simp_all add: stands_at_append)
  moreover have "unat (of_nat k :: u64) = k" "unat (of_nat l :: u64) = l"
    by (rule unat_length [OF len st(1) u(2)], rule unat_length [OF len st(2) w(2)])
  ultimately show ?thesis by metis
qed

lemma cbor_unique:
  assumes len: "length input \<le> usize_max"
  shows "stands_at input position (cbor_bytes v) \<Longrightarrow> stands_at input position (cbor_bytes w) \<Longrightarrow> v = w"
proof (induction v arbitrary: position w rule: cbor_induct)
  case (UInt n)
  from lead_byte [OF UInt(1)] lead_byte [OF UInt(2)] obtain k where "w = UInt k" by (cases w) auto
  with UInt head_unique [OF len, of 0 position n k] show ?case by simp
next
  case (NInt n)
  from lead_byte [OF NInt(1)] lead_byte [OF NInt(2)] obtain k where "w = NInt k" by (cases w) auto
  with NInt head_unique [OF len, of 1 position n k] show ?case by simp
next
  case (Simple s)
  from lead_byte [OF Simple(1)] lead_byte [OF Simple(2)] obtain t where "w = Simple t" by (cases w) auto
  with Simple simple_unique show ?case by blast
next
  case (Tag t v)
  from lead_byte [OF Tag(2)] lead_byte [OF Tag(3)] obtain u x where w: "w = Tag u x" by (cases w) auto
  with Tag(2,3) head_unique [OF len, of 6 position t u] have "t = u" by (simp add: stands_at_append)
  with Tag(2,3) w Tag(1) [of "position + length (encode_head 6 t)" x] show ?case by (simp add: stands_at_append)
next
  case (Bytes b)
  from lead_byte [OF Bytes(1)] lead_byte [OF Bytes(2)] obtain c where w: "w = Bytes c" by (cases w) auto
  have "length b = length c \<and> stands_at input (position + length (encode_head 2 (of_nat (length b)))) b
      \<and> stands_at input (position + length (encode_head 2 (of_nat (length b)))) c"
    by (rule counted_unique [OF len]) (use Bytes w in simp_all)
  with w show ?case by (auto dest: stands_at_same)
next
  case (Text b)
  from lead_byte [OF Text(1)] lead_byte [OF Text(2)] obtain c where w: "w = Text c" by (cases w) auto
  have "length b = length c \<and> stands_at input (position + length (encode_head 3 (of_nat (length b)))) b
      \<and> stands_at input (position + length (encode_head 3 (of_nat (length b)))) c"
    by (rule counted_unique [OF len]) (use Text w in simp_all)
  with w show ?case by (auto dest: stands_at_same)
next
  case (Array vs)
  from lead_byte [OF Array(2)] lead_byte [OF Array(3)] obtain ws where w: "w = Array ws" by (cases w) auto
  let ?q = "position + length (encode_head 4 (of_nat (length vs)))"
  have "length vs = length ws \<and> stands_at input ?q (concat (map cbor_bytes vs)) \<and> stands_at input ?q (concat (map cbor_bytes ws))"
    by (rule counted_unique [OF len]) (use Array(2,3) w in \<open>simp_all add: length_concat_bytes\<close>)
  then have "vs = ws" using Array(1) by (intro items_unique [where input = input and position = ?q]) blast+
  with w show ?case by simp
next
  case (Map es)
  from lead_byte [OF Map(2)] lead_byte [OF Map(3)] obtain fs where w: "w = Map fs" by (cases w) auto
  let ?q = "position + length (encode_head 5 (of_nat (length es)))"
  have "length es = length fs \<and> stands_at input ?q (entries_bytes es) \<and> stands_at input ?q (entries_bytes fs)"
    by (rule counted_unique [OF len]) (use Map(2,3) w length_entries_bytes in \<open>simp_all only: cbor_bytes.simps\<close>, simp)
  then have "es = fs" using Map(1) by (intro entries_unique [where input = input and position = ?q]) blast+
  with w show ?case by simp
qed

section \<open>The decoder\<close>

lemma stands_at_drop: "stands_at (drop s input) 0 w \<longleftrightarrow> stands_at input s w"
  by (simp add: stands_at_def)

lemma slice_get_rest: "s \<le> length input \<Longrightarrow> slice_get input s (length input) = Some (drop s input)"
  by (simp add: slice_get_def)

lemma slice_get_stands_at:
  "stands_at input s w \<Longrightarrow> s + length w \<le> length input \<Longrightarrow> slice_get input s (s + length w) = Some w"
  by (simp add: slice_get_def stands_at_def)

lemma fits_shorter: "fits L input \<Longrightarrow> length input' \<le> length input \<Longrightarrow> fits L input'"
  by (simp add: fits_def)

lemma validate_one_sound:
  assumes fit: "fits (dec_limits d) (dec_input d)" and ok: "validate_one nfc d = Inr d'"
  obtains v where "encoded nfc (dec_limits d) True v" and "stands_at (dec_input d) (dec_position d) (cbor_bytes v)"
    and "d' = d\<lparr>dec_position := dec_position d + length (cbor_bytes v)\<rparr>"
proof -
  let ?s = "dec_position d" and ?L = "dec_limits d"
  from ok have s: "?s \<le> length (dec_input d)"
    by (auto simp: validate_one_def Let_def result_simps slice_get_def split: if_splits)
  note r = slice_get_rest [OF s]
  from ok obtain p n where p: "scan_item nfc ?L True (drop ?s (dec_input d)) 0 0 0 = Inr (p, n)"
    and d': "d' = d\<lparr>dec_position := ?s + p\<rparr>"
    by (auto simp: validate_one_def Let_def result_simps r split: if_splits)
  have "fits ?L (drop ?s (dec_input d))" by (rule fits_shorter [OF fit]) simp
  from p [unfolded scan_item_iff [OF this]] obtain v where "encoded nfc ?L True v"
    "stands_at (drop ?s (dec_input d)) 0 (cbor_bytes v)" "p = length (cbor_bytes v)" by auto
  with d' that show ?thesis by (simp add: stands_at_drop)
qed

lemma validate_one_complete:
  assumes fit: "fits (dec_limits d) (dec_input d)" and v: "encoded nfc (dec_limits d) True v"
    and st: "stands_at (dec_input d) (dec_position d) (cbor_bytes v)"
  shows "validate_one nfc d = Inr (d\<lparr>dec_position := dec_position d + length (cbor_bytes v)\<rparr>)"
proof -
  let ?s = "dec_position d" and ?L = "dec_limits d" and ?n = "length (cbor_bytes v)"
  have bound: "?s + ?n \<le> length (dec_input d)" using stands_at_bound [OF st cbor_bytes_nonempty] .
  have "fits ?L (drop ?s (dec_input d))" by (rule fits_shorter [OF fit]) simp
  then have "scan_item nfc ?L True (drop ?s (dec_input d)) 0 0 0 = Inr (?n, cbor_items v)"
    using v st by (auto simp: scan_item_iff stands_at_drop)
  moreover have "slice_get (dec_input d) ?s (length (dec_input d)) = Some (drop ?s (dec_input d))"
    using bound by (intro slice_get_rest) simp
  moreover have "checked_add_usize ?s ?n = Some (?s + ?n)" using bound fit by (simp add: checked_add_usize_Some fits_def)
  moreover have "slice_get (dec_input d) ?s (?s + ?n) = Some (cbor_bytes v)" using slice_get_stands_at [OF st bound] .
  moreover have "canonical_reencode nfc ?L (cbor_bytes v) = Inr (cbor_bytes v)"
    using reencode_fixed [OF fits_shorter [OF fit] v] bound by simp
  ultimately show ?thesis by (simp add: validate_one_def Let_def)
qed

lemma validate_Inr:
  assumes "fits L input"
  shows "validate nfc input L = Inr () \<longleftrightarrow> (\<exists>v. input = cbor_bytes v \<and> encoded nfc L True v)"
proof
  let ?d = "new_decoder input L"
  assume ok: "validate nfc input L = Inr ()"
  then obtain d' where d': "validate_one nfc ?d = Inr d'" "is_eof d'" by (auto simp: validate_def result_simps)
  have "fits (dec_limits ?d) (dec_input ?d)" using assms by (simp add: new_decoder_def)
  from validate_one_sound [OF this d'(1)] obtain v where "encoded nfc (dec_limits ?d) True v"
    "stands_at (dec_input ?d) (dec_position ?d) (cbor_bytes v)"
    "d' = ?d\<lparr>dec_position := dec_position ?d + length (cbor_bytes v)\<rparr>" by blast
  with d'(2) stands_at_whole show "\<exists>v. input = cbor_bytes v \<and> encoded nfc L True v"
    by (auto simp: new_decoder_def is_eof_def)
next
  assume "\<exists>v. input = cbor_bytes v \<and> encoded nfc L True v"
  then obtain v where "input = cbor_bytes v" "encoded nfc L True v" by blast
  with validate_one_complete [of "new_decoder input L" nfc v] assms show "validate nfc input L = Inr ()"
    by (simp add: validate_def new_decoder_def is_eof_def)
qed

text \<open>
  C1. Validation accepts a byte string exactly if it is the deterministic encoding of a data item within the
  limits, and that item is unique: minimal heads, no floats and no indefinite lengths, normalised
  UTF-8 texts, map keys strictly ascending in bytewise order, and depth, container, string and item limits.
\<close>

theorem validate_exact:
  assumes "fits L input"
  shows "validate nfc input L = Inr () \<longleftrightarrow> (\<exists>!v. input = cbor_bytes v \<and> encoded nfc L True v)"
proof -
  have "v = w" if "input = cbor_bytes v" "input = cbor_bytes w" for v w
    using cbor_unique [of input 0 v w] that assms by (simp add: fits_def)
  then show ?thesis unfolding validate_Inr [OF assms] by blast
qed

text \<open>
  C10. Re-encoding yields, for the encoding of an item with keys in any order, the encoding of its canonical form,
  in which the entries of every map are sorted by their encoded key; it refuses exactly the items with
  two equal keys in one map. What it returns is as long as the input, is accepted by the validation
  under the same limits, and is what re-encoding it again returns.
\<close>

theorem canonical_reencode_exact:
  assumes "fits L (cbor_bytes v)" and "encoded nfc L False v"
  shows "case canonical_reencode nfc L (cbor_bytes v) of
      Inl e \<Rightarrow> e = DuplicateKey \<and> \<not> unique_keys v
    | Inr out \<Rightarrow> unique_keys v \<and> out = cbor_bytes (canonical v) \<and> length out = length (cbor_bytes v)
        \<and> validate nfc out L = Inr () \<and> canonical_reencode nfc L out = Inr out"
proof (cases "unique_keys v")
  case True
  from encoded_canonical [OF assms(2) True] have c: "encoded nfc L True (canonical v)" .
  have f: "fits L (cbor_bytes (canonical v))" using fits_shorter [OF assms(1)] by simp
  from True c f show ?thesis
    using canonical_reencode_bytes [OF assms] validate_Inr [OF f] reencode_fixed [OF f c] by auto
qed (simp add: canonical_reencode_bytes [OF assms])

lemma validate_one_error:
  assumes fit: "fits (dec_limits d) (dec_input d)" and err: "validate_one nfc d = Inl e"
  shows "scan_error True e"
proof (cases "dec_position d \<le> length (dec_input d)")
  case False
  then have "slice_get (dec_input d) (dec_position d) (length (dec_input d)) = None" by (simp add: slice_get_def)
  with err show ?thesis by (simp add: validate_one_def Let_def scan_error_def)
next
  case True
  let ?rest = "drop (dec_position d) (dec_input d)"
  show ?thesis
  proof (cases "scan_item nfc (dec_limits d) True ?rest 0 0 0")
    case (Inl x)
    with err True have "e = x" by (simp add: validate_one_def Let_def slice_get_rest)
    with Inl scan_item_error show ?thesis by blast
  next
    case (Inr r)
    have "fits (dec_limits d) ?rest" by (rule fits_shorter [OF fit]) simp
    from Inr scan_item_iff [OF this] obtain v where "encoded nfc (dec_limits d) True v" "stands_at ?rest 0 (cbor_bytes v)"
      by (cases r) auto
    with validate_one_complete [OF fit] err show ?thesis by (simp add: stands_at_drop)
  qed
qed

text \<open>
  C36. Validation fails with trailing bytes exactly if a nonempty rest follows the encoding of an item
  within the limits; whatever is wrong with the item itself is reported first.
\<close>

theorem validate_trailing:
  assumes "fits L input"
  shows "validate nfc input L = Inl TrailingBytes \<longleftrightarrow>
     (\<exists>v rest. rest \<noteq> [] \<and> input = cbor_bytes v @ rest \<and> encoded nfc L True v)"
proof -
  let ?d = "new_decoder input L"
  have fit: "fits (dec_limits ?d) (dec_input ?d)" using assms by (simp add: new_decoder_def)
  show ?thesis
  proof
    assume err: "validate nfc input L = Inl TrailingBytes"
    have "validate_one nfc ?d \<noteq> Inl TrailingBytes" using validate_one_error [OF fit] by (auto simp: scan_error_def)
    with err obtain d' where d': "validate_one nfc ?d = Inr d'" "\<not> is_eof d'" by (auto simp: validate_def result_simps)
    from validate_one_sound [OF fit d'(1)] obtain v where v: "encoded nfc L True v" "stands_at input 0 (cbor_bytes v)"
      "d' = ?d\<lparr>dec_position := length (cbor_bytes v)\<rparr>" by (auto simp: new_decoder_def)
    let ?rest = "drop (length (cbor_bytes v)) input"
    have "input = cbor_bytes v @ ?rest" using v(2) by (simp add: stands_at_def) (metis append_take_drop_id)
    moreover have "?rest \<noteq> []" using v(2,3) d'(2) stands_at_bound [OF v(2) cbor_bytes_nonempty]
      by (auto simp: is_eof_def new_decoder_def)
    ultimately show "\<exists>v rest. rest \<noteq> [] \<and> input = cbor_bytes v @ rest \<and> encoded nfc L True v" using v(1) by blast
  next
    assume "\<exists>v rest. rest \<noteq> [] \<and> input = cbor_bytes v @ rest \<and> encoded nfc L True v"
    then obtain v rest where v: "rest \<noteq> []" "input = cbor_bytes v @ rest" "encoded nfc L True v" by blast
    have "stands_at input 0 (cbor_bytes v)" using v(2) by (simp add: stands_at_def)
    with validate_one_complete [OF fit, of nfc v] v show "validate nfc input L = Inl TrailingBytes"
      by (simp add: validate_def new_decoder_def is_eof_def)
  qed
qed

section \<open>Witnesses\<close>

definition sample_item :: cbor where
  "sample_item = Map [(UInt 1, Text [0x61]), (Simple 22, Array [])]"

definition unsorted_item :: cbor where
  "unsorted_item = Map [(Simple 22, Array []), (UInt 1, Text [0x61])]"

lemma sample_bytes: "cbor_bytes sample_item = [0xA2, 0x01, 0x61, 0x61, 0xF6, 0x80]"
  by (simp add: sample_item_def encode_head_def Let_def)

lemma sample_fits: "length input \<le> 100 \<Longrightarrow> fits ParserLimits_V1 input"
  by (simp add: fits_def ParserLimits_V1_def has_nonzero_security_budgets_def usize_max_def)

lemma sample_encoded: "encoded id ParserLimits_V1 True sample_item"
  by (simp add: encoded_def sample_item_def ParserLimits_V1_def encode_head_def Let_def)

lemma unsorted_encoded: "encoded id ParserLimits_V1 False unsorted_item"
  by (simp add: encoded_def unsorted_item_def ParserLimits_V1_def encode_head_def Let_def)

theorem validate_exact_witness: "validate id [0xA2, 0x01, 0x61, 0x61, 0xF6, 0x80] ParserLimits_V1 = Inr ()"
proof -
  have fit: "fits ParserLimits_V1 (cbor_bytes sample_item)" by (rule sample_fits) (simp add: sample_bytes)
  have "\<exists>!v. cbor_bytes sample_item = cbor_bytes v \<and> encoded id ParserLimits_V1 True v"
  proof (rule ex1I [of _ sample_item])
    show "cbor_bytes sample_item = cbor_bytes sample_item \<and> encoded id ParserLimits_V1 True sample_item"
      using sample_encoded by simp
    show "v = sample_item" if "cbor_bytes sample_item = cbor_bytes v \<and> encoded id ParserLimits_V1 True v" for v
      using cbor_unique [of "cbor_bytes sample_item" 0 v sample_item] that fit by (simp add: fits_def)
  qed
  with validate_exact [OF fit] show ?thesis unfolding sample_bytes [symmetric] by blast
qed

theorem canonical_reencode_exact_witness:
  "case canonical_reencode id ParserLimits_V1 (cbor_bytes unsorted_item) of
     Inl e \<Rightarrow> False | Inr out \<Rightarrow> length out = 6 \<and> validate id out ParserLimits_V1 = Inr ()"
proof -
  have b: "cbor_bytes unsorted_item = [0xA2, 0xF6, 0x80, 0x01, 0x61, 0x61]"
    by (simp add: unsorted_item_def encode_head_def Let_def)
  have "fits ParserLimits_V1 (cbor_bytes unsorted_item)" by (rule sample_fits) (simp add: b)
  from canonical_reencode_exact [OF this unsorted_encoded]
  show ?thesis by (auto simp: b unsorted_item_def encode_head_def Let_def split: sum.splits)
qed

theorem validate_trailing_witness:
  "validate id ([0xA2, 0x01, 0x61, 0x61, 0xF6, 0x80] @ [0]) ParserLimits_V1 = Inl TrailingBytes"
proof -
  have "fits ParserLimits_V1 (cbor_bytes sample_item @ [0])" by (rule sample_fits) (simp add: sample_bytes)
  from validate_trailing [OF this, of id] sample_encoded show ?thesis unfolding sample_bytes [symmetric] by blast
qed

end
