(* ===== verification/EaDestruction.thy ===== *)
theory EaDestruction
  imports EaPrelude
begin

text \<open>
  The states of a destruction operation. The executing side (\<^verbatim>\<open>crates/ea-destruction/src/state.rs\<close>) applies
  signed events one by one to a state machine; the verifying side
  (\<^verbatim>\<open>crates/ea-verify/src/destruction.rs\<close>) reconstructs the state from the unordered set of events it
  finds in an archive. Ordered maps (\<^verbatim>\<open>BTreeMap\<close>) that are iterated are lists of pairs with ascending
  keys; maps that are only looked up are functions.
\<close>

section \<open>States\<close>

datatype destruction_state = Requested | InProgress | PendingBackupExpiry | CompleteManagedScope
  | IncompleteUnreachableReplica

definition from_code :: "byte \<Rightarrow> destruction_state option" where
  "from_code c =
     (if c = 0 then Some Requested else if c = 1 then Some InProgress
      else if c = 2 then Some PendingBackupExpiry else if c = 3 then Some CompleteManagedScope
      else if c = 4 then Some IncompleteUnreachableReplica else None)"

fun state_code :: "destruction_state \<Rightarrow> byte" where
  "state_code Requested = 0"
| "state_code InProgress = 1"
| "state_code PendingBackupExpiry = 2"
| "state_code CompleteManagedScope = 3"
| "state_code IncompleteUnreachableReplica = 4"

fun may_advance_to :: "destruction_state \<Rightarrow> destruction_state \<Rightarrow> bool" where
  "may_advance_to Requested InProgress = True"
| "may_advance_to InProgress PendingBackupExpiry = True"
| "may_advance_to InProgress CompleteManagedScope = True"
| "may_advance_to InProgress IncompleteUnreachableReplica = True"
| "may_advance_to PendingBackupExpiry CompleteManagedScope = True"
| "may_advance_to PendingBackupExpiry IncompleteUnreachableReplica = True"
| "may_advance_to IncompleteUnreachableReplica InProgress = True"
| "may_advance_to _ _ = False"

definition transition_allowed :: "byte option \<Rightarrow> byte \<Rightarrow> bool" where
  "transition_allowed from to =
     (case (from, from_code to) of
        (None, Some Requested) \<Rightarrow> True
      | (Some f, Some t) \<Rightarrow> (case from_code f of None \<Rightarrow> False | Some s \<Rightarrow> may_advance_to s t)
      | _ \<Rightarrow> False)"

record transition_fields =
  tr_destruction_id :: id16
  tr_authorization :: hash32
  tr_event_id :: id16
  tr_previous :: "hash32 option"
  tr_from_state :: "byte option"
  tr_to_state :: byte
  tr_trigger_code :: u64
  tr_executed_at :: int

section \<open>The state machine of the executing side\<close>

datatype destruction_error = DFormat | PrivacyGate | DRegistry | Approvers | Signature | Target | Event
  | SecurityConflict | Operator | Audit | Storage

record destruction_event =
  de_fields :: transition_fields
  de_exact :: bytes
  de_hash :: hash32

record destruction_machine =
  sm_destruction :: id16
  sm_authorization :: hash32
  sm_state :: "destruction_state option"
  sm_last :: "hash32 option"
  sm_last_time :: "int option"
  sm_ids :: "id16 \<rightharpoonup> hash32 \<times> bytes"
  sm_hashes :: "hash32 \<rightharpoonup> bytes"

datatype apply_outcome = Advanced | Replay

definition sm_new :: "id16 \<Rightarrow> hash32 \<Rightarrow> destruction_machine" where
  "sm_new destruction authorization = \<lparr>sm_destruction = destruction, sm_authorization = authorization,
     sm_state = None, sm_last = None, sm_last_time = None, sm_ids = Map.empty, sm_hashes = Map.empty\<rparr>"

definition sm_apply ::
    "destruction_machine \<Rightarrow> destruction_event \<Rightarrow> destruction_error + apply_outcome \<times> destruction_machine" where
  "sm_apply m e =
     (let fields = de_fields e in
      if tr_destruction_id fields \<noteq> sm_destruction m \<or> tr_authorization fields \<noteq> sm_authorization m
      then Inl SecurityConflict
      else case sm_ids m (tr_event_id fields) of
        Some (hash, bytes) \<Rightarrow>
          if hash = de_hash e \<and> bytes = de_exact e then Inr (Replay, m) else Inl SecurityConflict
      | None \<Rightarrow>
          if sm_hashes m (de_hash e) \<noteq> None then Inl SecurityConflict
          else if tr_previous fields \<noteq> sm_last m
            \<or> tr_from_state fields \<noteq> map_option state_code (sm_state m)
            \<or> \<not> transition_allowed (tr_from_state fields) (tr_to_state fields)
            \<or> (case sm_last_time m of None \<Rightarrow> False | Some earlier \<Rightarrow> tr_executed_at fields < earlier)
          then Inl SecurityConflict
          else Inr (Advanced, m\<lparr>
            sm_ids := (sm_ids m)(tr_event_id fields \<mapsto> (de_hash e, de_exact e)),
            sm_hashes := (sm_hashes m)(de_hash e \<mapsto> de_exact e),
            sm_state := from_code (tr_to_state fields),
            sm_last := Some (de_hash e),
            sm_last_time := Some (tr_executed_at fields)\<rparr>))"

section \<open>The reconstruction of the verifying side\<close>

datatype quarantine_reason = Malformed | Duplicate | Conflicting | Unattributable

type_synonym quarantine = "hash32 \<rightharpoonup> quarantine_reason"

definition record_conflicting :: "quarantine \<Rightarrow> hash32 \<Rightarrow> quarantine" where
  "record_conflicting report object_hash = report(object_hash \<mapsto> Conflicting)"

record verified_event =
  ve_hash :: hash32
  ve_fields :: transition_fields

record authorized_destruction =
  ad_destruction_id :: id16
  ad_authorization :: hash32
  ad_state :: destruction_state

definition event_ids_seen :: "verified_event list \<Rightarrow> id16 \<Rightarrow> nat" where
  "event_ids_seen evs i = length (filter (\<lambda>e. tr_event_id (ve_fields e) = i) evs)"

definition contested_event_ids :: "quarantine \<Rightarrow> verified_event list \<Rightarrow> verified_event list \<times> quarantine" where
  "contested_event_ids report evs =
     (let contested = (\<lambda>e. event_ids_seen evs (tr_event_id (ve_fields e)) > 1) in
      (filter (\<lambda>e. \<not> contested e) evs,
       foldl (\<lambda>r e. record_conflicting r (ve_hash e)) report (filter contested evs)))"

text \<open>\<^verbatim>\<open>BTreeMap<ObjectHash, VerifiedEvent>\<close>, with the hash of each event as its key.\<close>

type_synonym pending_events = "verified_event list"

fun insert_pending :: "verified_event \<Rightarrow> pending_events \<Rightarrow> pending_events" where
  "insert_pending e [] = [e]"
| "insert_pending e (x # xs) =
     (if ve_hash e < ve_hash x then e # x # xs
      else if ve_hash e = ve_hash x then e # xs
      else x # insert_pending e xs)"

definition remove_pending :: "hash32 \<Rightarrow> pending_events \<Rightarrow> pending_events" where
  "remove_pending h pending = filter (\<lambda>e. ve_hash e \<noteq> h) pending"

definition record_all :: "quarantine \<Rightarrow> hash32 list \<Rightarrow> quarantine" where
  "record_all report hashes = foldl record_conflicting report hashes"

definition advanced_state :: "hash32 \<Rightarrow> destruction_state \<Rightarrow> transition_fields \<Rightarrow> destruction_state option" where
  "advanced_state authorization state f =
     (case from_code (tr_to_state f) of
        None \<Rightarrow> None
      | Some to \<Rightarrow>
          if tr_from_state f = Some (state_code state) \<and> tr_authorization f = authorization
            \<and> may_advance_to state to
          then Some to else None)"

definition successors_of :: "pending_events \<Rightarrow> hash32 \<Rightarrow> verified_event list" where
  "successors_of pending current =
     filter (\<lambda>e. tr_previous (ve_fields e) = Some current) pending"

function walk_events ::
    "hash32 \<Rightarrow> destruction_state \<Rightarrow> hash32 \<Rightarrow> pending_events \<Rightarrow> quarantine \<Rightarrow>
       destruction_state \<times> pending_events \<times> quarantine" where
  "walk_events authorization state current pending report =
     (case successors_of pending current of
        [] \<Rightarrow> (state, pending, report)
      | [nxt] \<Rightarrow>
          let pending' = remove_pending (ve_hash nxt) pending in
          (case advanced_state authorization state (ve_fields nxt) of
             None \<Rightarrow> (state, pending', record_conflicting report (ve_hash nxt))
           | Some next_state \<Rightarrow> walk_events authorization next_state (ve_hash nxt) pending' report)
      | several \<Rightarrow>
          (state, foldl (\<lambda>p e. remove_pending (ve_hash e) p) pending several,
           record_all report (map ve_hash several)))"
  by pat_completeness auto

termination
proof (relation "measure (\<lambda>(_, _, _, pending, _). length pending)")
  fix authorization :: hash32 and state next_state :: destruction_state and current :: hash32
    and pending pending' :: pending_events and report :: quarantine and nxt :: verified_event
    and rest :: "verified_event list"
  assume nxt: "successors_of pending current = nxt # rest" and p: "pending' = remove_pending (ve_hash nxt) pending"
  have "nxt \<in> set (successors_of pending current)" using nxt by simp
  then have "nxt \<in> set pending" by (simp add: successors_of_def)
  then have "length pending' < length pending" unfolding p remove_pending_def by (simp add: length_filter_less)
  then show "((authorization, next_state, ve_hash nxt, pending', report), authorization, state, current, pending, report)
      \<in> measure (\<lambda>(_, _, _, pending, _). length pending)" by simp
qed simp

declare walk_events.simps [simp del]

definition assess_destruction ::
    "quarantine \<Rightarrow> id16 \<Rightarrow> verified_event list \<Rightarrow> authorized_destruction option \<times> quarantine" where
  "assess_destruction report destruction_id evs =
     (let (events, report) = contested_event_ids report evs;
          pending = foldl (\<lambda>p e. insert_pending e p) [] events
      in case filter (\<lambda>e. tr_previous (ve_fields e) = None) pending of
           [root] \<Rightarrow>
             let pending = remove_pending (ve_hash root) pending; f = ve_fields root in
             if tr_from_state f \<noteq> None \<or> from_code (tr_to_state f) \<noteq> Some Requested
             then (None, record_all (record_conflicting report (ve_hash root)) (map ve_hash pending))
             else let (state, pending, report) =
                    walk_events (tr_authorization f) Requested (ve_hash root) pending report
                  in (Some \<lparr>ad_destruction_id = destruction_id, ad_authorization = tr_authorization f,
                        ad_state = state\<rparr>, record_all report (map ve_hash pending))
         | _ \<Rightarrow> (None, record_all report (map ve_hash pending)))"

section \<open>Histories of the state machine\<close>

text \<open>
  What a machine has seen: the log of the events that advanced it. Replayed events leave it as it is,
  refused events are not part of a history.
\<close>

inductive sm_history :: "id16 \<Rightarrow> hash32 \<Rightarrow> destruction_event list \<Rightarrow> destruction_machine \<Rightarrow> bool"
  for d :: id16 and a :: hash32 where
  Start: "sm_history d a [] (sm_new d a)"
| Advance: "sm_history d a log m \<Longrightarrow> sm_apply m e = Inr (Advanced, m') \<Longrightarrow> sm_history d a (log @ [e]) m'"
| Again: "sm_history d a log m \<Longrightarrow> sm_apply m e = Inr (Replay, m') \<Longrightarrow> sm_history d a log m'"

lemma from_state_code [simp]: "from_code (state_code s) = Some s"
  by (cases s) (simp_all add: from_code_def)

lemma state_code_inject [simp]: "state_code s = state_code t \<longleftrightarrow> s = t"
  by (cases s; cases t) simp_all

lemma from_code_Some: "from_code c = Some s \<longleftrightarrow> c = state_code s"
  by (cases s) (auto simp: from_code_def split: if_splits)

lemma transition_allowed_iff:
  "transition_allowed from to \<longleftrightarrow>
     (case from of None \<Rightarrow> to = 0
      | Some f \<Rightarrow> \<exists>s t. f = state_code s \<and> to = state_code t \<and> may_advance_to s t)"
proof (cases "from_code to")
  case None
  then have "to \<noteq> state_code t" for t by auto
  moreover have "to \<noteq> 0" using None by (auto simp: from_code_def)
  ultimately show ?thesis using None by (simp add: transition_allowed_def split: option.splits)
next
  case (Some t)
  then have to: "to = state_code t" by (simp add: from_code_Some)
  show ?thesis
  proof (cases "from")
    case None
    have "to = 0 \<longleftrightarrow> t = Requested" by (cases t) (simp_all add: to)
    then show ?thesis using None Some by (cases t) (simp_all add: transition_allowed_def)
  next
    case fr: (Some f)
    show ?thesis
    proof (cases "from_code f")
      case None
      then have "f \<noteq> state_code s" for s by auto
      then show ?thesis using None Some fr by (simp add: transition_allowed_def)
    next
      case (Some s)
      then have "f = state_code s" by (simp add: from_code_Some)
      then show ?thesis using Some \<open>from_code to = Some t\<close> fr by (simp add: transition_allowed_def to)
    qed
  qed
qed

lemma sm_apply_Replay: "sm_apply m e = Inr (Replay, m') \<Longrightarrow> m' = m"
  by (auto simp: sm_apply_def Let_def split: if_splits option.splits prod.splits)

lemma sm_apply_Advanced:
  "sm_apply m e = Inr (Advanced, m') \<longleftrightarrow>
     tr_destruction_id (de_fields e) = sm_destruction m \<and> tr_authorization (de_fields e) = sm_authorization m
     \<and> sm_ids m (tr_event_id (de_fields e)) = None \<and> sm_hashes m (de_hash e) = None
     \<and> tr_previous (de_fields e) = sm_last m \<and> tr_from_state (de_fields e) = map_option state_code (sm_state m)
     \<and> transition_allowed (tr_from_state (de_fields e)) (tr_to_state (de_fields e))
     \<and> (\<forall>t. sm_last_time m = Some t \<longrightarrow> t \<le> tr_executed_at (de_fields e))
     \<and> m' = m\<lparr>sm_ids := (sm_ids m)(tr_event_id (de_fields e) \<mapsto> (de_hash e, de_exact e)),
              sm_hashes := (sm_hashes m)(de_hash e \<mapsto> de_exact e), sm_state := from_code (tr_to_state (de_fields e)),
              sm_last := Some (de_hash e), sm_last_time := Some (tr_executed_at (de_fields e))\<rparr>"
  by (auto simp: sm_apply_def Let_def not_less split: if_splits option.splits prod.splits)

abbreviation event_id :: "destruction_event \<Rightarrow> id16" where "event_id e \<equiv> tr_event_id (de_fields e)"
abbreviation executed_at :: "destruction_event \<Rightarrow> int" where "executed_at e \<equiv> tr_executed_at (de_fields e)"

definition machine_of :: "id16 \<Rightarrow> hash32 \<Rightarrow> destruction_event list \<Rightarrow> destruction_machine" where
  "machine_of d a log = \<lparr>sm_destruction = d, sm_authorization = a,
     sm_state = (if log = [] then None else from_code (tr_to_state (de_fields (last log)))),
     sm_last = (if log = [] then None else Some (de_hash (last log))),
     sm_last_time = (if log = [] then None else Some (executed_at (last log))),
     sm_ids = map_of (map (\<lambda>e. (event_id e, (de_hash e, de_exact e))) log),
     sm_hashes = map_of (map (\<lambda>e. (de_hash e, de_exact e)) log)\<rparr>"

lemma map_of_front_new: "m k = None \<Longrightarrow> [k \<mapsto> v] ++ m = m(k \<mapsto> v)"
  by (auto simp: fun_eq_iff map_add_def split: option.splits)

lemma machine_of_log: "sm_history d a log m \<Longrightarrow> m = machine_of d a log"
proof (induction rule: sm_history.induct)
  case Start show ?case by (simp add: sm_new_def machine_of_def)
next
  case (Advance log m e m')
  from Advance.hyps(2) [unfolded sm_apply_Advanced] Advance.IH show ?case
    by (simp add: machine_of_def map_of_front_new)
next
  case (Again log m e m') then show ?case using sm_apply_Replay by blast
qed

section \<open>Linked chains of events\<close>

text \<open>
  \<^term>\<open>chain_state\<close> states what a complete and unforked history is: a root that requests the destruction,
  every later event naming the one before it, carrying the authorization of the root and making an
  allowed step. Its value is the state after the last event.
\<close>

fun path_state :: "hash32 \<Rightarrow> destruction_state \<Rightarrow> hash32 \<Rightarrow> verified_event list \<Rightarrow> destruction_state option" where
  "path_state a st h [] = Some st"
| "path_state a st h (e # es) =
     (if tr_previous (ve_fields e) = Some h
      then (case advanced_state a st (ve_fields e) of
              None \<Rightarrow> None | Some st' \<Rightarrow> path_state a st' (ve_hash e) es)
      else None)"

fun chain_state :: "verified_event list \<Rightarrow> destruction_state option" where
  "chain_state [] = None"
| "chain_state (r # es) =
     (if tr_previous (ve_fields r) = None \<and> tr_from_state (ve_fields r) = None \<and> tr_to_state (ve_fields r) = 0
      then path_state (tr_authorization (ve_fields r)) Requested (ve_hash r) es else None)"

definition seen :: "destruction_event \<Rightarrow> verified_event" where
  "seen e = \<lparr>ve_hash = de_hash e, ve_fields = de_fields e\<rparr>"

lemma seen_simps [simp]: "ve_hash (seen e) = de_hash e" "ve_fields (seen e) = de_fields e"
  by (simp_all add: seen_def)

definition log_ok :: "id16 \<Rightarrow> hash32 \<Rightarrow> destruction_event list \<Rightarrow> bool" where
  "log_ok d a log \<longleftrightarrow> (log = [] \<or> chain_state (map seen log) \<noteq> None)
     \<and> (\<forall>e \<in> set log. tr_destruction_id (de_fields e) = d \<and> tr_authorization (de_fields e) = a)
     \<and> distinct (map event_id log) \<and> distinct (map de_hash log) \<and> sorted (map executed_at log)"

lemma advanced_state_Some:
  "advanced_state a st f = Some t \<longleftrightarrow>
     tr_to_state f = state_code t \<and> tr_from_state f = Some (state_code st) \<and> tr_authorization f = a
     \<and> may_advance_to st t"
  by (auto simp: advanced_state_def from_code_Some split: option.splits)

lemma path_state_snoc:
  "path_state a st h (es @ [e]) =
     (case path_state a st h es of None \<Rightarrow> None
      | Some st' \<Rightarrow>
          if tr_previous (ve_fields e) = Some (if es = [] then h else ve_hash (last es))
          then advanced_state a st' (ve_fields e) else None)"
  by (induction es arbitrary: st h) (auto split: option.splits)

lemma chain_state_snoc:
  "es \<noteq> [] \<Longrightarrow> chain_state (es @ [e]) =
     (case chain_state es of None \<Rightarrow> None
      | Some st \<Rightarrow>
          if tr_previous (ve_fields e) = Some (ve_hash (last es))
          then advanced_state (tr_authorization (ve_fields (hd es))) st (ve_fields e) else None)"
  by (cases es) (simp_all add: path_state_snoc split: option.splits)

lemma chain_state_last:
  "chain_state es = Some st \<Longrightarrow> tr_to_state (ve_fields (last es)) = state_code st"
proof (induction es arbitrary: st rule: rev_induct)
  case (snoc e es)
  then show ?case
    by (cases "es = []") (auto simp: chain_state_snoc advanced_state_Some split: option.splits if_splits)
qed simp

lemma machine_state:
  assumes "log \<noteq> []" "log_ok d a log"
  shows "sm_state (machine_of d a log) = chain_state (map seen log)"
proof -
  obtain st where st: "chain_state (map seen log) = Some st" using assms by (auto simp: log_ok_def)
  then have "tr_to_state (de_fields (last log)) = state_code st"
    using chain_state_last [OF st] assms(1) by (simp add: last_map)
  then show ?thesis using assms(1) st by (simp add: machine_of_def)
qed

lemma sorted_snoc: "sorted (xs @ [x]) \<longleftrightarrow> sorted xs \<and> (xs = [] \<or> last xs \<le> x)" for x :: int
proof (cases xs rule: rev_cases)
  case (snoc ys y) then show ?thesis by (auto simp: sorted_append)
qed simp

lemma chain_link:
  assumes ok: "log_ok d a log" and "tr_authorization (de_fields e) = a"
  shows "tr_previous (de_fields e) = sm_last (machine_of d a log)
      \<and> tr_from_state (de_fields e) = map_option state_code (sm_state (machine_of d a log))
      \<and> transition_allowed (tr_from_state (de_fields e)) (tr_to_state (de_fields e))
    \<longleftrightarrow> chain_state (map seen (log @ [e])) \<noteq> None"
proof (cases "log = []")
  case True
  then show ?thesis by (auto simp: machine_of_def transition_allowed_iff)
next
  case False
  then obtain st where st: "chain_state (map seen log) = Some st" using ok by (auto simp: log_ok_def)
  have "sm_state (machine_of d a log) = Some st" using machine_state [OF False ok] st by simp
  moreover have "sm_last (machine_of d a log) = Some (de_hash (last log))" using False by (simp add: machine_of_def)
  moreover have "tr_authorization (de_fields (hd log)) = a" using ok False by (simp add: log_ok_def)
  moreover have "(tr_from_state (de_fields e) = Some (state_code st) \<and> transition_allowed (tr_from_state (de_fields e)) (tr_to_state (de_fields e)))
      \<longleftrightarrow> advanced_state a st (de_fields e) \<noteq> None"
    using assms(2) by (auto simp: transition_allowed_iff advanced_state_Some)
  ultimately show ?thesis using False st by (auto simp: chain_state_snoc hd_map last_map)
qed

lemma log_ok_snoc:
  assumes ok: "log_ok d a log"
  shows "sm_apply (machine_of d a log) e = Inr (Advanced, m') \<longleftrightarrow>
           log_ok d a (log @ [e]) \<and> m' = machine_of d a (log @ [e])"
    (is "?step \<longleftrightarrow> ?ok")
proof -
  let ?f = "de_fields e" and ?m = "machine_of d a log"
  have ids: "sm_ids ?m (event_id e) = None \<longleftrightarrow> event_id e \<notin> event_id ` set log"
    and hashes: "sm_hashes ?m (de_hash e) = None \<longleftrightarrow> de_hash e \<notin> de_hash ` set log"
    by (simp_all add: machine_of_def map_of_eq_None_iff image_image)
  let ?next = "?m\<lparr>sm_ids := (sm_ids ?m)(event_id e \<mapsto> (de_hash e, de_exact e)),
       sm_hashes := (sm_hashes ?m)(de_hash e \<mapsto> de_exact e), sm_state := from_code (tr_to_state ?f),
       sm_last := Some (de_hash e), sm_last_time := Some (executed_at e)\<rparr>"
  have nxt: "?next = machine_of d a (log @ [e])"
    if "sm_ids ?m (event_id e) = None" "sm_hashes ?m (de_hash e) = None"
    using that by (simp add: machine_of_def map_of_front_new)
  note link = chain_link [OF ok]
  have time: "(\<forall>t. sm_last_time ?m = Some t \<longrightarrow> t \<le> executed_at e) \<longleftrightarrow> (log = [] \<or> executed_at (last log) \<le> executed_at e)"
    by (simp add: machine_of_def)
  have own: "sm_destruction ?m = d" "sm_authorization ?m = a" by (simp_all add: machine_of_def)
  have "?step \<longleftrightarrow> tr_destruction_id ?f = d \<and> tr_authorization ?f = a \<and> event_id e \<notin> event_id ` set log
      \<and> de_hash e \<notin> de_hash ` set log \<and> chain_state (map seen (log @ [e])) \<noteq> None
      \<and> (log = [] \<or> executed_at (last log) \<le> executed_at e) \<and> m' = machine_of d a (log @ [e])"
    (is "_ \<longleftrightarrow> ?new")
  proof (cases "tr_authorization ?f = a \<and> sm_ids ?m (event_id e) = None \<and> sm_hashes ?m (de_hash e) = None")
    case True
    then have "tr_previous ?f = sm_last ?m \<and> tr_from_state ?f = map_option state_code (sm_state ?m)
      \<and> transition_allowed (tr_from_state ?f) (tr_to_state ?f) \<and> R
      \<longleftrightarrow> chain_state (map seen (log @ [e])) \<noteq> None \<and> R" for R using link by blast
    then show ?thesis using True nxt ids hashes by (simp only: sm_apply_Advanced time own simp_thms)
  next
    case False
    then show ?thesis by (simp only: sm_apply_Advanced own ids hashes) blast
  qed
  also have "\<dots> \<longleftrightarrow> ?ok" using ok
    by (auto simp: log_ok_def sorted_snoc last_map simp del: chain_state.simps)
  finally show ?thesis .
qed

lemma log_ok_butlast: "log_ok d a (log @ [e]) \<Longrightarrow> log_ok d a log"
  by (cases "log = []") (auto simp: log_ok_def sorted_snoc chain_state_snoc split: option.splits)

lemma history_log_ok: "sm_history d a log m \<Longrightarrow> log_ok d a log \<and> m = machine_of d a log"
proof (induction rule: sm_history.induct)
  case Start show ?case by (simp add: log_ok_def sm_new_def machine_of_def)
next
  case (Advance log m e m') then show ?case using log_ok_snoc by blast
next
  case (Again log m e m') then show ?case using sm_apply_Replay by blast
qed

lemma log_ok_history: "log_ok d a log \<Longrightarrow> sm_history d a log (machine_of d a log)"
proof (induction log rule: rev_induct)
  case Nil
  then show ?case using sm_history.Start [of d a] by (simp add: sm_new_def machine_of_def)
next
  case (snoc e log)
  then have ok: "log_ok d a log" by (rule_tac log_ok_butlast)
  then show ?case using sm_history.Advance [OF snoc.IH [OF ok]] log_ok_snoc [OF ok] snoc.prems by blast
qed

section \<open>Driving an operation to its end\<close>

text \<open>
  The event that continues a machine, with the fresh identifier, hash, bytes and time of \<open>stamp\<close>, and the
  shortest way from a state to completion.
\<close>

type_synonym stamp = "id16 \<times> hash32 \<times> bytes \<times> int"

definition next_event :: "destruction_machine \<Rightarrow> destruction_state \<Rightarrow> stamp \<Rightarrow> destruction_event" where
  "next_event m to stamp = (case stamp of (i, h, b, t) \<Rightarrow>
     \<lparr>de_fields = \<lparr>tr_destruction_id = sm_destruction m, tr_authorization = sm_authorization m, tr_event_id = i,
        tr_previous = sm_last m, tr_from_state = map_option state_code (sm_state m), tr_to_state = state_code to,
        tr_trigger_code = 0, tr_executed_at = t\<rparr>,
      de_exact = b, de_hash = h\<rparr>)"

fun drive :: "destruction_machine \<Rightarrow> stamp list \<Rightarrow> destruction_state list \<Rightarrow> destruction_error + destruction_machine" where
  "drive m (stamp # stamps) (to # tos) =
     (case sm_apply m (next_event m to stamp) of Inl err \<Rightarrow> Inl err | Inr (_, m') \<Rightarrow> drive m' stamps tos)"
| "drive m _ _ = Inr m"

fun route :: "destruction_state option \<Rightarrow> destruction_state list" where
  "route None = [Requested, InProgress, CompleteManagedScope]"
| "route (Some Requested) = [InProgress, CompleteManagedScope]"
| "route (Some InProgress) = [CompleteManagedScope]"
| "route (Some PendingBackupExpiry) = [CompleteManagedScope]"
| "route (Some IncompleteUnreachableReplica) = [InProgress, CompleteManagedScope]"
| "route (Some CompleteManagedScope) = []"

definition fresh_stamps :: "destruction_machine \<Rightarrow> stamp list \<Rightarrow> bool" where
  "fresh_stamps m stamps \<longleftrightarrow>
     distinct (map fst stamps) \<and> (\<forall>s \<in> set stamps. sm_ids m (fst s) = None)
     \<and> distinct (map (fst \<circ> snd) stamps) \<and> (\<forall>s \<in> set stamps. sm_hashes m (fst (snd s)) = None)
     \<and> sorted (map (snd \<circ> snd \<circ> snd) stamps)
     \<and> (\<forall>s \<in> set stamps. \<forall>t. sm_last_time m = Some t \<longrightarrow> t \<le> snd (snd (snd s)))"

fun allowed_route :: "destruction_state option \<Rightarrow> destruction_state list \<Rightarrow> bool" where
  "allowed_route st [] = True"
| "allowed_route st (to # tos) \<longleftrightarrow> transition_allowed (map_option state_code st) (state_code to) \<and> allowed_route (Some to) tos"

lemma drive_route:
  "allowed_route (sm_state m) tos \<Longrightarrow> length stamps = length tos \<Longrightarrow> fresh_stamps m stamps \<Longrightarrow>
     \<exists>m'. drive m stamps tos = Inr m' \<and> sm_state m' = (if tos = [] then sm_state m else Some (last tos))"
proof (induction m stamps tos rule: drive.induct)
  case (1 m stamp stamps to tos)
  obtain i h b t where stamp: "stamp = (i, h, b, t)" by (cases stamp)
  let ?e = "next_event m to stamp"
  obtain m' where m': "sm_apply m ?e = Inr (Advanced, m')"
    and st: "sm_state m' = Some to" "sm_last_time m' = Some t"
      "sm_ids m' = (sm_ids m)(i \<mapsto> (h, b))" "sm_hashes m' = (sm_hashes m)(h \<mapsto> b)"
    using "1.prems" by (auto simp: sm_apply_Advanced next_event_def stamp fresh_stamps_def)
  have "fresh_stamps m' stamps" using "1.prems"(3) by (auto simp: fresh_stamps_def st stamp)
  then show ?case using "1.IH" [OF m' refl] "1.prems"(1,2) m' st(1) by auto
qed simp_all

lemma allowed_complete_route: "allowed_route st (route st)"
  by (cases st rule: route.cases) (simp_all add: transition_allowed_def from_code_def)



text \<open>
  C18. The reachable states of the destruction state machine are exactly the machines of well-formed logs: a
  request first, every event bound to its predecessor and to the authorization, allowed steps only, distinct
  event identifiers and hashes, and execution times that never run backwards. Everything the machine remembers
  is a function of the log.
\<close>

theorem machine_history_exact:
  "sm_history d a log m \<longleftrightarrow> log_ok d a log \<and> m = machine_of d a log"
  using history_log_ok log_ok_history by blast

lemma log_replay: "log_ok d a log \<Longrightarrow> e \<in> set log \<Longrightarrow> sm_apply (machine_of d a log) e = Inr (Replay, machine_of d a log)"
proof -
  assume ok: "log_ok d a log" and e: "e \<in> set log"
  have "sm_ids (machine_of d a log) (event_id e) = Some (de_hash e, de_exact e)"
    using ok e by (auto simp: machine_of_def log_ok_def comp_def intro!: map_of_is_SomeI)
  moreover have "tr_destruction_id (de_fields e) = d" "tr_authorization (de_fields e) = a"
    using ok e by (simp_all add: log_ok_def)
  moreover have "sm_destruction (machine_of d a log) = d" "sm_authorization (machine_of d a log) = a"
    by (simp_all add: machine_of_def)
  ultimately show ?thesis by (simp add: sm_apply_def)
qed

lemma chain_complete_ends: "chain_state es = Some CompleteManagedScope \<Longrightarrow> chain_state (es @ [e]) = None"
  by (cases "es = []") (auto simp: chain_state_snoc advanced_state_def split: option.splits if_splits)

lemma chain_leaves_requested: "1 < length es \<Longrightarrow> chain_state es \<noteq> Some Requested"
proof (cases es rule: rev_cases)
  case (snoc ys y)
  have "may_advance_to s Requested = False" for s by (cases s) simp_all
  then show "1 < length es \<Longrightarrow> chain_state es \<noteq> Some Requested"
    using snoc by (auto simp: chain_state_snoc advanced_state_Some split: option.splits if_splits)
qed simp

text \<open>
  C25. In every reachable state, an event that was already applied is a replay that changes nothing, a completed
  operation accepts no further event, the operation never falls back to the requested state, and the only error
  is the security conflict.
\<close>

theorem machine_replays_and_ends:
  assumes "sm_history d a log m"
  shows "(\<forall>e \<in> set log. sm_apply m e = Inr (Replay, m))
    \<and> (sm_state m = Some CompleteManagedScope \<longrightarrow> (\<forall>e m'. sm_apply m e \<noteq> Inr (Advanced, m')))
    \<and> (1 < length log \<longrightarrow> sm_state m \<noteq> Some Requested)
    \<and> (\<forall>e err. sm_apply m e = Inl err \<longrightarrow> err = SecurityConflict)"
proof (intro conjI allI impI ballI)
  have ok: "log_ok d a log" and m: "m = machine_of d a log" using history_log_ok [OF assms] by simp_all
  show "sm_apply m e = Inr (Replay, m)" if "e \<in> set log" for e using log_replay [OF ok that] m by simp
  show "sm_apply m e \<noteq> Inr (Advanced, m')" if st: "sm_state m = Some CompleteManagedScope" for e m'
  proof -
    have "log \<noteq> []" using st by (auto simp: m machine_of_def)
    then have "chain_state (map seen log) = Some CompleteManagedScope" using machine_state [OF _ ok] st m by simp
    then have "\<not> log_ok d a (log @ [e])"
      using chain_complete_ends [of "map seen log" "seen e"] by (simp add: log_ok_def)
    then show ?thesis unfolding m log_ok_snoc [OF ok] by simp
  qed
  show "sm_state m \<noteq> Some Requested" if "1 < length log"
  proof -
    have "log \<noteq> []" using that by auto
    then show ?thesis using machine_state [OF _ ok] chain_leaves_requested [of "map seen log"] that m by simp
  qed
  show "err = SecurityConflict" if "sm_apply m e = Inl err" for e err
    using that by (auto simp: sm_apply_def Let_def split: if_splits option.splits prod.splits)
qed

definition sample_event :: "byte \<Rightarrow> hash32 option \<Rightarrow> byte option \<Rightarrow> byte \<Rightarrow> int \<Rightarrow> destruction_event" where
  "sample_event n prev from to t =
     \<lparr>de_fields = \<lparr>tr_destruction_id = [1], tr_authorization = [2], tr_event_id = [n], tr_previous = prev,
        tr_from_state = from, tr_to_state = to, tr_trigger_code = 0, tr_executed_at = t\<rparr>,
      de_exact = [n], de_hash = [n]\<rparr>"

definition sample_log :: "destruction_event list" where
  "sample_log = [sample_event 10 None None 0 5, sample_event 11 (Some [10]) (Some 0) 1 5,
     sample_event 12 (Some [11]) (Some 1) 3 6]"

lemma sample_log_ok: "log_ok [1] [2] sample_log"
  by (simp add: log_ok_def sample_log_def sample_event_def seen_def advanced_state_def from_code_def)

theorem machine_replays_and_ends_witness:
  "sm_apply (machine_of [1] [2] sample_log) (sample_event 11 (Some [10]) (Some 0) 1 5)
     = Inr (Replay, machine_of [1] [2] sample_log)
   \<and> (\<forall>e m'. sm_apply (machine_of [1] [2] sample_log) e \<noteq> Inr (Advanced, m'))"
proof -
  note h = log_ok_history [OF sample_log_ok]
  have "sm_state (machine_of [1] [2] sample_log) = Some CompleteManagedScope"
    by (simp add: machine_of_def sample_log_def sample_event_def from_code_def)
  then show ?thesis using machine_replays_and_ends [OF h] by (simp add: sample_log_def)
qed

end
