(* ===== verification/EaDestructionAssess.thy ===== *)
theory EaDestructionAssess
  imports EaDestruction
begin

text \<open>
  The verifying side of destruction (\<^verbatim>\<open>crates/ea-verify/src/destruction.rs\<close>): what the reconstruction from an
  unordered group of events concludes, and that it agrees with the state machine of the executing side.
\<close>

section \<open>What the verifying side concludes\<close>

lemma record_all_apply: "record_all r hs h = (if h \<in> set hs then Some Conflicting else r h)"
  by (induction hs arbitrary: r) (simp_all add: record_all_def record_conflicting_def)

definition contested :: "verified_event list \<Rightarrow> verified_event \<Rightarrow> bool" where
  "contested evs e \<longleftrightarrow> event_ids_seen evs (tr_event_id (ve_fields e)) > 1"

lemma contested_event_ids_eq:
  "contested_event_ids report evs =
     (filter (\<lambda>e. \<not> contested evs e) evs, record_all report (map ve_hash (filter (contested evs) evs)))"
  by (simp add: contested_event_ids_def contested_def [abs_def] record_all_def foldl_map)

lemma insert_pending_facts:
  assumes "ve_hash e \<notin> ve_hash ` set p" "distinct (map ve_hash p)"
  shows "set (insert_pending e p) = insert e (set p)" "distinct (map ve_hash (insert_pending e p))"
proof -
  have set: "ve_hash e \<notin> ve_hash ` set p \<Longrightarrow> set (insert_pending e p) = insert e (set p)" for p
    by (induction p) auto
  with assms show "set (insert_pending e p) = insert e (set p)" by simp
  from assms show "distinct (map ve_hash (insert_pending e p))" by (induction p) (auto simp: set)
qed

lemma pending_facts:
  assumes "distinct (map ve_hash (p @ evs))"
  shows "set (foldl (\<lambda>p e. insert_pending e p) p evs) = set p \<union> set evs
    \<and> distinct (map ve_hash (foldl (\<lambda>p e. insert_pending e p) p evs))"
  using assms
proof (induction evs arbitrary: p)
  case (Cons e evs)
  have p: "ve_hash e \<notin> ve_hash ` set p" "distinct (map ve_hash p)" using Cons.prems by auto
  then have "distinct (map ve_hash (insert_pending e p @ evs))"
    using Cons.prems by (auto simp: insert_pending_facts)
  from Cons.IH [OF this] show ?case using insert_pending_facts [OF p] by auto
qed simp

lemma remove_pending_facts:
  assumes "distinct (map ve_hash p)" "e \<in> set p"
  shows "set (remove_pending (ve_hash e) p) = set p - {e}" "distinct (map ve_hash (remove_pending (ve_hash e) p))"
proof -
  have "inj_on ve_hash (set p)" using assms(1) by (simp add: distinct_map)
  then show "set (remove_pending (ve_hash e) p) = set p - {e}"
    using assms(2) by (auto simp: remove_pending_def dest: inj_onD)
  show "distinct (map ve_hash (remove_pending (ve_hash e) p))"
    using assms(1) by (simp add: remove_pending_def distinct_map_filter)
qed

lemma remove_several:
  "set (foldl (\<lambda>p e. remove_pending (ve_hash e) p) p es) = {e \<in> set p. ve_hash e \<notin> ve_hash ` set es}"
  by (induction es arbitrary: p) (auto simp: remove_pending_def)

definition undisputed :: "verified_event list \<Rightarrow> verified_event list \<Rightarrow> bool" where
  "undisputed p es \<longleftrightarrow>
     (\<forall>e \<in> set es. \<forall>e' \<in> set p. tr_previous (ve_fields e') = tr_previous (ve_fields e) \<longrightarrow> e' = e)"

lemma undisputed_Cons:
  assumes "undisputed q es" "set q = set p - {x}" "set es \<subseteq> set q" "tr_previous (ve_fields x) = Some h"
    and only: "\<And>e. e \<in> set p \<Longrightarrow> tr_previous (ve_fields e) = Some h \<Longrightarrow> e = x"
  shows "undisputed p (x # es)"
  unfolding undisputed_def
proof (intro ballI impI)
  fix e e'
  assume e: "e \<in> set (x # es)" and e': "e' \<in> set p" "tr_previous (ve_fields e') = tr_previous (ve_fields e)"
  show "e' = e"
  proof (cases "tr_previous (ve_fields e) = Some h")
    case True
    have "e = x" using e only True assms(2,3) by auto
    then show ?thesis using only e' True by simp
  next
    case False
    then have "e \<noteq> x" "e' \<noteq> x" using e'(2) assms(4) by metis+
    then have "e \<in> set es" "e' \<in> set q" using e e'(1) assms(2) by simp_all
    then show ?thesis using assms(1) e'(2) by (simp add: undisputed_def)
  qed
qed

lemma walk_events_facts:
  assumes "walk_events a st h p r = (st', p', r')" "distinct (map ve_hash p)"
  shows "\<exists>es. path_state a st h es = Some st' \<and> set es \<subseteq> set p \<and> distinct es \<and> undisputed p es
    \<and> (\<forall>x. record_all r' (map ve_hash p') x =
             (if x \<in> ve_hash ` (set p - set es) then Some Conflicting else r x))"
    (is "\<exists>es. ?good a st h p r es")
  using assms
proof (induction a st h p r rule: walk_events.induct)
  case (1 a st h p r)
  note walk = "1.prems"(1) [unfolded walk_events.simps [of a st h p r]]
  consider (none) "successors_of p h = []" | (one) nxt where "successors_of p h = [nxt]"
    | (several) x y zs where "successors_of p h = x # y # zs"
    by (cases "successors_of p h" rule: remdups_adj.cases) auto
  then show ?case
  proof cases
    case none
    then have "?good a st h p r []" using walk by (simp add: record_all_apply undisputed_def)
    then show ?thesis by (rule exI)
  next
    case several
    let ?s = "successors_of p h"
    have sub: "set ?s \<subseteq> set p" by (auto simp: successors_of_def)
    have eq: "st' = st" "p' = foldl (\<lambda>p e. remove_pending (ve_hash e) p) p ?s" "r' = record_all r (map ve_hash ?s)"
      using walk several by simp_all
    have "ve_hash ` set p' \<union> ve_hash ` set ?s = ve_hash ` set p" unfolding eq(2) remove_several using sub by auto
    then have "?good a st h p r []"
      unfolding eq(1,3) by (simp add: record_all_apply undisputed_def) blast
    then show ?thesis by (rule exI)
  next
    case (one nxt)
    have "set (successors_of p h) = {nxt}" using one by simp
    then have nxt: "nxt \<in> set p" "tr_previous (ve_fields nxt) = Some h"
      and only: "e \<in> set p \<Longrightarrow> tr_previous (ve_fields e) = Some h \<Longrightarrow> e = nxt" for e
      by (auto simp: successors_of_def)
    note rest = remove_pending_facts [OF "1.prems"(2) nxt(1)]
    show ?thesis
    proof (cases "advanced_state a st (ve_fields nxt)")
      case None
      then have eq: "st' = st" "p' = remove_pending (ve_hash nxt) p" "r' = record_conflicting r (ve_hash nxt)"
        using walk one by simp_all
      have "insert (ve_hash nxt) (ve_hash ` set p') = ve_hash ` set p" unfolding eq(2) rest(1) using nxt(1) by blast
      then have "?good a st h p r []"
        unfolding eq(1,3) by (simp add: record_all_apply undisputed_def record_conflicting_def) blast
      then show ?thesis by (rule exI)
    next
      case (Some st2)
      from walk one Some have w: "walk_events a st2 (ve_hash nxt) (remove_pending (ve_hash nxt) p) r = (st', p', r')"
        by simp
      obtain es where es: "?good a st2 (ve_hash nxt) (remove_pending (ve_hash nxt) p) r es"
        using "1.IH" [OF one refl refl Some w rest(2)] by blast
      have "set p - set (nxt # es) = set (remove_pending (ve_hash nxt) p) - set es" using rest(1) by auto
      moreover have "undisputed p (nxt # es)"
        using undisputed_Cons [OF _ rest(1) _ nxt(2) only] es by simp
      moreover have "path_state a st h (nxt # es) = Some st'" using es nxt(2) Some by simp
      moreover have "set (nxt # es) \<subseteq> set p" "distinct (nxt # es)" using es nxt(1) rest(1) by auto
      ultimately have "?good a st h p r (nxt # es)" using es by presburger
      then show ?thesis by (rule exI)
    qed
  qed
qed

definition uncontested :: "verified_event list \<Rightarrow> verified_event list" where
  "uncontested evs = filter (\<lambda>e. \<not> contested evs e) evs"

definition pending_of :: "verified_event list \<Rightarrow> pending_events" where
  "pending_of evs = foldl (\<lambda>p e. insert_pending e p) [] (uncontested evs)"

definition roots_of :: "verified_event list \<Rightarrow> verified_event list" where
  "roots_of evs = filter (\<lambda>e. tr_previous (ve_fields e) = None) (pending_of evs)"

definition is_request :: "verified_event \<Rightarrow> bool" where
  "is_request e \<longleftrightarrow> tr_previous (ve_fields e) = None \<and> tr_from_state (ve_fields e) = None \<and> tr_to_state (ve_fields e) = 0"

lemma pending_of_facts:
  assumes "distinct (map ve_hash evs)"
  shows "set (pending_of evs) = set (uncontested evs)" "distinct (map ve_hash (pending_of evs))"
  using pending_facts [of "[]" "uncontested evs"] assms
  by (simp_all add: pending_of_def uncontested_def distinct_map_filter)

lemma undisputed_cong: "set p = set q \<Longrightarrow> undisputed p es = undisputed q es"
  by (simp add: undisputed_def)

lemma quarantine_split:
  assumes "distinct (map ve_hash evs)" "set es \<subseteq> set (uncontested evs)"
  shows "(if x \<in> ve_hash ` (set (uncontested evs) - set es) then Some Conflicting
          else record_all report (map ve_hash (filter (contested evs) evs)) x)
       = (if x \<in> ve_hash ` (set evs - set es) then Some Conflicting else report x)"
proof -
  have "set evs - set es = (set (uncontested evs) - set es) \<union> set (filter (contested evs) evs)"
    using assms(2) by (auto simp: uncontested_def)
  then have "ve_hash ` (set evs - set es) =
      ve_hash ` (set (uncontested evs) - set es) \<union> set (map ve_hash (filter (contested evs) evs))"
    by (simp add: image_Un)
  then show ?thesis by (simp add: record_all_apply)
qed

lemma assess_destruction_eq:
  "assess_destruction report d evs =
     (let report = record_all report (map ve_hash (filter (contested evs) evs)) in
      case roots_of evs of
        [root] \<Rightarrow>
          if is_request root
          then let (st, p, r) = walk_events (tr_authorization (ve_fields root)) Requested (ve_hash root)
                                  (remove_pending (ve_hash root) (pending_of evs)) report
               in (Some \<lparr>ad_destruction_id = d, ad_authorization = tr_authorization (ve_fields root), ad_state = st\<rparr>,
                   record_all r (map ve_hash p))
          else (None, record_all (record_conflicting report (ve_hash root))
                  (map ve_hash (remove_pending (ve_hash root) (pending_of evs))))
      | _ \<Rightarrow> (None, record_all report (map ve_hash (pending_of evs))))"
proof -
  have request: "is_request r \<longleftrightarrow> tr_from_state (ve_fields r) = None \<and> from_code (tr_to_state (ve_fields r)) = Some Requested"
    if "roots_of evs = [r]" for r
  proof -
    have "r \<in> set (roots_of evs)" using that by simp
    then show ?thesis by (auto simp: roots_of_def is_request_def from_code_Some)
  qed
  have "filter (\<lambda>e. tr_previous (ve_fields e) = None) (foldl (\<lambda>p e. insert_pending e p) [] (uncontested evs)) = roots_of evs"
    by (simp add: roots_of_def pending_of_def)
  then show ?thesis
    unfolding assess_destruction_def contested_event_ids_eq uncontested_def [symmetric]
    by (cases "roots_of evs" rule: remdups_adj.cases)
       (simp_all add: request Let_def pending_of_def [symmetric])
qed

lemma assess_none:
  assumes hashes: "distinct (map ve_hash evs)" and none: "\<nexists>root. roots_of evs = [root] \<and> is_request root"
  shows "assess_destruction report d evs =
    (None, \<lambda>x. if x \<in> ve_hash ` set evs then Some Conflicting else report x)"
proof -
  note p = pending_of_facts [OF hashes]
  let ?r = "record_all report (map ve_hash (filter (contested evs) evs))"
  have all: "record_all ?r (map ve_hash (pending_of evs)) = (\<lambda>x. if x \<in> ve_hash ` set evs then Some Conflicting else report x)"
    using quarantine_split [OF hashes, of "[]" _ report] by (simp add: fun_eq_iff record_all_apply p(1))
  show ?thesis
  proof (cases "\<exists>root. roots_of evs = [root]")
    case True
    then obtain root where root: "roots_of evs = [root]" "\<not> is_request root" using none by blast
    have "root \<in> set (roots_of evs)" using root by simp
    then have "root \<in> set (pending_of evs)" by (simp add: roots_of_def)
    then have "set (remove_pending (ve_hash root) (pending_of evs)) = set (pending_of evs) - {root}"
        "insert (ve_hash root) (ve_hash ` (set (pending_of evs) - {root})) = ve_hash ` set (pending_of evs)"
      using remove_pending_facts(1) [OF p(2)] by auto
    then have "record_all (record_conflicting ?r (ve_hash root)) (map ve_hash (remove_pending (ve_hash root) (pending_of evs)))
        = record_all ?r (map ve_hash (pending_of evs))"
      by (simp add: fun_eq_iff record_all_apply record_conflicting_def) blast
    then show ?thesis unfolding assess_destruction_eq Let_def using root all by simp
  next
    case False
    then show ?thesis unfolding assess_destruction_eq Let_def
      by (cases "roots_of evs" rule: remdups_adj.cases) (simp_all only: list.case all not_ex, simp)
  qed
qed

lemma roots_of_undisputed:
  assumes "distinct (map ve_hash evs)" "e \<in> set (uncontested evs)" "tr_previous (ve_fields e) = None"
  shows "undisputed (uncontested evs) [e] \<longleftrightarrow> roots_of evs = [e]"
proof -
  note p = pending_of_facts [OF assms(1)]
  have "distinct (roots_of evs)" using p(2) by (simp add: roots_of_def distinct_map)
  moreover have "e \<in> set (roots_of evs)" using assms p(1) by (simp add: roots_of_def)
  ultimately have "roots_of evs = [e] \<longleftrightarrow> set (roots_of evs) \<subseteq> {e}"
    by (cases "roots_of evs" rule: remdups_adj.cases) auto
  then show ?thesis using assms(3) by (auto simp: roots_of_def undisputed_def p(1))
qed

lemma undisputed_root:
  assumes hashes: "distinct (map ve_hash evs)" and root: "roots_of evs = [root]" "is_request root"
    and und: "undisputed q es" and q: "set q = set (pending_of evs) - {root}" "set es \<subseteq> set q"
  shows "undisputed (uncontested evs) (root # es)"
  unfolding undisputed_def
proof (intro ballI impI)
  note p = pending_of_facts(1) [OF hashes]
  fix e e' assume e: "e \<in> set (root # es)" and e': "e' \<in> set (uncontested evs)"
    "tr_previous (ve_fields e') = tr_previous (ve_fields e)"
  have only: "x = root" if "x \<in> set (uncontested evs)" "tr_previous (ve_fields x) = None" for x
  proof -
    have "x \<in> set (roots_of evs)" using that p by (simp add: roots_of_def)
    then show ?thesis using root by simp
  qed
  have prev: "tr_previous (ve_fields root) = None" using root(2) by (simp add: is_request_def)
  show "e' = e"
  proof (cases "tr_previous (ve_fields e) = None")
    case True
    have "root \<in> set (roots_of evs)" using root(1) by simp
    then have "root \<in> set (pending_of evs)" by (simp add: roots_of_def)
    then have "set (root # es) \<subseteq> set (uncontested evs)" using q p by auto
    then have "e \<in> set (uncontested evs)" using e by (rule subsetD)
    then have "e = root" using True by (rule only)
    moreover have "e' = root" using e' True by (intro only) simp_all
    ultimately show ?thesis by simp
  next
    case False
    then have "e \<noteq> root" "e' \<noteq> root" using e'(2) prev by metis+
    then have "e \<in> set es" "e' \<in> set q" using e e'(1) q p by simp_all
    then show ?thesis using und e'(2) by (simp add: undisputed_def)
  qed
qed

lemma assess_some:
  assumes hashes: "distinct (map ve_hash evs)" and root: "roots_of evs = [root]" "is_request root"
  shows "\<exists>es st. assess_destruction report d evs =
      (Some \<lparr>ad_destruction_id = d, ad_authorization = tr_authorization (ve_fields root), ad_state = st\<rparr>,
       \<lambda>x. if x \<in> ve_hash ` (set evs - set (root # es)) then Some Conflicting else report x)
    \<and> chain_state (root # es) = Some st \<and> distinct (root # es) \<and> set (root # es) \<subseteq> set (uncontested evs)
    \<and> undisputed (uncontested evs) (root # es)"
proof -
  let ?q = "record_all report (map ve_hash (filter (contested evs) evs))"
  let ?p = "remove_pending (ve_hash root) (pending_of evs)" and ?a = "tr_authorization (ve_fields root)"
  note p = pending_of_facts [OF hashes]
  have "root \<in> set (roots_of evs)" using root by simp
  then have in_p: "root \<in> set (pending_of evs)" by (simp add: roots_of_def)
  note rest = remove_pending_facts [OF p(2) in_p]
  obtain st p' r' where w: "walk_events ?a Requested (ve_hash root) ?p ?q = (st, p', r')"
    by (metis prod_cases3)
  obtain es where path: "path_state ?a Requested (ve_hash root) es = Some st" and es: "set es \<subseteq> set ?p" "distinct es"
    and und: "undisputed ?p es"
    and quar: "\<And>x. record_all r' (map ve_hash p') x =
             (if x \<in> ve_hash ` (set ?p - set es) then Some Conflicting else ?q x)"
    using walk_events_facts [OF w rest(2)] by blast
  have sub: "set (root # es) \<subseteq> set (uncontested evs)" using es(1) rest(1) p(1) in_p by auto
  have "set ?p - set es = set (uncontested evs) - set (root # es)" using rest(1) p(1) by auto
  then have "record_all r' (map ve_hash p') = (\<lambda>x. if x \<in> ve_hash ` (set evs - set (root # es)) then Some Conflicting else report x)"
    using quarantine_split [OF hashes sub, of _ report] by (simp only: fun_eq_iff quar simp_thms)
  then have assess: "assess_destruction report d evs =
      (Some \<lparr>ad_destruction_id = d, ad_authorization = ?a, ad_state = st\<rparr>,
       \<lambda>x. if x \<in> ve_hash ` (set evs - set (root # es)) then Some Conflicting else report x)"
    unfolding assess_destruction_eq Let_def using root w by simp
  have "chain_state (root # es) = Some st" using root(2) path by (simp add: is_request_def)
  moreover have "distinct (root # es)" using es rest(1) by auto
  moreover have "undisputed (uncontested evs) (root # es)"
    using undisputed_root [OF hashes root und rest(1) es(1)] .
  ultimately show ?thesis using assess sub by blast
qed

text \<open>
  C9. What the verifier reports of a destruction rests on a linked chain of events from one request, each the
  only event of its kind after its predecessor, with uncontested identifiers; every other event of the operation,
  and nothing else, is isolated as conflicting. It reports no state only if no undisputed request exists.
\<close>

theorem assess_destruction_sound:
  assumes "distinct (map ve_hash evs)" "assess_destruction report d evs = (res, report')"
  shows "\<exists>chain. distinct chain \<and> set chain \<subseteq> set (uncontested evs) \<and> undisputed (uncontested evs) chain
    \<and> report' = (\<lambda>x. if x \<in> ve_hash ` (set evs - set chain) then Some Conflicting else report x)
    \<and> (case res of
         None \<Rightarrow> chain = [] \<and> (\<forall>r \<in> set (uncontested evs). chain_state [r] = None \<or> \<not> undisputed (uncontested evs) [r])
       | Some r \<Rightarrow> ad_destruction_id r = d \<and> ad_authorization r = tr_authorization (ve_fields (hd chain))
           \<and> chain_state chain = Some (ad_state r))"
proof (cases "\<exists>root. roots_of evs = [root] \<and> is_request root")
  case True
  then obtain root where root: "roots_of evs = [root]" "is_request root" by blast
  obtain es st where "assess_destruction report d evs =
      (Some \<lparr>ad_destruction_id = d, ad_authorization = tr_authorization (ve_fields root), ad_state = st\<rparr>,
       \<lambda>x. if x \<in> ve_hash ` (set evs - set (root # es)) then Some Conflicting else report x)"
    and es: "chain_state (root # es) = Some st" "distinct (root # es)" "set (root # es) \<subseteq> set (uncontested evs)"
      "undisputed (uncontested evs) (root # es)"
    using assess_some [OF assms(1) root, of report d] by blast
  then have "res = Some \<lparr>ad_destruction_id = d, ad_authorization = tr_authorization (ve_fields root), ad_state = st\<rparr>"
    "report' = (\<lambda>x. if x \<in> ve_hash ` (set evs - set (root # es)) then Some Conflicting else report x)"
    using assms(2) by simp_all
  with es show ?thesis by (intro exI [of _ "root # es"]) (simp del: chain_state.simps)
next
  case False
  then have r: "res = None" "report' = (\<lambda>x. if x \<in> ve_hash ` set evs then Some Conflicting else report x)"
    using assess_none [OF assms(1) False, of report d] assms(2) by simp_all
  have "chain_state [e] = None \<or> \<not> undisputed (uncontested evs) [e]" if "e \<in> set (uncontested evs)" for e
    using False roots_of_undisputed [OF assms(1) that] by (auto simp: is_request_def)
  then show ?thesis unfolding r by (intro exI [of _ "[]"]) (simp add: undisputed_def)
qed

section \<open>Both sides together\<close>

lemma path_state_prev:
  "path_state a st h es = Some st' \<Longrightarrow> e \<in> set es \<Longrightarrow>
     tr_previous (ve_fields e) \<in> Some ` insert h (ve_hash ` set (butlast es))"
proof (induction es arbitrary: st h)
  case (Cons x xs)
  show ?case
  proof (cases "e = x")
    case True then show ?thesis using Cons.prems(1) by (simp split: if_splits)
  next
    case False
    then have e: "e \<in> set xs" using Cons.prems(2) by simp
    obtain st2 where "path_state a st2 (ve_hash x) xs = Some st'"
      using Cons.prems(1) by (auto split: if_splits option.splits)
    from Cons.IH [OF this e] show ?thesis using e by auto
  qed
qed simp

lemma distinct_single: "distinct xs \<Longrightarrow> set xs = {x} \<Longrightarrow> xs = [x]"
  by (cases xs rule: remdups_adj.cases) auto

lemma filter_single:
  assumes "distinct xs" "x \<in> set xs" "P x" "\<And>y. y \<in> set xs \<Longrightarrow> P y \<Longrightarrow> y = x"
  shows "filter P xs = [x]"
proof (rule distinct_single)
  show "set (filter P xs) = {x}"
  proof (intro equalityI subsetI)
    fix y assume "y \<in> set (filter P xs)"
    then show "y \<in> {x}" using assms(4) [of y] by simp
  next
    fix y assume "y \<in> {x}"
    then show "y \<in> set (filter P xs)" using assms(2,3) by simp
  qed
  show "distinct (filter P xs)" using assms(1) by (rule distinct_filter)
qed

lemma walk_events_path:
  assumes "path_state a st h es = Some st'" "distinct (map ve_hash es)" "h \<notin> ve_hash ` set es"
    and "set p = set es" "distinct (map ve_hash p)"
  shows "walk_events a st h p r = (st', [], r)"
  using assms
proof (induction es arbitrary: st h p)
  case Nil then show ?case by (simp add: walk_events.simps [of a st' h] successors_of_def)
next
  case (Cons e es)
  obtain st2 where st2: "advanced_state a st (ve_fields e) = Some st2" "path_state a st2 (ve_hash e) es = Some st'"
    and prev: "tr_previous (ve_fields e) = Some h"
    using Cons.prems(1) by (auto split: if_splits option.splits)
  have "x = e" if "x \<in> set p" "tr_previous (ve_fields x) = Some h" for x
  proof (rule ccontr)
    assume "x \<noteq> e"
    then have "x \<in> set es" using that(1) Cons.prems(4) by simp
    from path_state_prev [OF st2(2) this] that(2) have "h \<in> insert (ve_hash e) (ve_hash ` set (butlast es))" by auto
    then show False using Cons.prems(3) by (auto dest: in_set_butlastD)
  qed
  then have succ: "successors_of p h = [e]"
    unfolding successors_of_def using Cons.prems(4,5) prev by (intro filter_single) (auto simp: distinct_map)
  have e: "e \<in> set p" using Cons.prems(4) by simp
  note rest = remove_pending_facts [OF Cons.prems(5) e]
  have "set (remove_pending (ve_hash e) p) = set es" using rest(1) Cons.prems(2,4) by auto
  then have "walk_events a st2 (ve_hash e) (remove_pending (ve_hash e) p) r = (st', [], r)"
    using Cons.IH [OF st2(2) _ _ _ rest(2)] Cons.prems(2) by simp
  then show ?case using succ st2(1) by (simp add: walk_events.simps [of a st h])
qed

lemma uncontested_all:
  assumes "distinct (map (\<lambda>e. tr_event_id (ve_fields e)) evs)"
  shows "\<not> contested evs e"
proof -
  have "length (filter (\<lambda>x. f x = i) xs) \<le> 1" if "distinct (map f xs)" for f :: "verified_event \<Rightarrow> id16" and i xs
    using that by (induction xs) (auto simp: filter_empty_conv image_iff)
  from this [OF assms, of "tr_event_id (ve_fields e)"] show ?thesis by (simp add: contested_def event_ids_seen_def)
qed

lemma assess_chain:
  assumes chain: "chain_state es = Some st" and "distinct (map ve_hash es)"
    and "distinct (map (\<lambda>e. tr_event_id (ve_fields e)) es)" and perm: "mset evs = mset es"
  shows "assess_destruction report d evs =
    (Some \<lparr>ad_destruction_id = d, ad_authorization = tr_authorization (ve_fields (hd es)), ad_state = st\<rparr>, report)"
proof -
  have mset: "mset (map f evs) = mset (map f es)" for f :: "verified_event \<Rightarrow> 'a" using perm by simp
  have d: "distinct (map ve_hash evs)" "distinct (map (\<lambda>e. tr_event_id (ve_fields e)) evs)"
    using assms(2,3) mset mset_eq_imp_distinct_iff by blast+
  have unc: "uncontested evs = evs" "filter (contested evs) evs = []"
    using uncontested_all [OF d(2)] by (simp_all add: uncontested_def)
  obtain root rest where es: "es = root # rest" using chain by (cases es) auto
  have root: "is_request root" and path: "path_state (tr_authorization (ve_fields root)) Requested (ve_hash root) rest = Some st"
    using chain es by (auto simp: is_request_def split: if_splits)
  have set: "set (pending_of evs) = set es" using pending_of_facts(1) [OF d(1)] unc mset_eq_setD [OF perm] by simp
  note p = pending_of_facts(2) [OF d(1)]
  have "e = root" if "e \<in> set (pending_of evs)" "tr_previous (ve_fields e) = None" for e
    using path_state_prev [OF path, of e] that set es by auto
  then have roots: "roots_of evs = [root]"
    unfolding roots_of_def using set es root p by (intro filter_single) (auto simp: distinct_map is_request_def)
  have in_p: "root \<in> set (pending_of evs)" using set es by simp
  note rm = remove_pending_facts [OF p in_p]
  have "set (remove_pending (ve_hash root) (pending_of evs)) = set rest"
    using rm(1) set es assms(2) by auto
  then have "walk_events (tr_authorization (ve_fields root)) Requested (ve_hash root)
      (remove_pending (ve_hash root) (pending_of evs)) report = (st, [], report)"
    using walk_events_path [OF path _ _ _ rm(2)] assms(2) es by simp
  then show ?thesis unfolding assess_destruction_eq Let_def using roots root unc es by (simp add: record_all_def)
qed

text \<open>
  C8. Both sides agree: from the events of any run of the state machine, found in any order, the verifier
  reconstructs the state of the machine, under the same authorization, and isolates nothing.
\<close>

theorem history_assessed:
  assumes h: "sm_history d a log m" and "log \<noteq> []" and evs: "mset evs = mset (map seen log)"
  shows "\<exists>st. sm_state m = Some st \<and> assess_destruction report d evs =
    (Some \<lparr>ad_destruction_id = d, ad_authorization = a, ad_state = st\<rparr>, report)"
proof -
  have ok: "log_ok d a log" and m: "m = machine_of d a log" using history_log_ok [OF h] by simp_all
  obtain st where st: "chain_state (map seen log) = Some st" using ok assms(2) by (auto simp: log_ok_def)
  have "tr_authorization (ve_fields (hd (map seen log))) = a" using ok assms(2) by (simp add: log_ok_def hd_map)
  moreover have "sm_state m = Some st" using machine_state [OF assms(2) ok] st m by simp
  ultimately show ?thesis
    using assess_chain [OF st _ _ evs, of report d] ok by (simp add: log_ok_def comp_def)
qed

theorem history_assessed_witness:
  "\<exists>st. sm_state (machine_of [1] [2] sample_log) = Some st
     \<and> assess_destruction Map.empty [1] (rev (map seen sample_log)) =
         (Some \<lparr>ad_destruction_id = [1], ad_authorization = [2], ad_state = st\<rparr>, Map.empty)"
  using history_assessed [OF log_ok_history [OF sample_log_ok], of "rev (map seen sample_log)" Map.empty]
  by (simp add: sample_log_def)

text \<open>Two events fork the history after the request: the request stays, both branches are isolated.\<close>

definition forked :: "verified_event list" where
  "forked = map seen [sample_event 13 (Some [10]) (Some 0) 1 5, sample_event 10 None None 0 5,
     sample_event 11 (Some [10]) (Some 0) 1 5]"

lemma forked_hashes: "distinct (map ve_hash forked)"
  by (simp add: forked_def sample_event_def)

lemma forked_assessed:
  "fst (assess_destruction Map.empty [1] forked) =
     Some \<lparr>ad_destruction_id = [1], ad_authorization = [2], ad_state = Requested\<rparr>"
  "map (snd (assess_destruction Map.empty [1] forked)) [[10], [11], [13]] =
     [None, Some Conflicting, Some Conflicting]"
  by code_simp+

theorem assess_destruction_sound_witness:
  "\<exists>chain. distinct chain \<and> set chain \<subseteq> set (uncontested forked) \<and> undisputed (uncontested forked) chain
    \<and> chain_state chain = Some Requested \<and> seen (sample_event 11 (Some [10]) (Some 0) 1 5) \<notin> set chain"
proof -
  obtain chain where c: "distinct chain" "set chain \<subseteq> set (uncontested forked)" "undisputed (uncontested forked) chain"
    "chain_state chain = Some Requested"
    using assess_destruction_sound [OF forked_hashes prod.collapse [symmetric], of Map.empty "[1]"] forked_assessed(1)
    by auto
  have "seen (sample_event 13 (Some [10]) (Some 0) 1 5) \<in> set (uncontested forked)"
    by (simp add: uncontested_def contested_def event_ids_seen_def forked_def sample_event_def)
  then have "seen (sample_event 11 (Some [10]) (Some 0) 1 5) \<notin> set chain"
    using c(3) unfolding undisputed_def by (fastforce simp: sample_event_def seen_def)
  then show ?thesis using c by blast
qed

end
