(* ===== verification/EaBTree.thy ===== *)
theory EaBTree
  imports EaPrelude
begin

text \<open>
  \<^verbatim>\<open>BTreeMap\<close> and \<^verbatim>\<open>BTreeSet\<close> of the standard library, as lists with strictly ascending keys: iteration
  visits the entries in key order, insertion replaces the value of a present key.
\<close>

section \<open>Maps\<close>

type_synonym ('k, 'v) btree_map = "('k \<times> 'v) list"

definition bt_get :: "('k, 'v) btree_map \<Rightarrow> 'k \<Rightarrow> 'v option" where
  "bt_get m k = map_of m k"

fun bt_insert :: "'k::linorder \<Rightarrow> 'v \<Rightarrow> ('k, 'v) btree_map \<Rightarrow> ('k, 'v) btree_map" where
  "bt_insert k v [] = [(k, v)]"
| "bt_insert k v ((l, w) # m) =
     (if k < l then (k, v) # (l, w) # m else if k = l then (k, v) # m else (l, w) # bt_insert k v m)"

definition bt_remove :: "'k \<Rightarrow> ('k, 'v) btree_map \<Rightarrow> ('k, 'v) btree_map" where
  "bt_remove k m = filter (\<lambda>e. fst e \<noteq> k) m"

definition bt_ok :: "('k::linorder, 'v) btree_map \<Rightarrow> bool" where
  "bt_ok m \<longleftrightarrow> sorted_wrt (<) (map fst m)"

lemma bt_ok_Nil [simp]: "bt_ok []" and bt_get_Nil [simp]: "bt_get [] k = None"
  by (simp_all add: bt_ok_def bt_get_def)

lemma bt_ok_Cons: "bt_ok (e # m) \<longleftrightarrow> (\<forall>k \<in> fst ` set m. fst e < k) \<and> bt_ok m"
  by (auto simp: bt_ok_def)

lemma bt_insert_keys: "fst ` set (bt_insert k v m) = insert k (fst ` set m)"
  by (induction k v m rule: bt_insert.induct) auto

lemma bt_insert_ok [simp]: "bt_ok m \<Longrightarrow> bt_ok (bt_insert k v m)"
  by (induction k v m rule: bt_insert.induct) (auto simp: bt_ok_Cons bt_insert_keys)

lemma bt_get_insert: "bt_ok m \<Longrightarrow> bt_get (bt_insert k v m) l = (if l = k then Some v else bt_get m l)"
proof (induction k v m rule: bt_insert.induct)
  case (2 k v l' w m)
  then show ?case by (auto simp: bt_get_def bt_ok_Cons)
qed (simp add: bt_get_def)

lemma bt_remove_ok [simp]: "bt_ok m \<Longrightarrow> bt_ok (bt_remove k m)"
  by (simp add: bt_ok_def bt_remove_def sorted_wrt_map sorted_wrt_filter)

lemma bt_get_remove: "bt_get (bt_remove k m) l = (if l = k then None else bt_get m l)"
  by (induction m) (auto simp: bt_get_def bt_remove_def)

lemma bt_ok_distinct: "bt_ok m \<Longrightarrow> distinct (map fst m)" and bt_ok_sorted: "bt_ok m \<Longrightarrow> sorted (map fst m)"
  by (simp_all add: bt_ok_def strict_sorted_iff)

lemma bt_get_in: "bt_ok m \<Longrightarrow> bt_get m k = Some v \<longleftrightarrow> (k, v) \<in> set m"
  by (simp add: bt_get_def bt_ok_distinct)

lemma bt_eqI:
  assumes "bt_ok m" "bt_ok n" "\<And>k. bt_get m k = bt_get n k"
  shows "m = n"
proof -
  have eq: "set m = set n"
    using bt_get_in [OF assms(1)] bt_get_in [OF assms(2)] assms(3) by (metis subrelI subset_antisym)
  have "inj_on fst (set m \<union> set n)"
    using bt_ok_distinct [OF assms(1)] eq by (simp add: distinct_map)
  then show ?thesis
    using map_sorted_distinct_set_unique [of fst m n] bt_ok_sorted bt_ok_distinct assms(1,2) eq by blast
qed

section \<open>Sets\<close>

type_synonym 'a btree_set = "'a list"

definition bs_insert :: "'a::linorder \<Rightarrow> 'a btree_set \<Rightarrow> 'a btree_set" where
  "bs_insert x s = (if x \<in> set s then s else insort x s)"

definition bs_remove :: "'a \<Rightarrow> 'a btree_set \<Rightarrow> 'a btree_set" where
  "bs_remove x s = filter (\<lambda>y. y \<noteq> x) s"

definition bs_collect :: "'a::linorder list \<Rightarrow> 'a btree_set" where
  "bs_collect xs = foldl (\<lambda>s x. bs_insert x s) [] xs"

definition bs_intersection :: "'a btree_set \<Rightarrow> 'a btree_set \<Rightarrow> 'a btree_set" where
  "bs_intersection s t = filter (\<lambda>x. x \<in> set t) s"

definition bs_ok :: "'a::linorder btree_set \<Rightarrow> bool" where
  "bs_ok s \<longleftrightarrow> sorted_wrt (<) s"

lemma bs_ok_iff: "bs_ok s \<longleftrightarrow> sorted s \<and> distinct s"
  by (simp add: bs_ok_def strict_sorted_iff)

lemma bs_ok_Nil [simp]: "bs_ok []"
  by (simp add: bs_ok_def)

lemma bs_insert_set [simp]: "set (bs_insert x s) = insert x (set s)"
  by (auto simp: bs_insert_def set_insort_key)

lemma bs_insert_ok [simp]: "bs_ok s \<Longrightarrow> bs_ok (bs_insert x s)"
  by (auto simp: bs_ok_iff bs_insert_def sorted_insort distinct_insort)

lemma bs_remove_set [simp]: "set (bs_remove x s) = set s - {x}"
  by (auto simp: bs_remove_def)

lemma bs_remove_ok [simp]: "bs_ok s \<Longrightarrow> bs_ok (bs_remove x s)"
  by (simp add: bs_ok_def bs_remove_def sorted_wrt_filter)

lemma bs_intersection_set [simp]: "set (bs_intersection s t) = set s \<inter> set t"
  by (auto simp: bs_intersection_def)

lemma bs_intersection_ok [simp]: "bs_ok s \<Longrightarrow> bs_ok (bs_intersection s t)"
  by (simp add: bs_ok_def bs_intersection_def sorted_wrt_filter)

lemma bs_foldl_insert:
  "bs_ok s \<Longrightarrow> bs_ok (foldl (\<lambda>s x. bs_insert x s) s xs) \<and> set (foldl (\<lambda>s x. bs_insert x s) s xs) = set s \<union> set xs"
  by (induction xs arbitrary: s) auto

lemma bs_collect_set [simp]: "set (bs_collect xs) = set xs" and bs_collect_ok [simp]: "bs_ok (bs_collect xs)"
  using bs_foldl_insert [of "[]" xs] by (simp_all add: bs_collect_def)

lemma bs_eqI: "bs_ok s \<Longrightarrow> bs_ok t \<Longrightarrow> set s = set t \<Longrightarrow> s = t"
  by (simp add: bs_ok_iff sorted_distinct_set_unique)

end
