(* ===== verification/EaIndex.thy ===== *)
theory EaIndex
  imports EaBTree EaCbor
begin

text \<open>
  The inverted index of the reader (\<^verbatim>\<open>crates/ea-index/src/inverted.rs\<close> and \<^verbatim>\<open>schema_view.rs\<close>). Text is its UTF-8
  byte string. The normal form NFC (a package outside the repository) and the Unicode lower-case table of the
  standard library are the arguments \<open>nfc\<close> and \<open>lower\<close>.
\<close>

section \<open>Errors\<close>

datatype schema_error = Unsupported bytes u64 | InvalidSchema bytes "bytes option" | SchemaCbor cbor_error

datatype crypto_error = InvalidCose | UnsupportedSuite | InvalidPublicKey | SignerMismatch | SignerUnresolved
  | SignerUnauthorized | SignatureInvalid | AeadOpen | HpkeKey | HpkeOpen | LocalRng | SizeLimit
  | InvalidOsAccount | InvalidProtocolCore

datatype index_error = BlobFormat | IndexCrypto crypto_error | IndexCbor cbor_error | IndexSchema schema_error

section \<open>Records and rows\<close>

record indexable_record =
  rec_entry_hash :: hash32
  rec_chain_sequence :: u64
  rec_record_id :: id16
  rec_source_schema_id :: bytes
  rec_source_schema_version :: u64
  rec_target_schema_id :: bytes
  rec_target_schema_version :: u64
  rec_human_incident_number :: bytes
  rec_occurred_at_start :: int
  rec_occurred_at_end :: "int option"
  rec_keyword_terms :: "bytes list"
  rec_vehicle_terms :: "bytes list"
  rec_person_terms :: "bytes list"

record search_hit =
  hit_entry_hash :: hash32
  hit_chain_sequence :: u64
  hit_record_id :: id16
  hit_human_incident_number :: bytes
  hit_occurred_at_start :: int
  hit_source_schema_id :: bytes
  hit_source_schema_version :: u64
  hit_target_schema_id :: bytes
  hit_target_schema_version :: u64

record indexed_package =
  pkg_hit :: search_hit
  pkg_occurred_at_end :: "int option"
  pkg_keyword_terms :: "bytes btree_set"
  pkg_vehicle_terms :: "bytes btree_set"
  pkg_person_terms :: "bytes btree_set"

record reader_query =
  q_period :: "(int \<times> int) option"
  q_keyword :: "bytes option"
  q_vehicle :: "bytes option"
  q_person :: "bytes option"

type_synonym postings = "(bytes, hash32 btree_set) btree_map"

record inverted_index =
  ix_packages :: "(hash32, indexed_package) btree_map"
  ix_keyword :: postings
  ix_vehicle :: postings
  ix_person :: postings

datatype index_pressure = Nominal | SegmentationRequired nat

section \<open>Normal forms and schema labels\<close>

definition normalize_term :: "(bytes \<Rightarrow> bytes) \<Rightarrow> (bytes \<Rightarrow> bytes) \<Rightarrow> bytes \<Rightarrow> bytes" where
  "normalize_term nfc lower value = nfc (lower (nfc value))"

definition normalize_display :: "(bytes \<Rightarrow> bytes) \<Rightarrow> bytes \<Rightarrow> bytes" where
  "normalize_display nfc value = nfc value"

definition term_keys :: "(bytes \<Rightarrow> bytes) \<Rightarrow> (bytes \<Rightarrow> bytes) \<Rightarrow> bytes list \<Rightarrow> bytes btree_set" where
  "term_keys nfc lower values = bs_collect (filter (\<lambda>t. t \<noteq> []) (map (normalize_term nfc lower) values))"

definition V1_SCHEMAS :: "bytes list" where
  "V1_SCHEMAS = map ascii [''ea.genesis'', ''ea.incident'', ''ea.amendment'', ''ea.key-transition'',
     ''ea.destruction-evidence'']"

definition SCHEMA_VERSION_V1 :: u64 where
  "SCHEMA_VERSION_V1 = 1"

definition PROJECTED_TARGET_SCHEMA_ID_V1 :: bytes where
  "PROJECTED_TARGET_SCHEMA_ID_V1 = ascii ''ea.incident''"

definition registered_schema_id :: "bytes \<Rightarrow> u64 \<Rightarrow> index_error + bytes" where
  "registered_schema_id schema_id schema_version =
     ok_or (IndexSchema (Unsupported schema_id schema_version))
       (find (\<lambda>descriptor. descriptor = schema_id \<and> schema_version = SCHEMA_VERSION_V1) V1_SCHEMAS)"

record schema_view =
  view_source_schema_id :: bytes
  view_source_schema_version :: u64
  view_target_schema_id :: bytes
  view_target_schema_version :: u64
  view_human_incident_number :: bytes

definition derive_view :: "(bytes \<Rightarrow> bytes) \<Rightarrow> indexable_record \<Rightarrow> index_error + schema_view" where
  "derive_view nfc r =
     bindE (registered_schema_id (rec_source_schema_id r) (rec_source_schema_version r)) (\<lambda>source_schema_id.
     bindE (registered_schema_id (rec_target_schema_id r) (rec_target_schema_version r)) (\<lambda>target_schema_id.
     bindE (reject_if (target_schema_id \<noteq> PROJECTED_TARGET_SCHEMA_ID_V1)
              (IndexSchema (Unsupported target_schema_id (rec_target_schema_version r)))) (\<lambda>_.
     Inr \<lparr>view_source_schema_id = source_schema_id, view_source_schema_version = rec_source_schema_version r,
          view_target_schema_id = target_schema_id, view_target_schema_version = rec_target_schema_version r,
          view_human_incident_number = normalize_display nfc (rec_human_incident_number r)\<rparr>)))"

section \<open>Queries\<close>

definition query_default :: reader_query where
  "query_default = \<lparr>q_period = None, q_keyword = None, q_vehicle = None, q_person = None\<rparr>"

definition and_period :: "int \<Rightarrow> int \<Rightarrow> reader_query \<Rightarrow> reader_query" where
  "and_period from to q = q\<lparr>q_period := Some (from, to)\<rparr>"

definition and_keyword :: "(bytes \<Rightarrow> bytes) \<Rightarrow> (bytes \<Rightarrow> bytes) \<Rightarrow> bytes \<Rightarrow> reader_query \<Rightarrow> reader_query" where
  "and_keyword nfc lower t q = q\<lparr>q_keyword := Some (normalize_term nfc lower t)\<rparr>"

definition and_vehicle :: "(bytes \<Rightarrow> bytes) \<Rightarrow> (bytes \<Rightarrow> bytes) \<Rightarrow> bytes \<Rightarrow> reader_query \<Rightarrow> reader_query" where
  "and_vehicle nfc lower t q = q\<lparr>q_vehicle := Some (normalize_term nfc lower t)\<rparr>"

definition and_person :: "(bytes \<Rightarrow> bytes) \<Rightarrow> (bytes \<Rightarrow> bytes) \<Rightarrow> bytes \<Rightarrow> reader_query \<Rightarrow> reader_query" where
  "and_person nfc lower t q = q\<lparr>q_person := Some (normalize_term nfc lower t)\<rparr>"

section \<open>The index\<close>

definition MONOLITHIC_INDEX_MAX_PACKAGES_V1 :: nat where
  "MONOLITHIC_INDEX_MAX_PACKAGES_V1 = 50000"

definition index_empty :: inverted_index where
  "index_empty = \<lparr>ix_packages = [], ix_keyword = [], ix_vehicle = [], ix_person = []\<rparr>"

definition indexed_packages :: "inverted_index \<Rightarrow> nat" where
  "indexed_packages ix = length (ix_packages ix)"

definition pressure :: "inverted_index \<Rightarrow> index_pressure" where
  "pressure ix =
     (let n = indexed_packages ix in
      if n \<ge> MONOLITHIC_INDEX_MAX_PACKAGES_V1 then SegmentationRequired n else Nominal)"

definition hit_for :: "inverted_index \<Rightarrow> hash32 \<Rightarrow> search_hit option" where
  "hit_for ix h = map_option pkg_hit (bt_get (ix_packages ix) h)"

definition unpost :: "hash32 \<Rightarrow> bytes \<Rightarrow> postings \<Rightarrow> postings" where
  "unpost h t ps =
     (case bt_get ps t of
        None \<Rightarrow> ps
      | Some entries \<Rightarrow>
          let entries = bs_remove h entries in
          if entries = [] then bt_remove t ps else bt_insert t entries ps)"

definition post :: "hash32 \<Rightarrow> bytes \<Rightarrow> postings \<Rightarrow> postings" where
  "post h t ps = bt_insert t (bs_insert h (case bt_get ps t of None \<Rightarrow> [] | Some entries \<Rightarrow> entries)) ps"

definition index_replace :: "indexed_package \<Rightarrow> inverted_index \<Rightarrow> inverted_index" where
  "index_replace p ix =
     (let h = hit_entry_hash (pkg_hit p);
          ix = (case bt_get (ix_packages ix) h of
                  None \<Rightarrow> ix
                | Some previous \<Rightarrow>
                    \<lparr>ix_packages = bt_remove h (ix_packages ix),
                     ix_keyword = fold (unpost h) (pkg_keyword_terms previous) (ix_keyword ix),
                     ix_vehicle = fold (unpost h) (pkg_vehicle_terms previous) (ix_vehicle ix),
                     ix_person = fold (unpost h) (pkg_person_terms previous) (ix_person ix)\<rparr>)
      in \<lparr>ix_packages = bt_insert h p (ix_packages ix),
          ix_keyword = fold (post h) (pkg_keyword_terms p) (ix_keyword ix),
          ix_vehicle = fold (post h) (pkg_vehicle_terms p) (ix_vehicle ix),
          ix_person = fold (post h) (pkg_person_terms p) (ix_person ix)\<rparr>)"

definition package_of :: "(bytes \<Rightarrow> bytes) \<Rightarrow> (bytes \<Rightarrow> bytes) \<Rightarrow> indexable_record \<Rightarrow> schema_view \<Rightarrow> indexed_package" where
  "package_of nfc lower r view =
     \<lparr>pkg_hit = \<lparr>hit_entry_hash = rec_entry_hash r, hit_chain_sequence = rec_chain_sequence r,
         hit_record_id = rec_record_id r, hit_human_incident_number = view_human_incident_number view,
         hit_occurred_at_start = rec_occurred_at_start r,
         hit_source_schema_id = view_source_schema_id view, hit_source_schema_version = view_source_schema_version view,
         hit_target_schema_id = view_target_schema_id view, hit_target_schema_version = view_target_schema_version view\<rparr>,
      pkg_occurred_at_end = rec_occurred_at_end r,
      pkg_keyword_terms = term_keys nfc lower (rec_keyword_terms r),
      pkg_vehicle_terms = term_keys nfc lower (rec_vehicle_terms r),
      pkg_person_terms = term_keys nfc lower (rec_person_terms r)\<rparr>"

definition upsert ::
    "(bytes \<Rightarrow> bytes) \<Rightarrow> (bytes \<Rightarrow> bytes) \<Rightarrow> indexable_record \<Rightarrow> inverted_index \<Rightarrow>
       index_error + index_pressure \<times> inverted_index" where
  "upsert nfc lower r ix =
     bindE (derive_view nfc r) (\<lambda>view.
     let ix = index_replace (package_of nfc lower r view) ix in Inr (pressure ix, ix))"

definition rebuild_from ::
    "(bytes \<Rightarrow> bytes) \<Rightarrow> (bytes \<Rightarrow> bytes) \<Rightarrow> indexable_record list \<Rightarrow> index_error + inverted_index" where
  "rebuild_from nfc lower records =
     foldE (\<lambda>r ix. bindE (upsert nfc lower r ix) (\<lambda>(_, ix). Inr ix)) records index_empty"

definition overlaps :: "indexed_package \<Rightarrow> int \<Rightarrow> int \<Rightarrow> bool" where
  "overlaps p from to =
     (let start = hit_occurred_at_start (pkg_hit p);
          stop = (case pkg_occurred_at_end p of None \<Rightarrow> hit_occurred_at_start (pkg_hit p) | Some e \<Rightarrow> e)
      in start \<le> to \<and> stop \<ge> from)"

definition narrow ::
    "bytes option \<times> postings \<Rightarrow> hash32 btree_set option \<Rightarrow> hash32 btree_set option" where
  "narrow axis candidates =
     (case fst axis of
        None \<Rightarrow> candidates
      | Some t \<Rightarrow>
          let matched = (case bt_get (snd axis) t of None \<Rightarrow> [] | Some entries \<Rightarrow> entries) in
          Some (case candidates of Some previous \<Rightarrow> bs_intersection previous matched | None \<Rightarrow> matched))"

definition hit_key :: "indexed_package \<Rightarrow> u64 \<times> hash32" where
  "hit_key p = (hit_chain_sequence (pkg_hit p), hit_entry_hash (pkg_hit p))"

definition index_search :: "inverted_index \<Rightarrow> reader_query \<Rightarrow> index_error + search_hit list" where
  "index_search ix q =
     (let candidates = fold narrow [(q_keyword q, ix_keyword ix), (q_vehicle q, ix_vehicle ix),
            (q_person q, ix_person ix)] None;
          hits = (case candidates of
                    Some entry_hashes \<Rightarrow> List.map_filter (bt_get (ix_packages ix)) entry_hashes
                  | None \<Rightarrow> map snd (ix_packages ix));
          hits = (case q_period q of None \<Rightarrow> hits | Some (from, to) \<Rightarrow> filter (\<lambda>p. overlaps p from to) hits)
      in Inr (map pkg_hit (sort_key hit_key hits)))"

section \<open>Posting lists\<close>

definition postings_of :: "postings \<Rightarrow> bytes \<Rightarrow> hash32 set" where
  "postings_of ps t = (case bt_get ps t of None \<Rightarrow> {} | Some entries \<Rightarrow> set entries)"

definition postings_ok :: "postings \<Rightarrow> bool" where
  "postings_ok ps \<longleftrightarrow> bt_ok ps \<and> (\<forall>t entries. bt_get ps t = Some entries \<longrightarrow> entries \<noteq> [] \<and> bs_ok entries)"

lemma postings_ok_Nil [simp]: "postings_ok []" and postings_of_Nil [simp]: "postings_of [] t = {}"
  by (simp_all add: postings_ok_def postings_of_def)

lemma post_ok [simp]: "postings_ok ps \<Longrightarrow> postings_ok (post h t ps)"
proof -
  assume ok: "postings_ok ps"
  have "bs_ok (case bt_get ps t of None \<Rightarrow> [] | Some entries \<Rightarrow> entries)"
    using ok by (auto simp: postings_ok_def split: option.split)
  then have "bs_ok (bs_insert h (case bt_get ps t of None \<Rightarrow> [] | Some entries \<Rightarrow> entries))" by simp
  moreover have "bs_insert h s \<noteq> []" for s using bs_insert_set [of h s] by (metis empty_not_insert list.set(1))
  ultimately show ?thesis using ok by (simp add: postings_ok_def post_def bt_get_insert)
qed

lemma post_postings_of:
  "postings_ok ps \<Longrightarrow> postings_of (post h t ps) u = (if u = t then insert h (postings_of ps t) else postings_of ps u)"
  by (simp add: postings_ok_def post_def postings_of_def bt_get_insert split: option.split)

lemma unpost_ok [simp]: "postings_ok ps \<Longrightarrow> postings_ok (unpost h t ps)"
  by (auto simp: postings_ok_def unpost_def Let_def bt_get_insert bt_get_remove split: option.splits if_splits)

lemma unpost_postings_of:
  assumes "postings_ok ps"
  shows "postings_of (unpost h t ps) u = (if u = t then postings_of ps t - {h} else postings_of ps u)"
proof (cases "bt_get ps t")
  case None
  then show ?thesis by (simp add: unpost_def postings_of_def)
next
  case (Some entries)
  have ok: "bt_ok ps" using assms by (simp add: postings_ok_def)
  show ?thesis
  proof (cases "bs_remove h entries = []")
    case True
    then have "set entries - {h} = {}" by (metis bs_remove_set list.set(1))
    then show ?thesis using Some True ok by (simp add: unpost_def postings_of_def Let_def bt_get_remove)
  next
    case False
    then show ?thesis using Some ok by (simp add: unpost_def postings_of_def Let_def bt_get_insert)
  qed
qed

lemma fold_post:
  "postings_ok ps \<Longrightarrow> postings_ok (fold (post h) ts ps)
     \<and> postings_of (fold (post h) ts ps) u = postings_of ps u \<union> (if u \<in> set ts then {h} else {})"
  by (induction ts arbitrary: ps) (auto simp: post_postings_of)

lemma fold_unpost:
  "postings_ok ps \<Longrightarrow> postings_ok (fold (unpost h) ts ps)
     \<and> postings_of (fold (unpost h) ts ps) u = postings_of ps u - (if u \<in> set ts then {h} else {})"
  by (induction ts arbitrary: ps) (auto simp: unpost_postings_of)

lemma postings_eqI:
  assumes "postings_ok ps" "postings_ok qs" "\<And>t. postings_of ps t = postings_of qs t"
  shows "ps = qs"
proof (rule bt_eqI)
  show "bt_ok ps" "bt_ok qs" using assms(1,2) by (simp_all add: postings_ok_def)
  fix t
  have "entries \<noteq> [] \<and> bs_ok entries" if "bt_get ps t = Some entries \<or> bt_get qs t = Some entries" for entries
    using that assms(1,2) by (auto simp: postings_ok_def)
  then show "bt_get ps t = bt_get qs t"
    using assms(3) [of t] bs_eqI by (auto simp: postings_of_def split: option.splits)
qed

section \<open>The invariant of the index\<close>

text \<open>
  The posting lists of an axis are exactly the inverse of the terms of the packages: no list names a package
  that does not exist, no term of a package is missing, and no list is empty.
\<close>

definition axis_ok :: "(indexed_package \<Rightarrow> bytes list) \<Rightarrow> (hash32, indexed_package) btree_map \<Rightarrow> postings \<Rightarrow> bool" where
  "axis_ok terms packages ps \<longleftrightarrow> postings_ok ps
     \<and> (\<forall>t h. h \<in> postings_of ps t \<longleftrightarrow> (\<exists>p. bt_get packages h = Some p \<and> t \<in> set (terms p)))"

definition index_ok :: "inverted_index \<Rightarrow> bool" where
  "index_ok ix \<longleftrightarrow> bt_ok (ix_packages ix)
     \<and> (\<forall>h p. bt_get (ix_packages ix) h = Some p \<longrightarrow> hit_entry_hash (pkg_hit p) = h)
     \<and> axis_ok pkg_keyword_terms (ix_packages ix) (ix_keyword ix)
     \<and> axis_ok pkg_vehicle_terms (ix_packages ix) (ix_vehicle ix)
     \<and> axis_ok pkg_person_terms (ix_packages ix) (ix_person ix)"

lemma axis_ok_remove:
  assumes "axis_ok terms pk ps" "bt_get pk h = Some previous"
  shows "axis_ok terms (bt_remove h pk) (fold (unpost h) (terms previous) ps)"
  using assms fold_unpost [of ps h "terms previous"] by (auto simp: axis_ok_def bt_get_remove)

lemma axis_ok_insert:
  assumes "axis_ok terms pk ps" "bt_ok pk" "bt_get pk h = None"
  shows "axis_ok terms (bt_insert h p pk) (fold (post h) (terms p) ps)"
  using assms fold_post [of ps h "terms p"] by (auto simp: axis_ok_def bt_get_insert)

lemma index_replace_ok:
  assumes ok: "index_ok ix"
  shows "index_ok (index_replace p ix)"
    and "bt_get (ix_packages (index_replace p ix)) h =
      (if h = hit_entry_hash (pkg_hit p) then Some p else bt_get (ix_packages ix) h)"
proof -
  let ?h = "hit_entry_hash (pkg_hit p)" and ?pk = "bt_remove (hit_entry_hash (pkg_hit p)) (ix_packages ix)"
  have bt: "bt_ok (ix_packages ix)" "bt_ok ?pk" "bt_get ?pk ?h = None" using ok by (simp_all add: index_ok_def bt_get_remove)
  have same: "bt_insert ?h p ?pk = bt_insert ?h p (ix_packages ix)"
    by (rule bt_eqI) (use bt in \<open>simp_all add: bt_get_insert bt_get_remove\<close>)
  show get: "bt_get (ix_packages (index_replace p ix)) h = (if h = ?h then Some p else bt_get (ix_packages ix) h)"
    using bt by (auto simp: index_replace_def Let_def bt_get_insert bt_get_remove split: option.splits)
  have axis: "axis_ok terms (bt_insert ?h p (ix_packages ix))
      (fold (post ?h) (terms p) (case bt_get (ix_packages ix) ?h of None \<Rightarrow> ps
         | Some previous \<Rightarrow> fold (unpost ?h) (terms previous) ps))"
    if "axis_ok terms (ix_packages ix) ps" for terms ps
  proof (cases "bt_get (ix_packages ix) ?h")
    case None
    then show ?thesis using axis_ok_insert [OF that bt(1) None] by simp
  next
    case (Some previous)
    then show ?thesis using axis_ok_insert [OF axis_ok_remove [OF that Some] bt(2,3), of p] same by simp
  qed
  have "ix_packages (index_replace p ix) = bt_insert ?h p (ix_packages ix)"
    using same by (simp add: index_replace_def Let_def split: option.splits)
  then show "index_ok (index_replace p ix)"
    using ok get axis [of pkg_keyword_terms "ix_keyword ix"] axis [of pkg_vehicle_terms "ix_vehicle ix"]
      axis [of pkg_person_terms "ix_person ix"]
    unfolding index_ok_def by (auto simp: index_replace_def Let_def bt_get_insert split: option.splits)
qed

lemma index_empty_ok [simp]: "index_ok index_empty"
  by (simp add: index_ok_def index_empty_def axis_ok_def)

lemma index_determined:
  assumes "index_ok ix" "index_ok ix'" "\<And>h. bt_get (ix_packages ix) h = bt_get (ix_packages ix') h"
  shows "ix = ix'"
proof -
  have pk: "ix_packages ix = ix_packages ix'" using assms by (intro bt_eqI) (simp_all add: index_ok_def)
  have axis: "ps = qs" if "axis_ok terms (ix_packages ix) ps" "axis_ok terms (ix_packages ix) qs" for terms ps qs
    using that by (intro postings_eqI) (auto simp: axis_ok_def)
  have "ix_keyword ix = ix_keyword ix'" "ix_vehicle ix = ix_vehicle ix'" "ix_person ix = ix_person ix'"
    using assms(1,2) pk by (auto simp: index_ok_def intro: axis)
  then show ?thesis using pk by (cases ix; cases ix') simp
qed

section \<open>Search\<close>

definition axis_matches :: "bytes option \<Rightarrow> bytes list \<Rightarrow> bool" where
  "axis_matches t terms = (case t of None \<Rightarrow> True | Some t \<Rightarrow> t \<in> set terms)"

definition query_matches :: "reader_query \<Rightarrow> indexed_package \<Rightarrow> bool" where
  "query_matches q p \<longleftrightarrow> axis_matches (q_keyword q) (pkg_keyword_terms p)
     \<and> axis_matches (q_vehicle q) (pkg_vehicle_terms p) \<and> axis_matches (q_person q) (pkg_person_terms p)
     \<and> (case q_period q of None \<Rightarrow> True | Some (from, to) \<Rightarrow> overlaps p from to)"

text \<open>The candidate set after some axes: the packages that match them, or no restriction yet.\<close>

definition candidates_ok ::
    "(hash32, indexed_package) btree_map \<Rightarrow> (indexed_package \<Rightarrow> bool) \<Rightarrow> hash32 btree_set option \<Rightarrow> bool" where
  "candidates_ok pk P c =
     (case c of None \<Rightarrow> (\<forall>p. P p)
      | Some s \<Rightarrow> bs_ok s \<and> set s = {h. \<exists>p. bt_get pk h = Some p \<and> P p})"

lemma narrow_ok:
  assumes "axis_ok terms pk ps" "candidates_ok pk P c"
  shows "candidates_ok pk (\<lambda>p. P p \<and> axis_matches t (terms p)) (narrow (t, ps) c)"
proof (cases t)
  case None
  then show ?thesis using assms(2) by (simp add: narrow_def axis_matches_def)
next
  case (Some u)
  let ?m = "case bt_get ps u of None \<Rightarrow> [] | Some entries \<Rightarrow> entries"
  have "bs_ok ?m" using assms(1) by (auto simp: axis_ok_def postings_ok_def split: option.split)
  moreover have "set ?m = {h. \<exists>p. bt_get pk h = Some p \<and> u \<in> set (terms p)}"
  proof -
    have "set ?m = postings_of ps u" by (simp add: postings_of_def split: option.split)
    then show ?thesis using assms(1) by (auto simp: axis_ok_def)
  qed
  ultimately show ?thesis
    using Some assms(2) by (cases c) (auto simp: narrow_def candidates_ok_def axis_matches_def Let_def)
qed

lemma filter_keys_bs_ok: "bt_ok m \<Longrightarrow> bs_ok (map fst (filter P m))"
  by (simp add: bt_ok_def bs_ok_def sorted_wrt_map sorted_wrt_filter)

lemma map_filter_get:
  assumes "bt_ok m" "set es \<subseteq> set m"
  shows "List.map_filter (bt_get m) (map fst es) = map snd es"
  using assms(2)
proof (induction es)
  case (Cons e es)
  have "bt_get m (fst e) = Some (snd e)" using Cons.prems bt_get_in [OF assms(1)] by (cases e) simp
  then show ?case using Cons by (simp add: List.map_filter_simps)
qed (simp add: List.map_filter_simps)

lemma candidates_hits:
  assumes "bt_ok pk" "candidates_ok pk P c"
  shows "(case c of Some s \<Rightarrow> List.map_filter (bt_get pk) s | None \<Rightarrow> map snd pk) = filter P (map snd pk)"
proof (cases c)
  case None
  then show ?thesis using assms(2) by (simp add: candidates_ok_def)
next
  case (Some s)
  let ?es = "filter (\<lambda>e. P (snd e)) pk"
  have "s = map fst ?es"
  proof (rule bs_eqI)
    show "bs_ok s" using assms(2) Some by (simp add: candidates_ok_def)
    show "bs_ok (map fst ?es)" using assms(1) by (rule filter_keys_bs_ok)
    show "set s = set (map fst ?es)"
      using assms(2) Some bt_get_in [OF assms(1)] by (force simp: candidates_ok_def)
  qed
  then have "List.map_filter (bt_get pk) s = map snd ?es" using map_filter_get [OF assms(1), of ?es] by auto
  then show ?thesis using Some by (simp add: filter_map comp_def)
qed

lemma search_eq:
  assumes "index_ok ix"
  shows "index_search ix q = Inr (map pkg_hit (sort_key hit_key (filter (query_matches q) (map snd (ix_packages ix)))))"
proof -
  let ?pk = "ix_packages ix"
  let ?P = "\<lambda>p. axis_matches (q_keyword q) (pkg_keyword_terms p)"
  let ?Q = "\<lambda>p. ?P p \<and> axis_matches (q_vehicle q) (pkg_vehicle_terms p)"
  let ?R = "\<lambda>p. ?Q p \<and> axis_matches (q_person q) (pkg_person_terms p)"
  have ok: "bt_ok ?pk" "axis_ok pkg_keyword_terms ?pk (ix_keyword ix)" "axis_ok pkg_vehicle_terms ?pk (ix_vehicle ix)"
    "axis_ok pkg_person_terms ?pk (ix_person ix)" using assms by (simp_all add: index_ok_def)
  have "candidates_ok ?pk (\<lambda>_. True) None" by (simp add: candidates_ok_def)
  from narrow_ok [OF ok(2) this] have "candidates_ok ?pk ?P (narrow (q_keyword q, ix_keyword ix) None)" by simp
  from narrow_ok [OF ok(4) narrow_ok [OF ok(3) this]]
  have "candidates_ok ?pk ?R (fold narrow [(q_keyword q, ix_keyword ix), (q_vehicle q, ix_vehicle ix),
      (q_person q, ix_person ix)] None)" by simp
  note hits = candidates_hits [OF ok(1) this]
  have "(case q_period q of None \<Rightarrow> filter ?R xs | Some (from, to) \<Rightarrow> filter (\<lambda>p. overlaps p from to) (filter ?R xs))
      = filter (query_matches q) xs" for xs
    by (auto simp: query_matches_def conj_ac split: option.split intro!: filter_cong)
  then show ?thesis unfolding index_search_def Let_def hits by simp
qed

definition hit_order :: "search_hit \<Rightarrow> u64 \<times> hash32" where
  "hit_order h = (hit_chain_sequence h, hit_entry_hash h)"

lemma packages_keys_distinct:
  assumes "index_ok ix"
  shows "distinct (map hit_key (map snd (ix_packages ix)))"
proof -
  have ok: "bt_ok (ix_packages ix)" using assms by (simp add: index_ok_def)
  have "map (hit_entry_hash \<circ> pkg_hit) (map snd (ix_packages ix)) = map fst (ix_packages ix)"
    using assms bt_get_in [OF ok] by (auto simp: index_ok_def)
  then have "distinct (map (hit_entry_hash \<circ> pkg_hit) (map snd (ix_packages ix)))"
    using bt_ok_distinct [OF ok] by metis
  moreover have "map (hit_entry_hash \<circ> pkg_hit) ps = map snd (map hit_key ps)" for ps by (simp add: hit_key_def)
  ultimately have "distinct (map snd (map hit_key (map snd (ix_packages ix))))" by metis
  then show ?thesis by (metis distinct_map)
qed

lemma search_facts:
  assumes "index_ok ix"
  shows "\<exists>hits. index_search ix q = Inr hits
    \<and> set hits = {pkg_hit p | h p. bt_get (ix_packages ix) h = Some p \<and> query_matches q p}
    \<and> sorted_wrt (<) (map hit_order hits)"
proof -
  let ?ps = "filter (query_matches q) (map snd (ix_packages ix))"
  have ok: "bt_ok (ix_packages ix)" using assms by (simp add: index_ok_def)
  have "set (map pkg_hit (sort_key hit_key ?ps)) = {pkg_hit p | h p. bt_get (ix_packages ix) h = Some p \<and> query_matches q p}"
    by (force simp: bt_get_in [OF ok])
  moreover have "map hit_order (map pkg_hit (sort_key hit_key ?ps)) = map hit_key (sort_key hit_key ?ps)"
    by (simp add: hit_order_def hit_key_def)
  moreover have "distinct (map hit_key ?ps)" using packages_keys_distinct [OF assms] by (simp add: distinct_map_filter filter_map)
  then have "distinct (map hit_key (sort_key hit_key ?ps))"
    by (metis mset_map mset_sort mset_eq_imp_distinct_iff)
  then have "sorted_wrt (<) (map hit_key (sort_key hit_key ?ps))" by (simp add: strict_sorted_iff)
  ultimately have "set (map pkg_hit (sort_key hit_key ?ps)) = {pkg_hit p | h p. bt_get (ix_packages ix) h = Some p \<and> query_matches q p}"
    "sorted_wrt (<) (map hit_order (map pkg_hit (sort_key hit_key ?ps)))" by (simp_all only:)
  then show ?thesis using search_eq [OF assms, of q] by blast
qed

section \<open>Taking up records\<close>

definition record_package :: "(bytes \<Rightarrow> bytes) \<Rightarrow> (bytes \<Rightarrow> bytes) \<Rightarrow> indexable_record \<Rightarrow> indexed_package option" where
  "record_package nfc lower r =
     (case derive_view nfc r of Inl _ \<Rightarrow> None | Inr view \<Rightarrow> Some (package_of nfc lower r view))"

lemma record_package_hash: "record_package nfc lower r = Some p \<Longrightarrow> hit_entry_hash (pkg_hit p) = rec_entry_hash r"
  by (auto simp: record_package_def package_of_def split: sum.splits)

lemma upsert_Inr:
  "upsert nfc lower r ix = Inr (pr, ix') \<longleftrightarrow>
     (\<exists>p. record_package nfc lower r = Some p \<and> ix' = index_replace p ix \<and> pr = pressure ix')"
  by (auto simp: upsert_def record_package_def Let_def bindE_def split: sum.splits)

definition projectable :: "indexable_record \<Rightarrow> bool" where
  "projectable r \<longleftrightarrow> rec_source_schema_id r \<in> set V1_SCHEMAS \<and> rec_source_schema_version r = SCHEMA_VERSION_V1
     \<and> rec_target_schema_id r = PROJECTED_TARGET_SCHEMA_ID_V1 \<and> rec_target_schema_version r = SCHEMA_VERSION_V1"

lemma find_present: "x \<in> set xs \<Longrightarrow> find (\<lambda>y. y = x) xs = Some x"
  by (induction xs) auto

lemma registered_schema_id_eq:
  "registered_schema_id i v =
     (if i \<in> set V1_SCHEMAS \<and> v = SCHEMA_VERSION_V1 then Inr i else Inl (IndexSchema (Unsupported i v)))"
proof (cases "i \<in> set V1_SCHEMAS \<and> v = SCHEMA_VERSION_V1")
  case True
  then show ?thesis by (simp add: registered_schema_id_def find_present)
next
  case False
  then have "find (\<lambda>d. d = i \<and> v = SCHEMA_VERSION_V1) V1_SCHEMAS = None" by (auto simp: find_None_iff)
  then show ?thesis using False by (auto simp: registered_schema_id_def)
qed

lemma incident_registered: "PROJECTED_TARGET_SCHEMA_ID_V1 \<in> set V1_SCHEMAS"
  by (simp add: PROJECTED_TARGET_SCHEMA_ID_V1_def V1_SCHEMAS_def)

lemma derive_view_exact: "(\<exists>view. derive_view nfc r = Inr view) \<longleftrightarrow> projectable r"
  using incident_registered
  by (auto simp: derive_view_def registered_schema_id_eq projectable_def reject_if_def)

lemma record_package_exact: "record_package nfc lower r \<noteq> None \<longleftrightarrow> projectable r"
  unfolding derive_view_exact [of nfc, symmetric] record_package_def by (simp split: sum.split)

lemma derive_view_error:
  "derive_view nfc r = Inl e \<Longrightarrow> \<exists>i v. e = IndexSchema (Unsupported i v)
     \<and> (i, v) \<in> {(rec_source_schema_id r, rec_source_schema_version r), (rec_target_schema_id r, rec_target_schema_version r)}"
  by (auto simp: derive_view_def registered_schema_id_eq reject_if_def split: if_splits)

definition last_record :: "indexable_record list \<Rightarrow> hash32 \<Rightarrow> indexable_record option" where
  "last_record rs h = find (\<lambda>r. rec_entry_hash r = h) (rev rs)"

lemma last_record_snoc:
  "last_record (rs @ [r]) h = (if rec_entry_hash r = h then Some r else last_record rs h)"
  by (simp add: last_record_def)

lemma rebuild_snoc:
  "rebuild_from nfc lower (rs @ [r]) =
     bindE (rebuild_from nfc lower rs) (\<lambda>ix. bindE (upsert nfc lower r ix) (\<lambda>(_, ix). Inr ix))"
  by (simp add: rebuild_from_def foldE_append) (simp add: bindE_def split: sum.splits prod.splits)

lemma rebuild_facts:
  "rebuild_from nfc lower rs = Inr ix \<Longrightarrow>
     index_ok ix \<and> (\<forall>h. bt_get (ix_packages ix) h = Option.bind (last_record rs h) (record_package nfc lower))"
proof (induction rs arbitrary: ix rule: rev_induct)
  case Nil
  then have "ix = index_empty" by (simp add: rebuild_from_def)
  then show ?case by (simp add: index_empty_ok) (simp add: last_record_def index_empty_def)
next
  case (snoc r rs)
  then obtain ix0 pr where ix0: "rebuild_from nfc lower rs = Inr ix0" "upsert nfc lower r ix0 = Inr (pr, ix)"
    by (auto simp: rebuild_snoc bindE_eq_Inr split: prod.splits)
  then obtain p where p: "record_package nfc lower r = Some p" "ix = index_replace p ix0" by (auto simp: upsert_Inr)
  note IH = snoc.IH [OF ix0(1)]
  have ok: "index_ok ix0" using IH by blast
  show ?case
    using index_replace_ok [OF ok, of p] IH p record_package_hash [OF p(1)] by (auto simp: last_record_snoc)
qed

text \<open>
  C34. A rebuild is a reconstruction and not a second truth: two rebuilds whose record lists agree on the last
  record of every entry hash yield the identical index, whatever the order and the repetitions.
\<close>

theorem rebuild_canonical:
  assumes "rebuild_from nfc lower rs = Inr ix" "rebuild_from nfc lower rs' = Inr ix'"
    and "\<forall>h. last_record rs h = last_record rs' h"
  shows "ix = ix'"
  using rebuild_facts [OF assms(1)] rebuild_facts [OF assms(2)] assms(3) by (intro index_determined) simp_all

lemma rebuild_total: "(\<exists>ix. rebuild_from nfc lower rs = Inr ix) \<longleftrightarrow> (\<forall>r \<in> set rs. projectable r)"
proof (induction rs rule: rev_induct)
  case Nil then show ?case by (simp add: rebuild_from_def)
next
  case (snoc r rs)
  have "(\<exists>pr ix'. upsert nfc lower r ix = Inr (pr, ix')) \<longleftrightarrow> projectable r" for ix
    unfolding upsert_Inr record_package_exact [of nfc lower, symmetric] by auto
  then have "(\<exists>ix'. bindE (upsert nfc lower r ix) (\<lambda>(_, ix). Inr ix) = Inr ix') \<longleftrightarrow> projectable r" for ix
    by (fastforce simp: bindE_eq_Inr)
  then show ?case using snoc by (auto simp: rebuild_snoc bindE_eq_Inr)
qed

text \<open>
  C6. An index rebuilt from projectable records answers every query with exactly the hits of the packages that
  match all set filters, taking for each entry hash the last record given, in strictly ascending chain order.
\<close>

theorem rebuild_search_exact:
  assumes "\<forall>r \<in> set rs. projectable r"
  shows "\<exists>ix hits. rebuild_from nfc lower rs = Inr ix \<and> index_search ix q = Inr hits
    \<and> set hits = {pkg_hit p | r p. last_record rs (rec_entry_hash r) = Some r
         \<and> record_package nfc lower r = Some p \<and> query_matches q p}
    \<and> sorted_wrt (<) (map hit_order hits)"
proof -
  obtain ix where ix: "rebuild_from nfc lower rs = Inr ix" using assms rebuild_total by blast
  have ok: "index_ok ix" and get: "\<And>h. bt_get (ix_packages ix) h = Option.bind (last_record rs h) (record_package nfc lower)"
    using rebuild_facts [OF ix] by simp_all
  have hash: "last_record rs h = Some r \<Longrightarrow> rec_entry_hash r = h" for h r
    by (auto simp: last_record_def find_Some_iff)
  obtain hits where hits: "index_search ix q = Inr hits"
      "set hits = {pkg_hit p | h p. bt_get (ix_packages ix) h = Some p \<and> query_matches q p}"
      "sorted_wrt (<) (map hit_order hits)"
    using search_facts [OF ok] by blast
  have "(\<exists>h. bt_get (ix_packages ix) h = Some p) \<longleftrightarrow>
      (\<exists>r. last_record rs (rec_entry_hash r) = Some r \<and> record_package nfc lower r = Some p)" for p
    unfolding get bind_eq_Some_conv using hash by metis
  then have "set hits = {pkg_hit p | r p. last_record rs (rec_entry_hash r) = Some r
         \<and> record_package nfc lower r = Some p \<and> query_matches q p}" unfolding hits(2) by blast
  then show ?thesis using ix hits(1,3) by blast
qed

lemma term_keys_set: "set (term_keys nfc lower ts) = normalize_term nfc lower ` set ts - {[]}"
  by (auto simp: term_keys_def)

lemma bt_size: "bt_ok m \<Longrightarrow> length m = card {k. bt_get m k \<noteq> None}"
proof -
  assume ok: "bt_ok m"
  have "{k. bt_get m k \<noteq> None} = set (map fst m)" by (auto simp: bt_get_def map_of_eq_None_iff)
  then show ?thesis using bt_ok_distinct [OF ok] by (metis distinct_card length_map)
qed

text \<open>
  C19. Taking up a record refuses exactly the records whose schemas cannot be projected, with the refused schema
  in the error; otherwise it keeps the posting lists the exact inverse of the packages, changes the row of that
  entry hash only, counts packages and not calls, and the record is found by each of its own search terms.
\<close>

theorem upsert_exact:
  assumes "index_ok ix"
  shows "case upsert nfc lower r ix of
      Inl e \<Rightarrow> \<not> projectable r \<and> (\<exists>i v. e = IndexSchema (Unsupported i v))
    | Inr (pr, ix') \<Rightarrow> projectable r \<and> index_ok ix'
        \<and> (\<exists>p. record_package nfc lower r = Some p
             \<and> (\<forall>h. bt_get (ix_packages ix') h = (if h = rec_entry_hash r then Some p else bt_get (ix_packages ix) h))
             \<and> (\<forall>t \<in> set (rec_keyword_terms r). normalize_term nfc lower t \<noteq> [] \<longrightarrow>
                  (\<exists>hits. index_search ix' (and_keyword nfc lower t query_default) = Inr hits \<and> pkg_hit p \<in> set hits)))
        \<and> indexed_packages ix' = card (insert (rec_entry_hash r) {h. hit_for ix h \<noteq> None})
        \<and> (pr = SegmentationRequired (indexed_packages ix') \<longleftrightarrow> 50000 \<le> indexed_packages ix')"
proof (cases "upsert nfc lower r ix")
  case (Inl e)
  then have "derive_view nfc r = Inl e" by (auto simp: upsert_def bindE_eq_Inl Let_def)
  then show ?thesis using Inl derive_view_error [of nfc r e] derive_view_exact [of nfc r] by auto
next
  case (Inr x)
  obtain pr ix' where x: "x = (pr, ix')" by (cases x)
  obtain p where p: "record_package nfc lower r = Some p" "ix' = index_replace p ix" "pr = pressure ix'"
    using Inr x by (auto simp: upsert_Inr)
  have hash: "hit_entry_hash (pkg_hit p) = rec_entry_hash r" using p(1) by (rule record_package_hash)
  have ok: "index_ok ix'" and get: "\<And>h. bt_get (ix_packages ix') h = (if h = rec_entry_hash r then Some p else bt_get (ix_packages ix) h)"
    using index_replace_ok [OF assms, of p] p(2) hash by simp_all
  have found: "\<exists>hits. index_search ix' (and_keyword nfc lower t query_default) = Inr hits \<and> pkg_hit p \<in> set hits"
    if "t \<in> set (rec_keyword_terms r)" "normalize_term nfc lower t \<noteq> []" for t
  proof -
    have "pkg_keyword_terms p = term_keys nfc lower (rec_keyword_terms r)"
      using p(1) by (auto simp: record_package_def package_of_def split: sum.splits)
    then have "query_matches (and_keyword nfc lower t query_default) p"
      using that by (simp add: query_matches_def and_keyword_def query_default_def axis_matches_def term_keys_set)
    moreover have "bt_get (ix_packages ix') (rec_entry_hash r) = Some p" using get by simp
    ultimately have "pkg_hit p \<in> {pkg_hit p | h p. bt_get (ix_packages ix') h = Some p
        \<and> query_matches (and_keyword nfc lower t query_default) p}" by blast
    then show ?thesis using search_facts [OF ok, of "and_keyword nfc lower t query_default"] by auto
  qed
  have "{h. bt_get (ix_packages ix') h \<noteq> None} = insert (rec_entry_hash r) {h. hit_for ix h \<noteq> None}"
    by (auto simp: get hit_for_def)
  then have count: "indexed_packages ix' = card (insert (rec_entry_hash r) {h. hit_for ix h \<noteq> None})"
    using ok bt_size [of "ix_packages ix'"] by (simp add: indexed_packages_def index_ok_def)
  have "pr = SegmentationRequired (indexed_packages ix') \<longleftrightarrow> 50000 \<le> indexed_packages ix'"
    using p(3) by (simp add: pressure_def Let_def MONOLITHIC_INDEX_MAX_PACKAGES_V1_def)
  moreover have "projectable r" using p(1) record_package_exact [of nfc lower r] by simp
  ultimately show ?thesis unfolding Inr x sum.case prod.case using ok p(1) get found count by blast
qed

section \<open>Examples\<close>

definition sample_lower :: "bytes \<Rightarrow> bytes" where
  "sample_lower = map (\<lambda>b. if 65 \<le> b \<and> b \<le> 90 then b + 32 else b)"

definition sample_record :: "byte \<Rightarrow> u64 \<Rightarrow> string \<Rightarrow> indexable_record" where
  "sample_record h n t = \<lparr>rec_entry_hash = [h], rec_chain_sequence = n, rec_record_id = [h],
     rec_source_schema_id = PROJECTED_TARGET_SCHEMA_ID_V1, rec_source_schema_version = 1,
     rec_target_schema_id = PROJECTED_TARGET_SCHEMA_ID_V1, rec_target_schema_version = 1,
     rec_human_incident_number = [], rec_occurred_at_start = 5, rec_occurred_at_end = None,
     rec_keyword_terms = [ascii t], rec_vehicle_terms = [], rec_person_terms = []\<rparr>"

lemma sample_projectable: "projectable (sample_record h n t)"
  using incident_registered by (simp add: projectable_def sample_record_def SCHEMA_VERSION_V1_def)

lemma sample_rebuild: "\<exists>ix. rebuild_from nfc lower [sample_record h n t, sample_record h' n' t'] = Inr ix"
  using sample_projectable by (simp add: rebuild_total)

theorem rebuild_search_exact_witness:
  "\<exists>ix hits. rebuild_from id sample_lower [sample_record 2 7 ''Brand'', sample_record 1 8 ''BRAND''] = Inr ix
    \<and> index_search ix (and_keyword id sample_lower (ascii ''brand'') query_default) = Inr hits
    \<and> sorted_wrt (<) (map hit_order hits)"
  using rebuild_search_exact [of "[sample_record 2 7 ''Brand'', sample_record 1 8 ''BRAND'']" id sample_lower
      "and_keyword id sample_lower (ascii ''brand'') query_default"] sample_projectable
  by auto

theorem rebuild_canonical_witness:
  "rebuild_from id sample_lower [sample_record 2 7 ''Brand'', sample_record 1 8 ''BRAND''] =
   rebuild_from id sample_lower [sample_record 1 8 ''BRAND'', sample_record 2 7 ''Brand'']"
proof -
  let ?a = "sample_record 2 7 ''Brand''" and ?b = "sample_record 1 8 ''BRAND''"
  have "last_record [?a, ?b] h = last_record [?b, ?a] h" for h
    by (auto simp: last_record_def sample_record_def)
  then show ?thesis
    using rebuild_canonical [of id sample_lower "[?a, ?b]" _ "[?b, ?a]"] sample_rebuild by metis
qed

theorem upsert_exact_witness:
  "\<exists>pr ix'. upsert id sample_lower (sample_record 2 7 ''Brand'') index_empty = Inr (pr, ix') \<and> index_ok ix'
     \<and> indexed_packages ix' = 1"
proof -
  let ?r = "sample_record 2 7 ''Brand''"
  have "{h. hit_for index_empty h \<noteq> None} = {}" by (simp add: hit_for_def index_empty_def)
  then show ?thesis
    using upsert_exact [OF index_empty_ok, where nfc = id and lower = sample_lower and r = ?r] sample_projectable [of 2 7 "''Brand''"]
    by (auto split: sum.splits)
qed

end
