(* ===== verification/EaBundle.thy ===== *)
theory EaBundle
  imports EaCborSpec
begin

text \<open>
  The one-file archive bundle: its reader (\<^verbatim>\<open>crates/ea-archive/src/bundle.rs\<close>) and its writer
  (\<^verbatim>\<open>crates/ea-archive-fs/src/bundle.rs\<close>). Addresses are UTF-8 byte strings. What the export asks of the host
  (the directory, the verification of the archive, the target file) is a record of answers.
\<close>

section \<open>The container\<close>

datatype bundle_error = SourceNotFullyVerified | TargetOccupied | BundleMalformed | BlobLimit | TotalByteLimit | BundleIo

definition BUNDLE_MAGIC_V1 :: bytes where
  "BUNDLE_MAGIC_V1 = ascii ''EINSATZARCHIV-ARCHIVE-BUNDLE-v1'' @ [10]"

definition BUNDLE_HEADER_BYTES_V1 :: nat where "BUNDLE_HEADER_BYTES_V1 = 48"
definition INDEX_RECORD_FIXED_BYTES :: nat where "INDEX_RECORD_FIXED_BYTES = 2 + 8 + 8"
definition MAX_ARCHIVE_BLOBS_V1 :: nat where "MAX_ARCHIVE_BLOBS_V1 = 1048576"
definition MAX_TOTAL_ARCHIVE_BYTES_V1 :: nat where "MAX_TOTAL_ARCHIVE_BYTES_V1 = 2147483648"

record bundle_index_entry =
  be_path :: bytes
  be_offset :: nat
  be_length :: nat

record archive_bundle_source =
  bundle_bytes :: bytes
  bundle_index :: "bundle_index_entry list"
  bundle_payload_start :: nat

text \<open>\<^verbatim>\<open>str::split('/')\<close> on the byte string.\<close>

fun split_at :: "byte \<Rightarrow> bytes \<Rightarrow> bytes list" where
  "split_at sep [] = [[]]"
| "split_at sep (b # bs) =
     (if b = sep then [] # split_at sep bs
      else case split_at sep bs of [] \<Rightarrow> [[b]] | s # ss \<Rightarrow> (b # s) # ss)"

definition bad_segment :: "bytes \<Rightarrow> bool" where
  "bad_segment s \<longleftrightarrow> s = [] \<or> s = [0x2E] \<or> s = [0x2E, 0x2E]"

definition validate_bundle_path :: "bytes \<Rightarrow> bundle_error + unit" where
  "validate_bundle_path path =
     bindE (reject_if (path = [] \<or> hd path = 0x2F \<or> 0x5C \<in> set path) BundleMalformed) (\<lambda>_.
     bindE (reject_if (length path \<ge> 2 \<and> path ! 1 = 0x3A) BundleMalformed) (\<lambda>_.
     reject_if (\<exists>s \<in> set (split_at 0x2F path). bad_segment s) BundleMalformed))"

definition read_u64_raw :: "bytes \<Rightarrow> nat \<Rightarrow> bundle_error + u64" where
  "read_u64_raw bytes at = bindE (ok_or BundleMalformed (slice_get bytes at (at + 8))) (\<lambda>s. Inr (from_be_bytes s))"

definition bundle_read_u64 :: "bytes \<Rightarrow> nat \<Rightarrow> bundle_error + nat" where
  "bundle_read_u64 bytes at =
     bindE (read_u64_raw bytes at) (\<lambda>v. if unat v \<le> usize_max then Inr (unat v) else Inl BundleMalformed)"

text \<open>One pass of the loop over the index region: the record at \<open>at\<close>, where it ends and the new payload end.\<close>

definition parse_record ::
    "bytes \<Rightarrow> nat \<Rightarrow> nat \<Rightarrow> nat \<Rightarrow> bundle_index_entry list \<Rightarrow> bundle_error + bundle_index_entry \<times> nat \<times> nat" where
  "parse_record bytes payload_start at consumed index =
     bindE (ok_or BundleMalformed (slice_get bytes at (at + 2))) (\<lambda>width.
     let path_length = unat (from_be_bytes width); path_at = at + 2; offset_at = path_at + path_length in
     bindE (ok_or BundleMalformed
              (case checked_add_usize at INDEX_RECORD_FIXED_BYTES of
                 None \<Rightarrow> None | Some stop \<Rightarrow> checked_add_usize stop path_length)) (\<lambda>record_end.
     bindE (reject_if (record_end > payload_start) BundleMalformed) (\<lambda>_.
     let path = slice bytes path_at offset_at in
     bindE (reject_if (utf8_chars path = None) BundleMalformed) (\<lambda>_.
     bindE (validate_bundle_path path) (\<lambda>_.
     bindE (reject_if (index \<noteq> [] \<and> be_path (last index) \<ge> path) BundleMalformed) (\<lambda>_.
     bindE (bundle_read_u64 bytes offset_at) (\<lambda>offset.
     bindE (bundle_read_u64 bytes (offset_at + 8)) (\<lambda>len.
     bindE (reject_if (offset \<noteq> consumed) BundleMalformed) (\<lambda>_.
     bindE (ok_or TotalByteLimit (checked_add_usize consumed len)) (\<lambda>consumed.
     bindE (reject_if (consumed > MAX_TOTAL_ARCHIVE_BYTES_V1) TotalByteLimit) (\<lambda>_.
     Inr (\<lparr>be_path = path, be_offset = offset, be_length = len\<rparr>, record_end, consumed))))))))))))"

lemma parse_record_advances: "parse_record bytes payload_start at consumed index = Inr (e, record_end, c) \<Longrightarrow> at < record_end"
  by (auto simp: parse_record_def result_simps Let_def checked_add_usize_Some INDEX_RECORD_FIXED_BYTES_def
      split: option.splits)

function parse_index ::
    "bytes \<Rightarrow> nat \<Rightarrow> nat \<Rightarrow> nat \<Rightarrow> bundle_index_entry list \<Rightarrow> bundle_error + nat \<times> bundle_index_entry list" where
  "parse_index bytes payload_start at consumed index =
     (if at < payload_start then
        bindE (parse_record bytes payload_start at consumed index) (\<lambda>(entry, record_end, consumed).
        parse_index bytes payload_start record_end consumed (index @ [entry]))
      else Inr (consumed, index))"
  by pat_completeness auto

termination parse_index
  by (relation "measure (\<lambda>(_, payload_start, at, _, _). payload_start - at)")
     (auto dest: parse_record_advances)

declare parse_index.simps [simp del]

definition from_bytes :: "bytes \<Rightarrow> bundle_error + archive_bundle_source" where
  "from_bytes bytes =
     bindE (reject_if (length bytes < BUNDLE_HEADER_BYTES_V1) BundleMalformed) (\<lambda>_.
     bindE (reject_if (take (length BUNDLE_MAGIC_V1) bytes \<noteq> BUNDLE_MAGIC_V1) BundleMalformed) (\<lambda>_.
     bindE (read_u64_raw bytes 32) (\<lambda>raw.
     bindE (if unat raw \<le> usize_max \<and> unat raw \<le> MAX_ARCHIVE_BLOBS_V1 then Inr (unat raw) else Inl BlobLimit) (\<lambda>blob_count.
     bindE (bundle_read_u64 bytes 40) (\<lambda>index_length.
     bindE (ok_or BundleMalformed (checked_add_usize BUNDLE_HEADER_BYTES_V1 index_length)) (\<lambda>payload_start.
     bindE (reject_if (payload_start > length bytes) BundleMalformed) (\<lambda>_.
     bindE (parse_index bytes payload_start BUNDLE_HEADER_BYTES_V1 0 []) (\<lambda>(consumed, index).
     bindE (reject_if (length index \<noteq> blob_count) BundleMalformed) (\<lambda>_.
     bindE (reject_if (length bytes - payload_start \<noteq> consumed) BundleMalformed) (\<lambda>_.
     Inr \<lparr>bundle_bytes = bytes, bundle_index = index, bundle_payload_start = payload_start\<rparr>))))))))))"

definition blob_at :: "archive_bundle_source \<Rightarrow> bundle_index_entry \<Rightarrow> bytes \<times> bytes" where
  "blob_at src entry =
     (let start = bundle_payload_start src + be_offset entry in
      (be_path entry, slice (bundle_bytes src) start (start + be_length entry)))"

definition visit_blobs ::
    "archive_bundle_source \<Rightarrow> (bytes \<times> bytes \<Rightarrow> 's \<Rightarrow> 'e + 's) \<Rightarrow> 's \<Rightarrow> 'e + 's" where
  "visit_blobs src visitor s = foldE (\<lambda>entry. visitor (blob_at src entry)) (bundle_index src) s"

section \<open>The writer\<close>

definition u64_of :: "nat \<Rightarrow> bundle_error + bytes" where
  "u64_of value = (if value < 2 ^ 64 then Inr (to_be_bytes 8 (of_nat value)) else Inl BundleMalformed)"

fun encode_index :: "(bytes \<times> bytes) list \<Rightarrow> bytes \<Rightarrow> nat \<Rightarrow> bundle_error + bytes \<times> nat" where
  "encode_index [] index offset = Inr (index, offset)"
| "encode_index ((path, bytes) # blobs) index offset =
     bindE (reject_if (length path \<ge> 2 ^ 16) BundleMalformed) (\<lambda>_.
     bindE (u64_of offset) (\<lambda>offset_bytes.
     bindE (u64_of (length bytes)) (\<lambda>length_bytes.
     bindE (ok_or TotalByteLimit (checked_add_usize offset (length bytes))) (\<lambda>next_offset.
     encode_index blobs (index @ to_be_bytes 2 (of_nat (length path)) @ path @ offset_bytes @ length_bytes)
       next_offset))))"

definition encode_bundle :: "(bytes \<times> bytes) list \<Rightarrow> bundle_error + bytes" where
  "encode_bundle blobs =
     bindE (encode_index blobs [] 0) (\<lambda>(index, _).
     bindE (u64_of (length blobs)) (\<lambda>count_bytes.
     bindE (u64_of (length index)) (\<lambda>index_length_bytes.
     Inr (BUNDLE_MAGIC_V1 @ count_bytes @ index_length_bytes @ index @ concat (map snd blobs)))))"

section \<open>The host\<close>

definition MAX_BUNDLE_FILE_BYTES_V1 :: nat where
  "MAX_BUNDLE_FILE_BYTES_V1 =
     BUNDLE_HEADER_BYTES_V1 + MAX_ARCHIVE_BLOBS_V1 * (INDEX_RECORD_FIXED_BYTES + (2 ^ 16 - 1))
       + MAX_TOTAL_ARCHIVE_BYTES_V1"

text \<open>A readable file: the length its metadata declares and what reading it yields.\<close>

definition open_archive_bundle_capped ::
    "nat option \<Rightarrow> bytes option \<Rightarrow> nat \<Rightarrow> bundle_error + archive_bundle_source" where
  "open_archive_bundle_capped declared contents cap =
     bindE (ok_or BundleIo declared) (\<lambda>declared.
     bindE (reject_if (declared > cap) TotalByteLimit) (\<lambda>_.
     bindE (ok_or BundleIo contents) from_bytes))"

definition open_archive_bundle :: "nat option \<Rightarrow> bytes option \<Rightarrow> bundle_error + archive_bundle_source" where
  "open_archive_bundle declared contents = open_archive_bundle_capped declared contents MAX_BUNDLE_FILE_BYTES_V1"

datatype create_outcome = Created | AlreadyExists | CreateFailed

record bundle_host =
  host_materialized :: bool
  host_relative_paths :: "bytes list option"
  host_read_relative :: "bytes \<Rightarrow> bytes option"
  host_fully_verified :: "archive_bundle_source \<Rightarrow> bool option"
  host_target_in_holding :: "bool option"
  host_create_new :: create_outcome
  host_write_all :: "bytes \<Rightarrow> bool"
  host_sync_all :: bool
  host_sync_parent :: bool

fun read_holding :: "bundle_host \<Rightarrow> bytes list \<Rightarrow> (bytes \<times> bytes) list \<Rightarrow> nat \<Rightarrow> bundle_error + (bytes \<times> bytes) list" where
  "read_holding host [] blobs tot = Inr blobs"
| "read_holding host (relative # rest) blobs tot =
     bindE (ok_or BundleIo (host_read_relative host relative)) (\<lambda>bytes.
     bindE (ok_or TotalByteLimit (checked_add_usize tot (length bytes))) (\<lambda>tot.
     bindE (reject_if (tot > MAX_TOTAL_ARCHIVE_BYTES_V1) TotalByteLimit) (\<lambda>_.
     let blobs = blobs @ [(relative, bytes)] in
     bindE (reject_if (length blobs > MAX_ARCHIVE_BLOBS_V1) BlobLimit) (\<lambda>_.
     read_holding host rest blobs tot))))"

text \<open>The result, and the bytes handed to the new target file if it was created.\<close>

definition write_archive_bundle :: "bundle_host \<Rightarrow> (bundle_error + nat) \<times> bytes option" where
  "write_archive_bundle host =
     (case
        bindE (reject_if (\<not> host_materialized host) BundleIo) (\<lambda>_.
        bindE (ok_or BundleIo (host_relative_paths host)) (\<lambda>paths.
        bindE (read_holding host paths [] 0) (\<lambda>blobs.
        bindE (encode_bundle blobs) (\<lambda>container.
        bindE (from_bytes container) (\<lambda>bundle.
        bindE (ok_or SourceNotFullyVerified (host_fully_verified host bundle)) (\<lambda>verified.
        bindE (reject_if (\<not> verified) SourceNotFullyVerified) (\<lambda>_.
        bindE (ok_or BundleIo (host_target_in_holding host)) (\<lambda>inside.
        bindE (reject_if inside TargetOccupied) (\<lambda>_.
        bindE (case host_create_new host of
                 Created \<Rightarrow> Inr () | AlreadyExists \<Rightarrow> Inl TargetOccupied | CreateFailed \<Rightarrow> Inl BundleIo) (\<lambda>_.
        Inr (length blobs, bundle_bytes bundle))))))))))) of
        Inl e \<Rightarrow> (Inl e, None)
      | Inr (blob_count, container) \<Rightarrow>
          if \<not> host_write_all host container then (Inl BundleIo, Some container)
          else if \<not> host_sync_all host \<or> \<not> host_sync_parent host then (Inl BundleIo, Some container)
          else (Inr blob_count, Some container))"

section \<open>Index records\<close>

definition be8 :: "nat \<Rightarrow> bytes" where
  "be8 n = to_be_bytes 8 (of_nat n)"

definition record_bytes :: "bundle_index_entry \<Rightarrow> bytes" where
  "record_bytes e = to_be_bytes 2 (of_nat (length (be_path e))) @ be_path e @ be8 (be_offset e) @ be8 (be_length e)"

lemma be8_length [simp]: "length (be8 n) = 8"
  by (simp add: be8_def)

lemma record_bytes_length [simp]: "length (record_bytes e) = length (be_path e) + 18"
  by (simp add: record_bytes_def)

definition path_ok :: "bytes \<Rightarrow> bool" where
  "path_ok path \<longleftrightarrow> utf8_chars path \<noteq> None \<and> validate_bundle_path path = Inr ()"

definition entry_fits :: "bundle_index_entry list \<Rightarrow> nat \<Rightarrow> bundle_index_entry \<Rightarrow> bool" where
  "entry_fits index consumed e \<longleftrightarrow> path_ok (be_path e) \<and> length (be_path e) < 2 ^ 16
     \<and> (index = [] \<or> be_path (last index) < be_path e)
     \<and> be_offset e = consumed \<and> consumed + be_length e \<le> MAX_TOTAL_ARCHIVE_BYTES_V1"

lemma slice_get_stands: "slice_get bytes at (at + n) = Some w \<longleftrightarrow> at + n \<le> length bytes \<and> length w = n \<and> stands_at bytes at w"
  by (auto simp: slice_get_def stands_at_def)

lemma unat_of_nat_u64: "n < 2 ^ 64 \<Longrightarrow> unat (of_nat n :: u64) = n"
  by (simp add: unat_of_nat)

lemma stands_be8:
  assumes "n < 2 ^ 64"
  shows "stands_at bytes at (be8 n) \<longleftrightarrow> bundle_read_u64 bytes at = Inr n"
proof
  assume st: "stands_at bytes at (be8 n)"
  then have "at + 8 \<le> length bytes" using stands_at_bound [OF st] by (simp add: be8_def to_be_bytes_Suc numeral_eq_Suc)
  then have "slice_get bytes at (at + 8) = Some (be8 n)" using st by (simp add: slice_get_stands)
  moreover have "from_be_bytes (be8 n) = of_nat n"
    using assms by (simp add: be8_def from_to_be_bytes unat_of_nat_u64)
  ultimately show "bundle_read_u64 bytes at = Inr n"
    using assms by (simp add: bundle_read_u64_def read_u64_raw_def unat_of_nat_u64)
next
  assume "bundle_read_u64 bytes at = Inr n"
  then obtain s where s: "slice_get bytes at (at + 8) = Some s" "n = unat (from_be_bytes s)"
    by (auto simp: bundle_read_u64_def read_u64_raw_def result_simps split: if_splits)
  then have w: "length s = 8" "stands_at bytes at s" by (simp_all add: slice_get_stands)
  have "be8 n = s" using w(1) by (simp add: be8_def s(2) to_from_be_bytes)
  then show "stands_at bytes at (be8 n)" using w(2) by simp
qed

lemma bundle_read_u64_less: "bundle_read_u64 bytes at = Inr n \<Longrightarrow> n < 2 ^ 64"
  by (auto simp: bundle_read_u64_def result_simps usize_max_def split: if_splits)

lemma two_bytes:
  assumes "length w = 2"
  shows "to_be_bytes 2 (of_nat (unat (from_be_bytes w))) = w" and "unat (from_be_bytes w) < 2 ^ 16"
proof -
  show "to_be_bytes 2 (of_nat (unat (from_be_bytes w))) = w" using assms by (simp add: to_from_be_bytes)
  show "unat (from_be_bytes w) < 2 ^ 16" using assms be_nat_less [of w] by (simp add: unat_from_be_bytes)
qed

lemma from_two_bytes: "n < 2 ^ 16 \<Longrightarrow> unat (from_be_bytes (to_be_bytes 2 (of_nat n))) = n"
proof -
  assume n: "n < 2 ^ 16"
  then have u: "unat (of_nat n :: u64) = n" by (simp add: unat_of_nat)
  then have "from_be_bytes (to_be_bytes 2 (of_nat n)) = of_nat n" using n by (intro from_to_be_bytes) simp_all
  then show ?thesis using u by simp
qed

lemma parse_index_done: "at \<ge> payload_start \<Longrightarrow> parse_index bytes payload_start at consumed index = Inr (consumed, index)"
  by (simp add: parse_index.simps)

lemma validate_unit: "validate_bundle_path p = Inr u \<longleftrightarrow> validate_bundle_path p = Inr ()"
  by simp

lemma parse_record_sound:
  assumes "parse_record bytes payload_start at consumed index = Inr (e, record_end, c)"
  shows "stands_at bytes at (record_bytes e)" and "record_end = at + length (record_bytes e)"
    and "record_end \<le> payload_start" and "entry_fits index consumed e" and "c = consumed + be_length e"
proof -
  obtain width where w: "slice_get bytes at (at + 2) = Some width"
    using assms unfolding parse_record_def by (simp only: result_simps) blast
  define n p q where "n = unat (from_be_bytes width)" and "p = at + 2" and "q = p + n"
  note step = assms [unfolded parse_record_def w ok_or_simps bindE_simps Let_def, folded n_def, folded p_def, folded q_def]
  let ?path = "slice bytes p q"
  obtain len where rend: "record_end = at + 18 + n" "record_end \<le> payload_start"
    and path: "path_ok ?path" "index = [] \<or> be_path (last index) < ?path"
    and off: "bundle_read_u64 bytes q = Inr consumed"
    and len: "bundle_read_u64 bytes (q + 8) = Inr len" "consumed + len \<le> MAX_TOTAL_ARCHIVE_BYTES_V1"
    and e: "e = \<lparr>be_path = ?path, be_offset = consumed, be_length = len\<rparr>" "c = consumed + len"
    using step
    by (auto simp: result_simps checked_add_usize_Some INDEX_RECORD_FIXED_BYTES_def path_ok_def
        not_le not_less split: option.splits)
  have width: "length width = 2" "stands_at bytes at width" using w unfolding slice_get_stands by simp_all
  have consumed: "consumed < 2 ^ 64" "len < 2 ^ 64"
    using bundle_read_u64_less [OF off] bundle_read_u64_less [OF len(1)] by simp_all
  have st_off: "stands_at bytes q (be8 consumed)" and st_len: "stands_at bytes (q + 8) (be8 len)"
    using stands_be8 consumed off len(1) by simp_all
  have "q + 8 \<le> length bytes" using stands_at_bound [OF st_off] by (metis be8_length list.size(3) zero_neq_numeral)
  then have path_len: "length ?path = n" by (simp add: slice_def q_def)
  then have st_path: "stands_at bytes p ?path" by (simp add: stands_at_def slice_def q_def)
  have n: "to_be_bytes 2 (of_nat n) = width" "n < 2 ^ 16" using two_bytes [OF width(1)] by (simp_all add: n_def)
  show "stands_at bytes at (record_bytes e)"
    using width st_path st_off st_len path_len n(1)
    by (simp add: e(1) record_bytes_def stands_at_append p_def q_def add.assoc)
  show "record_end = at + length (record_bytes e)" using rend(1) path_len by (simp add: e(1))
  show "record_end \<le> payload_start" by (rule rend(2))
  show "entry_fits index consumed e" using path len(2) path_len n(2) by (simp add: entry_fits_def e(1))
  show "c = consumed + be_length e" by (simp add: e)
qed

lemma parse_record_complete:
  assumes bounds: "payload_start \<le> length bytes" "length bytes \<le> usize_max"
    and st: "stands_at bytes at (record_bytes e)" "at + length (record_bytes e) \<le> payload_start"
    and fits: "entry_fits index consumed e"
  shows "parse_record bytes payload_start at consumed index = Inr (e, at + length (record_bytes e), consumed + be_length e)"
proof -
  define n where "n = length (be_path e)"
  define p q where "p = at + 2" and "q = p + n"
  let ?w = "to_be_bytes 2 (of_nat n) :: bytes"
  have small: "consumed < 2 ^ 64" "be_length e < 2 ^ 64" "consumed + be_length e \<le> usize_max" "be_offset e = consumed"
    using fits by (simp_all add: entry_fits_def MAX_TOTAL_ARCHIVE_BYTES_V1_def usize_max_def)
  have parts: "stands_at bytes at ?w" "stands_at bytes p (be_path e)" "stands_at bytes q (be8 consumed)"
    "stands_at bytes (q + 8) (be8 (be_length e))"
    using st(1) small(4) by (simp_all add: record_bytes_def stands_at_append n_def p_def q_def add.assoc)
  have width: "slice_get bytes at (at + 2) = Some ?w"
    unfolding slice_get_stands using parts(1) st(2) bounds(1) by simp
  have n: "unat (from_be_bytes ?w) = n" using fits by (intro from_two_bytes) (simp add: entry_fits_def n_def)
  have path: "slice bytes p q = be_path e" using slice_stands_at [OF parts(2)] by (simp add: q_def n_def)
  have reads: "bundle_read_u64 bytes q = Inr consumed" "bundle_read_u64 bytes (q + 8) = Inr (be_length e)"
    using parts(3,4) stands_be8 small(1,2) by simp_all
  have stop: "at + 18 + n \<le> payload_start" "at + 18 + n \<le> usize_max" using st(2) bounds by (simp_all add: n_def)
  have "\<not> (index \<noteq> [] \<and> be_path (last index) \<ge> be_path e)" "utf8_chars (be_path e) \<noteq> None"
    "validate_bundle_path (be_path e) = Inr ()"
    using fits by (auto simp: entry_fits_def path_ok_def)
  moreover have "\<not> consumed + be_length e > MAX_TOTAL_ARCHIVE_BYTES_V1" using fits by (simp add: entry_fits_def)
  moreover have "(case checked_add_usize at INDEX_RECORD_FIXED_BYTES of None \<Rightarrow> None | Some stop \<Rightarrow> checked_add_usize stop n)
      = Some (at + 18 + n)" using stop(2) by (simp add: checked_add_usize_def INDEX_RECORD_FIXED_BYTES_def)
  moreover have "\<not> at + 18 + n > payload_start" using stop(1) by simp
  moreover have "checked_add_usize consumed (be_length e) = Some (consumed + be_length e)"
    using small(3) by (simp add: checked_add_usize_def)
  moreover have "e = \<lparr>be_path = be_path e, be_offset = consumed, be_length = be_length e\<rparr>" using small(4) by (cases e) simp
  moreover have "at + length (record_bytes e) = at + 18 + n" by (simp add: n_def)
  ultimately show ?thesis
    unfolding parse_record_def p_def [symmetric] width [unfolded p_def [symmetric]] ok_or_simps bindE_simps Let_def n
      q_def [symmetric] path reads
    by (simp only: reject_if_simps bindE_simps ok_or_simps simp_thms)
qed

fun fit_all :: "bundle_index_entry list \<Rightarrow> nat \<Rightarrow> bundle_index_entry list \<Rightarrow> bool" where
  "fit_all index consumed [] = True"
| "fit_all index consumed (e # es) \<longleftrightarrow> entry_fits index consumed e \<and> fit_all (index @ [e]) (consumed + be_length e) es"

lemma parse_index_exact:
  assumes "at \<le> payload_start" "payload_start \<le> length bytes" "length bytes \<le> usize_max"
  shows "parse_index bytes payload_start at consumed index = Inr (total_length, entries) \<longleftrightarrow>
    (\<exists>es. entries = index @ es \<and> fit_all index consumed es \<and> total_length = consumed + sum_list (map be_length es)
       \<and> stands_at bytes at (concat (map record_bytes es)) \<and> at + length (concat (map record_bytes es)) = payload_start)"
    (is "_ \<longleftrightarrow> (\<exists>es. ?spec at consumed index es)")
proof
  show "parse_index bytes payload_start at consumed index = Inr (total_length, entries) \<Longrightarrow> \<exists>es. ?spec at consumed index es"
    using assms
  proof (induction bytes payload_start at consumed index rule: parse_index.induct)
    case (1 bytes payload_start at consumed index)
    show ?case
    proof (cases "at < payload_start")
      case True
      obtain e record_end c where rec: "parse_record bytes payload_start at consumed index = Inr (e, record_end, c)"
        and rest: "parse_index bytes payload_start record_end c (index @ [e]) = Inr (total_length, entries)"
        using "1.prems"(1) True by (auto simp: parse_index.simps [of bytes payload_start at] bindE_eq_Inr)
      note r = parse_record_sound [OF rec]
      obtain es where es: "entries = (index @ [e]) @ es" "fit_all (index @ [e]) c es" "total_length = c + sum_list (map be_length es)"
        "stands_at bytes record_end (concat (map record_bytes es))"
        "record_end + length (concat (map record_bytes es)) = payload_start"
        using "1.IH" [OF True rec refl refl rest r(3)] "1.prems"(3,4) by auto
      then show ?thesis using r by (intro exI [of _ "e # es"]) (simp add: stands_at_append add.assoc)
    next
      case False
      then show ?thesis using "1.prems" by (intro exI [of _ "[]"]) (simp add: parse_index_done)
    qed
  qed
next
  have "parse_index bytes payload_start at consumed index = Inr (consumed + sum_list (map be_length es), index @ es)"
    if "fit_all index consumed es" "stands_at bytes at (concat (map record_bytes es))"
      "at + length (concat (map record_bytes es)) = payload_start" for es
    using that
  proof (induction es arbitrary: at consumed index)
    case Nil then show ?case by (simp add: parse_index_done)
  next
    case (Cons e es)
    have st: "stands_at bytes at (record_bytes e)" "stands_at bytes (at + length (record_bytes e)) (concat (map record_bytes es))"
      using Cons.prems(2) by (simp_all add: stands_at_append)
    have le: "at + length (record_bytes e) \<le> payload_start" "at < payload_start" using Cons.prems(3) by simp_all
    note rec = parse_record_complete [OF assms(2,3) st(1) le(1)]
    have fits: "entry_fits index consumed e" "fit_all (index @ [e]) (consumed + be_length e) es"
      using Cons.prems(1) by simp_all
    have "at + length (record_bytes e) + length (concat (map record_bytes es)) = payload_start"
      using Cons.prems(3) by simp
    from Cons.IH [OF fits(2) st(2) this] show ?case
      using rec [OF fits(1)] le(2) by (subst parse_index.simps) (simp add: add.assoc)
  qed
  then show "\<exists>es. ?spec at consumed index es \<Longrightarrow> parse_index bytes payload_start at consumed index = Inr (total_length, entries)"
    by blast
qed

section \<open>Holdings\<close>

fun entries_of :: "nat \<Rightarrow> (bytes \<times> bytes) list \<Rightarrow> bundle_index_entry list" where
  "entries_of offset [] = []"
| "entries_of offset ((path, bytes) # blobs) =
     \<lparr>be_path = path, be_offset = offset, be_length = length bytes\<rparr> # entries_of (offset + length bytes) blobs"

abbreviation payload :: "(bytes \<times> bytes) list \<Rightarrow> bytes" where
  "payload blobs \<equiv> concat (map snd blobs)"

definition holding_ok :: "(bytes \<times> bytes) list \<Rightarrow> bool" where
  "holding_ok blobs \<longleftrightarrow> sorted_wrt (<) (map fst blobs) \<and> (\<forall>path \<in> fst ` set blobs. path_ok path)
     \<and> length blobs \<le> MAX_ARCHIVE_BLOBS_V1 \<and> length (payload blobs) \<le> MAX_TOTAL_ARCHIVE_BYTES_V1"

definition container :: "(bytes \<times> bytes) list \<Rightarrow> bytes" where
  "container blobs =
     (let index = concat (map record_bytes (entries_of 0 blobs)) in
      BUNDLE_MAGIC_V1 @ be8 (length blobs) @ be8 (length index) @ index @ payload blobs)"

lemma entries_of_lengths: "sum_list (map be_length (entries_of c blobs)) = length (payload blobs)"
  by (induction blobs arbitrary: c) auto

lemma entries_of_length [simp]: "length (entries_of c blobs) = length blobs"
  by (induction blobs arbitrary: c) auto

lemma entries_of_path: "map be_path (entries_of c blobs) = map fst blobs"
  by (induction blobs arbitrary: c) auto

lemma fit_all_entries_of:
  "c \<le> MAX_TOTAL_ARCHIVE_BYTES_V1 \<Longrightarrow> fit_all index c (entries_of c blobs) \<longleftrightarrow>
     (\<forall>path \<in> fst ` set blobs. path_ok path \<and> length path < 2 ^ 16) \<and> sorted_wrt (<) (map fst blobs)
     \<and> (index = [] \<or> (\<forall>path \<in> fst ` set blobs. be_path (last index) < path))
     \<and> c + length (payload blobs) \<le> MAX_TOTAL_ARCHIVE_BYTES_V1"
proof (induction blobs arbitrary: index c)
  case (Cons b blobs)
  obtain path bytes where b: "b = (path, bytes)" by (cases b)
  let ?e = "\<lparr>be_path = path, be_offset = c, be_length = length bytes\<rparr>"
  show ?case
  proof (cases "entry_fits index c ?e")
    case True
    then have "c + length bytes \<le> MAX_TOTAL_ARCHIVE_BYTES_V1" by (simp add: entry_fits_def)
    from Cons.IH [OF this, of "index @ [?e]"] show ?thesis
      using True by (auto simp: b entry_fits_def add.assoc)
  next
    case False
    then show ?thesis by (auto simp: b entry_fits_def)
  qed
qed simp

lemma encode_index_sound:
  "encode_index blobs index c = Inr (index', c') \<Longrightarrow>
     index' = index @ concat (map record_bytes (entries_of c blobs)) \<and> (\<forall>path \<in> fst ` set blobs. length path < 2 ^ 16)"
proof (induction blobs arbitrary: index c)
  case (Cons b blobs)
  obtain path bytes where b: "b = (path, bytes)" by (cases b)
  have p: "length path < 2 ^ 16"
    and rest: "encode_index blobs (index @ record_bytes \<lparr>be_path = path, be_offset = c, be_length = length bytes\<rparr>)
      (c + length bytes) = Inr (index', c')"
    using Cons.prems by (auto simp: b result_simps u64_of_def be8_def record_bytes_def checked_add_usize_Some split: if_splits)
  show ?case using Cons.IH [OF rest] p by (simp add: b)
qed simp

lemma encode_index_complete:
  "c + length (payload blobs) \<le> usize_max \<Longrightarrow> (\<forall>path \<in> fst ` set blobs. length path < 2 ^ 16) \<Longrightarrow>
     encode_index blobs index c =
       Inr (index @ concat (map record_bytes (entries_of c blobs)), c + length (payload blobs))"
proof (induction blobs arbitrary: index c)
  case (Cons b blobs)
  obtain path bytes where b: "b = (path, bytes)" by (cases b)
  have "u64_of c = Inr (be8 c)" "u64_of (length bytes) = Inr (be8 (length bytes))"
    "checked_add_usize c (length bytes) = Some (c + length bytes)"
    using Cons.prems(1) by (simp_all add: b u64_of_def be8_def checked_add_usize_def usize_max_def)
  moreover have "\<not> length path \<ge> 2 ^ 16" using Cons.prems(2) by (simp add: b)
  moreover have "c + length bytes + length (payload blobs) \<le> usize_max" using Cons.prems(1) by (simp add: b)
  moreover have "\<forall>path \<in> fst ` set blobs. length path < 2 ^ 16" using Cons.prems(2) by simp
  ultimately show ?case
    using Cons.IH [of "c + length bytes"] by (simp add: b record_bytes_def reject_if_def add.assoc)
qed simp

lemma encode_bundle_sound:
  "encode_bundle blobs = Inr b \<Longrightarrow> b = container blobs \<and> (\<forall>path \<in> fst ` set blobs. length path < 2 ^ 16)"
proof -
  assume "encode_bundle blobs = Inr b"
  then obtain i c where i: "encode_index blobs [] 0 = Inr (i, c)"
    and b: "b = BUNDLE_MAGIC_V1 @ be8 (length blobs) @ be8 (length i) @ i @ payload blobs"
    by (auto simp: encode_bundle_def result_simps u64_of_def be8_def split: if_splits)
  show ?thesis using encode_index_sound [OF i] b by (simp add: container_def Let_def)
qed

lemma encode_bundle_complete:
  assumes "length (container blobs) \<le> usize_max" "\<forall>path \<in> fst ` set blobs. length path < 2 ^ 16"
    "length blobs < 2 ^ 64"
  shows "encode_bundle blobs = Inr (container blobs)"
proof -
  let ?i = "concat (map record_bytes (entries_of 0 blobs))"
  have len: "0 + length (payload blobs) \<le> usize_max" "length ?i < 2 ^ 64"
    using assms(1) by (simp_all add: container_def Let_def usize_max_def)
  show ?thesis
    using encode_index_complete [OF len(1) assms(2), of "[]"] len(2) assms(3)
    by (simp add: encode_bundle_def u64_of_def be8_def container_def Let_def)
qed

lemma magic_length [simp]: "length BUNDLE_MAGIC_V1 = 32"
  by (simp add: BUNDLE_MAGIC_V1_def ascii_def)

section \<open>What the reader accepts\<close>

lemma blobs_of_entries:
  assumes "fit_all index c es" "start + c + sum_list (map be_length es) = length bytes"
  shows "entries_of c (map (blob_at \<lparr>bundle_bytes = bytes, bundle_index = ix, bundle_payload_start = start\<rparr>) es) = es
    \<and> payload (map (blob_at \<lparr>bundle_bytes = bytes, bundle_index = ix, bundle_payload_start = start\<rparr>) es) = drop (start + c) bytes"
  using assms
proof (induction es arbitrary: index c)
  case (Cons e es)
  let ?w = "slice bytes (start + c) (start + c + be_length e)"
  have e: "be_offset e = c" using Cons.prems(1) by (simp add: entry_fits_def)
  have len: "length ?w = be_length e" using Cons.prems(2) by (simp add: slice_def)
  have "?w @ drop (start + (c + be_length e)) bytes = drop (start + c) bytes"
    using append_take_drop_id [of "be_length e" "drop (start + c) bytes"] by (simp add: slice_def add.assoc add.commute add.left_commute)
  then show ?case
    using Cons.IH [of "index @ [e]" "c + be_length e"] Cons.prems len e
    by (cases e) (simp add: blob_at_def Let_def add.assoc)
qed simp

lemma entries_blobs:
  assumes "length bytes = start + length (payload pre) + length (payload blobs)"
    and "drop start bytes = payload pre @ payload blobs"
  shows "map (blob_at \<lparr>bundle_bytes = bytes, bundle_index = ix, bundle_payload_start = start\<rparr>)
      (entries_of (length (payload pre)) blobs) = blobs"
  using assms
proof (induction blobs arbitrary: pre)
  case (Cons b blobs)
  obtain path w where b: "b = (path, w)" by (cases b)
  have "drop (start + length (payload pre)) bytes = drop (length (payload pre)) (drop start bytes)"
    by (simp add: add.commute)
  then have "drop (start + length (payload pre)) bytes = w @ payload blobs" unfolding Cons.prems(2) by (simp add: b)
  then have "slice bytes (start + length (payload pre)) (start + length (payload pre) + length w) = w"
    by (simp add: slice_def)
  then have "blob_at \<lparr>bundle_bytes = bytes, bundle_index = ix, bundle_payload_start = start\<rparr>
      \<lparr>be_path = path, be_offset = length (payload pre), be_length = length w\<rparr> = (path, w)"
    by (simp add: blob_at_def Let_def)
  moreover have "map (blob_at \<lparr>bundle_bytes = bytes, bundle_index = ix, bundle_payload_start = start\<rparr>)
      (entries_of (length (payload (pre @ [b]))) blobs) = blobs"
    using Cons.prems by (intro Cons.IH) (simp_all add: b)
  ultimately show ?case by (simp add: b)
qed simp

lemma from_bytes_sound:
  assumes len: "length b \<le> usize_max" and r: "from_bytes b = Inr src"
  obtains es where "fit_all [] 0 es" "length es \<le> MAX_ARCHIVE_BLOBS_V1"
    "length b = 48 + length (concat (map record_bytes es)) + sum_list (map be_length es)"
    "stands_at b 0 (BUNDLE_MAGIC_V1 @ be8 (length es) @ be8 (length (concat (map record_bytes es))) @ concat (map record_bytes es))"
    "src = \<lparr>bundle_bytes = b, bundle_index = es, bundle_payload_start = 48 + length (concat (map record_bytes es))\<rparr>"
proof -
  obtain il es consumed where hd: "48 \<le> length b" "take 32 b = BUNDLE_MAGIC_V1"
    and n: "bundle_read_u64 b 32 = Inr (length es)" "length es \<le> MAX_ARCHIVE_BLOBS_V1"
    and il: "bundle_read_u64 b 40 = Inr il" "48 + il \<le> length b"
    and idx: "parse_index b (48 + il) 48 0 [] = Inr (consumed, es)" "length b - (48 + il) = consumed"
    and src: "src = \<lparr>bundle_bytes = b, bundle_index = es, bundle_payload_start = 48 + il\<rparr>"
    using r
    by (auto simp: from_bytes_def result_simps bundle_read_u64_def BUNDLE_HEADER_BYTES_V1_def checked_add_usize_Some
        split: if_splits) metis
  have es: "fit_all [] 0 es" "consumed = sum_list (map be_length es)" "stands_at b 48 (concat (map record_bytes es))"
    "il = length (concat (map record_bytes es))"
    using idx(1) parse_index_exact [of 48 "48 + il" b 0 "[]" consumed es] il(2) len by auto
  have "stands_at b 0 BUNDLE_MAGIC_V1" using hd by (simp add: stands_at_def)
  moreover have "stands_at b 32 (be8 (length es))" "stands_at b 40 (be8 il)"
    using n(1) il(1) bundle_read_u64_less stands_be8 by blast+
  ultimately have "stands_at b 0 (BUNDLE_MAGIC_V1 @ be8 (length es) @ be8 il @ concat (map record_bytes es))"
    using es(3) by (simp add: stands_at_append)
  moreover have "length b = 48 + il + sum_list (map be_length es)" using idx(2) es(2) il(2) by simp
  ultimately show thesis using that es n(2) src by metis
qed

lemma from_bytes_complete:
  assumes len: "length b \<le> usize_max" and fit: "fit_all [] 0 es" "length es \<le> MAX_ARCHIVE_BLOBS_V1"
    and il: "il = length (concat (map record_bytes es))"
    and b: "length b = 48 + il + sum_list (map be_length es)"
      "stands_at b 0 (BUNDLE_MAGIC_V1 @ be8 (length es) @ be8 il @ concat (map record_bytes es))"
  shows "from_bytes b = Inr \<lparr>bundle_bytes = b, bundle_index = es, bundle_payload_start = 48 + il\<rparr>"
proof -
  have st: "stands_at b 0 BUNDLE_MAGIC_V1" "stands_at b 32 (be8 (length es))" "stands_at b 40 (be8 il)"
    "stands_at b 48 (concat (map record_bytes es))"
    using b(2) by (simp_all add: stands_at_append)
  have small: "length es < 2 ^ 64" "il < 2 ^ 64" "48 + il \<le> length b"
    using fit(2) b(1) len by (simp_all add: MAX_ARCHIVE_BLOBS_V1_def usize_max_def)
  have "parse_index b (48 + il) 48 0 [] = Inr (sum_list (map be_length es), es)"
    using parse_index_exact [of 48 "48 + il" b 0 "[]" "sum_list (map be_length es)" es] small(3) len fit(1) st(4) il by auto
  moreover have "take 32 b = BUNDLE_MAGIC_V1" using st(1) by (simp add: stands_at_def)
  moreover have "bundle_read_u64 b 32 = Inr (length es)" "bundle_read_u64 b 40 = Inr il"
    using st small stands_be8 by simp_all
  moreover obtain v where "read_u64_raw b 32 = Inr v" "unat v = length es"
    using calculation(3) by (auto simp: bundle_read_u64_def result_simps split: if_splits)
  ultimately show ?thesis
    using small(3) len b(1) fit(2)
    by (simp add: from_bytes_def BUNDLE_HEADER_BYTES_V1_def checked_add_usize_def reject_if_def MAX_ARCHIVE_BLOBS_V1_def usize_max_def)
qed

lemma container_length: "length (container blobs) = 48 + length (concat (map record_bytes (entries_of 0 blobs))) + length (payload blobs)"
  by (simp add: container_def Let_def)

lemma bundle_exact:
  assumes len: "length b \<le> usize_max"
  shows "(\<exists>src. from_bytes b = Inr src \<and> map (blob_at src) (bundle_index src) = blobs) \<longleftrightarrow>
    holding_ok blobs \<and> encode_bundle blobs = Inr b"
proof
  assume "\<exists>src. from_bytes b = Inr src \<and> map (blob_at src) (bundle_index src) = blobs"
  then obtain src where src: "from_bytes b = Inr src" "map (blob_at src) (bundle_index src) = blobs" by blast
  obtain es where es: "fit_all [] 0 es" "length es \<le> MAX_ARCHIVE_BLOBS_V1"
    "length b = 48 + length (concat (map record_bytes es)) + sum_list (map be_length es)"
    "stands_at b 0 (BUNDLE_MAGIC_V1 @ be8 (length es) @ be8 (length (concat (map record_bytes es))) @ concat (map record_bytes es))"
    "src = \<lparr>bundle_bytes = b, bundle_index = es, bundle_payload_start = 48 + length (concat (map record_bytes es))\<rparr>"
    using from_bytes_sound [OF len src(1)] .
  let ?i = "concat (map record_bytes es)"
  have cut: "entries_of 0 blobs = es" "payload blobs = drop (48 + length ?i) b"
    using blobs_of_entries [OF es(1), of "48 + length ?i" b es] es(3) src(2) es(5) by auto
  have n: "length blobs = length es" using arg_cong [OF cut(1), of length] by simp
  have fit: "(\<forall>path \<in> fst ` set blobs. path_ok path \<and> length path < 2 ^ 16) \<and> sorted_wrt (<) (map fst blobs)
      \<and> length (payload blobs) \<le> MAX_TOTAL_ARCHIVE_BYTES_V1"
    using fit_all_entries_of [of 0 "[]" blobs] es(1) cut(1) by simp
  have "container blobs = b"
  proof (rule stands_at_whole)
    show "length (container blobs) = length b" using es(3) cut by (simp add: container_length)
    have "stands_at b (48 + length ?i) (payload blobs)" by (simp add: stands_at_def cut(2))
    then show "stands_at b 0 (container blobs)"
      using es(4) by (simp add: container_def Let_def cut(1) n stands_at_append add.assoc)
  qed
  moreover have "encode_bundle blobs = Inr (container blobs)"
    using encode_bundle_complete calculation len fit es(2) n by (simp add: MAX_ARCHIVE_BLOBS_V1_def)
  ultimately show "holding_ok blobs \<and> encode_bundle blobs = Inr b"
    using fit es(2) n by (simp add: holding_ok_def)
next
  assume a: "holding_ok blobs \<and> encode_bundle blobs = Inr b"
  let ?es = "entries_of 0 blobs" and ?i = "concat (map record_bytes (entries_of 0 blobs))"
  have b: "b = container blobs" and short: "\<forall>path \<in> fst ` set blobs. length path < 2 ^ 16"
    using a encode_bundle_sound by auto
  have fit: "fit_all [] 0 ?es" using fit_all_entries_of [of 0 "[]" blobs] a short by (auto simp: holding_ok_def)
  have "stands_at b 0 (BUNDLE_MAGIC_V1 @ be8 (length ?es) @ be8 (length ?i) @ ?i)"
    by (simp add: b container_def Let_def stands_at_def)
  then have src: "from_bytes b = Inr \<lparr>bundle_bytes = b, bundle_index = ?es, bundle_payload_start = 48 + length ?i\<rparr>"
    using a b by (intro from_bytes_complete [OF len fit _ refl]) (simp_all add: holding_ok_def container_length entries_of_lengths)
  have "map (blob_at \<lparr>bundle_bytes = b, bundle_index = ?es, bundle_payload_start = 48 + length ?i\<rparr>) ?es = blobs"
    using entries_blobs [of b "48 + length ?i" "[]" blobs ?es] b by (simp add: container_length) (simp add: container_def Let_def)
  then show "\<exists>src. from_bytes b = Inr src \<and> map (blob_at src) (bundle_index src) = blobs" using src by auto
qed

section \<open>The size of a container\<close>

lemma records_length:
  "\<forall>e \<in> set es. length (be_path e) < 2 ^ 16 \<Longrightarrow> length (concat (map record_bytes es)) \<le> length es * (18 + (2 ^ 16 - 1))"
  by (induction es) auto

lemma entries_of_paths: "\<forall>path \<in> fst ` set blobs. P path \<Longrightarrow> e \<in> set (entries_of c blobs) \<Longrightarrow> P (be_path e)"
  by (induction blobs arbitrary: c) auto

lemma container_bound:
  assumes "\<forall>path \<in> fst ` set blobs. length path < 2 ^ 16" "length blobs \<le> MAX_ARCHIVE_BLOBS_V1"
    "length (payload blobs) \<le> MAX_TOTAL_ARCHIVE_BYTES_V1"
  shows "length (container blobs) \<le> MAX_BUNDLE_FILE_BYTES_V1"
proof -
  have "length (concat (map record_bytes (entries_of 0 blobs))) \<le> length (entries_of 0 blobs) * (18 + (2 ^ 16 - 1))"
    using assms(1) entries_of_paths [of blobs "\<lambda>p. length p < 2 ^ 16"] by (intro records_length) blast
  also have "\<dots> \<le> MAX_ARCHIVE_BLOBS_V1 * (18 + (2 ^ 16 - 1))" using assms(2) by (intro mult_right_mono) simp_all
  finally show ?thesis
    using assms(3) by (simp add: container_length MAX_BUNDLE_FILE_BYTES_V1_def BUNDLE_HEADER_BYTES_V1_def INDEX_RECORD_FIXED_BYTES_def)
qed

lemma max_bundle_usize: "MAX_BUNDLE_FILE_BYTES_V1 < usize_max"
  by (simp add: MAX_BUNDLE_FILE_BYTES_V1_def BUNDLE_HEADER_BYTES_V1_def MAX_ARCHIVE_BLOBS_V1_def
      INDEX_RECORD_FIXED_BYTES_def MAX_TOTAL_ARCHIVE_BYTES_V1_def usize_max_def)

lemma accepted_bound:
  assumes "length b \<le> usize_max" "from_bytes b = Inr src"
  shows "length b \<le> MAX_BUNDLE_FILE_BYTES_V1"
proof -
  let ?blobs = "map (blob_at src) (bundle_index src)"
  have ok: "holding_ok ?blobs" "encode_bundle ?blobs = Inr b" using bundle_exact [OF assms(1)] assms(2) by blast+
  have "b = container ?blobs" "\<forall>path \<in> fst ` set ?blobs. length path < 2 ^ 16" using encode_bundle_sound [OF ok(2)] by auto
  then show ?thesis using container_bound [of ?blobs] ok(1) by (simp add: holding_ok_def)
qed

text \<open>
  C35. The size cap of the host is no rule of the format: it fits in a \<^verbatim>\<open>u64\<close>, no container the reader accepts
  exceeds it, and opening a file refuses by size exactly the larger ones, before their bytes are looked at.
\<close>

theorem open_archive_bundle_cap:
  assumes "length b \<le> usize_max"
  shows "MAX_BUNDLE_FILE_BYTES_V1 < 2 ^ 64
    \<and> (open_archive_bundle (Some (length b)) (Some b) = Inr src \<longleftrightarrow> from_bytes b = Inr src)
    \<and> (length b > MAX_BUNDLE_FILE_BYTES_V1 \<longrightarrow>
         open_archive_bundle (Some (length b)) contents = Inl TotalByteLimit \<and> (\<exists>e. from_bytes b = Inl e))"
proof -
  have big: "\<exists>e. from_bytes b = Inl e" if "length b > MAX_BUNDLE_FILE_BYTES_V1"
    using accepted_bound [OF assms] that by (cases "from_bytes b") auto
  then show ?thesis
    using max_bundle_usize accepted_bound [OF assms]
    by (auto simp: open_archive_bundle_def open_archive_bundle_capped_def reject_if_def usize_max_def)
qed

theorem open_archive_bundle_cap_witness:
  "\<exists>src. open_archive_bundle (Some (length (container []))) (Some (container [])) = Inr src"
proof -
  have len: "length (container []) \<le> usize_max" by (simp add: container_length usize_max_def)
  have "holding_ok []" by (simp add: holding_ok_def)
  moreover have "encode_bundle [] = Inr (container [])" using len by (intro encode_bundle_complete) simp_all
  ultimately obtain src where "from_bytes (container []) = Inr src" using bundle_exact [OF len, of "[]"] by auto
  then show ?thesis using open_archive_bundle_cap [OF len, of src None] by blast
qed

section \<open>The export\<close>

definition entry_wf :: "bundle_index_entry \<Rightarrow> bool" where
  "entry_wf e \<longleftrightarrow> length (be_path e) < 2 ^ 16 \<and> be_offset e < 2 ^ 64 \<and> be_length e < 2 ^ 64"

lemma be8_inject: "m < 2 ^ 64 \<Longrightarrow> n < 2 ^ 64 \<Longrightarrow> be8 m = be8 n \<Longrightarrow> m = n"
proof -
  assume a: "m < 2 ^ 64" "n < 2 ^ 64" "be8 m = be8 n"
  have "from_be_bytes (be8 k) = of_nat k" if "k < 2 ^ 64" for k
    using that by (simp add: be8_def from_to_be_bytes unat_of_nat_u64)
  then have "(of_nat m :: u64) = of_nat n" using a by metis
  then show ?thesis using a(1,2) unat_of_nat_u64 by metis
qed

lemma record_inject:
  assumes "entry_wf e" "entry_wf f" "record_bytes e @ xs = record_bytes f @ ys"
  shows "e = f \<and> xs = ys"
proof -
  let ?w = "\<lambda>e. to_be_bytes 2 (of_nat (length (be_path e))) :: bytes"
  have "?w e = ?w f" using assms(3) by (simp add: record_bytes_def append_eq_append_conv)
  then have n: "length (be_path e) = length (be_path f)"
    using from_two_bytes assms(1,2) by (metis entry_wf_def)
  then have "be_path e = be_path f" "be8 (be_offset e) = be8 (be_offset f)" "be8 (be_length e) = be8 (be_length f)" "xs = ys"
    using assms(3) by (simp_all add: record_bytes_def append_eq_append_conv)
  then show ?thesis using be8_inject assms(1,2) by (cases e; cases f) (auto simp: entry_wf_def)
qed

lemma records_inject:
  "\<forall>e \<in> set es \<union> set fs. entry_wf e \<Longrightarrow> concat (map record_bytes es) = concat (map record_bytes fs) \<Longrightarrow> es = fs"
proof (induction es arbitrary: fs)
  case Nil
  have "record_bytes f \<noteq> []" for f using record_bytes_length [of f] by (metis add_is_0 list.size(3) zero_neq_numeral)
  then show ?case using Nil by (cases fs) auto
next
  case (Cons e es)
  have "record_bytes e \<noteq> []" using record_bytes_length [of e] by (metis add_is_0 list.size(3) zero_neq_numeral)
  then obtain f gs where fs: "fs = f # gs" using Cons.prems(2) by (cases fs) auto
  have "e = f \<and> concat (map record_bytes es) = concat (map record_bytes gs)"
    using Cons.prems by (intro record_inject) (simp_all add: fs)
  then show ?case using Cons.IH [of gs] Cons.prems(1) by (simp add: fs)
qed

lemma entries_of_wf:
  "c + length (payload blobs) < 2 ^ 64 \<Longrightarrow> \<forall>path \<in> fst ` set blobs. length path < 2 ^ 16 \<Longrightarrow>
     e \<in> set (entries_of c blobs) \<Longrightarrow> entry_wf e"
proof (induction blobs arbitrary: c)
  case (Cons b blobs)
  obtain path w where b: "b = (path, w)" by (cases b)
  consider "e = \<lparr>be_path = path, be_offset = c, be_length = length w\<rparr>" | "e \<in> set (entries_of (c + length w) blobs)"
    using Cons.prems(3) by (auto simp: b)
  then show ?case
  proof cases
    case 1 then show ?thesis using Cons.prems(1,2) by (simp add: b entry_wf_def)
  next
    case 2 then show ?thesis using Cons.IH [of "c + length w"] Cons.prems(1,2) by (simp add: b)
  qed
qed simp

lemma fit_all_wf: "fit_all index c es \<Longrightarrow> e \<in> set es \<Longrightarrow> entry_wf e"
  by (induction es arbitrary: index c)
     (auto simp: entry_fits_def entry_wf_def MAX_TOTAL_ARCHIVE_BYTES_V1_def)

lemma stands_at_unique: "stands_at b p u \<Longrightarrow> stands_at b p w \<Longrightarrow> length u = length w \<Longrightarrow> u = w"
  by (metis stands_at_def)

lemma container_read_back:
  assumes short: "\<forall>path \<in> fst ` set blobs. length path < 2 ^ 16" and n: "length blobs \<le> MAX_ARCHIVE_BLOBS_V1"
    and tot: "length (payload blobs) \<le> MAX_TOTAL_ARCHIVE_BYTES_V1" and src: "from_bytes (container blobs) = Inr src"
  shows "map (blob_at src) (bundle_index src) = blobs"
proof -
  let ?b = "container blobs" and ?i = "concat (map record_bytes (entries_of 0 blobs))"
  have len: "length ?b \<le> usize_max" using container_bound [OF short n tot] max_bundle_usize by simp
  obtain es where es: "fit_all [] 0 es"
    "stands_at ?b 0 (BUNDLE_MAGIC_V1 @ be8 (length es) @ be8 (length (concat (map record_bytes es))) @ concat (map record_bytes es))"
    "length es \<le> MAX_ARCHIVE_BLOBS_V1"
    "src = \<lparr>bundle_bytes = ?b, bundle_index = es, bundle_payload_start = 48 + length (concat (map record_bytes es))\<rparr>"
    "length ?b = 48 + length (concat (map record_bytes es)) + sum_list (map be_length es)"
    using from_bytes_sound [OF len src] by metis
  let ?j = "concat (map record_bytes es)"
  have st: "stands_at ?b 0 (BUNDLE_MAGIC_V1 @ be8 (length blobs) @ be8 (length ?i) @ ?i)"
    by (simp add: container_def Let_def stands_at_def)
  have "stands_at ?b 40 (be8 (length ?i))" "stands_at ?b 40 (be8 (length ?j))"
    using st es(2) by (simp_all add: stands_at_append)
  then have "be8 (length ?i) = be8 (length ?j)" by (rule stands_at_unique) simp
  moreover have "length ?i < 2 ^ 64" "length ?j < 2 ^ 64"
    using len es(5) by (simp_all add: container_length usize_max_def)
  ultimately have ij: "length ?i = length ?j" by (intro be8_inject)
  have "stands_at ?b 48 ?i" "stands_at ?b 48 ?j" using st es(2) by (simp_all add: stands_at_append)
  then have "?i = ?j" using ij by (rule stands_at_unique)
  moreover have "\<forall>e \<in> set (entries_of 0 blobs) \<union> set es. entry_wf e"
    using entries_of_wf [of 0 blobs] short tot fit_all_wf [OF es(1)] by (auto simp: MAX_TOTAL_ARCHIVE_BYTES_V1_def)
  ultimately have "es = entries_of 0 blobs" using records_inject by metis
  then show ?thesis
    using entries_blobs [of ?b "48 + length ?i" "[]" blobs es] es(4)
    by (simp add: container_length) (simp add: container_def Let_def)
qed

lemma read_holding_facts:
  "read_holding host paths blobs tot = Inr blobs' \<Longrightarrow> tot = length (payload blobs) \<Longrightarrow>
     tot \<le> MAX_TOTAL_ARCHIVE_BYTES_V1 \<Longrightarrow> length blobs \<le> MAX_ARCHIVE_BLOBS_V1 \<Longrightarrow>
     (\<exists>bs. blobs' = blobs @ bs \<and> map fst bs = paths \<and> (\<forall>(p, w) \<in> set bs. host_read_relative host p = Some w))
     \<and> length blobs' \<le> MAX_ARCHIVE_BLOBS_V1 \<and> length (payload blobs') \<le> MAX_TOTAL_ARCHIVE_BYTES_V1"
proof (induction paths arbitrary: blobs tot)
  case (Cons path paths)
  obtain w where w: "host_read_relative host path = Some w" "tot + length w \<le> MAX_TOTAL_ARCHIVE_BYTES_V1"
    "Suc (length blobs) \<le> MAX_ARCHIVE_BLOBS_V1" "read_holding host paths (blobs @ [(path, w)]) (tot + length w) = Inr blobs'"
    using Cons.prems(1) by (auto simp: result_simps Let_def checked_add_usize_Some not_less)
  obtain bs where "blobs' = (blobs @ [(path, w)]) @ bs" "map fst bs = paths" "\<forall>(p, w) \<in> set bs. host_read_relative host p = Some w"
    "length blobs' \<le> MAX_ARCHIVE_BLOBS_V1" "length (payload blobs') \<le> MAX_TOTAL_ARCHIVE_BYTES_V1"
    using Cons.IH [OF w(4)] w(2,3) Cons.prems(2) by auto
  then show ?case using w(1) by (intro conjI exI [of _ "(path, w) # bs"]) simp_all
qed simp


lemma visit_collect: "visit_blobs src (\<lambda>blob acc. Inr (acc @ [blob])) acc = Inr (acc @ map (blob_at src) (bundle_index src))"
proof -
  have "foldE (\<lambda>entry acc. Inr (acc @ [f entry])) es acc = Inr (acc @ map f es)" for f and es :: "bundle_index_entry list"
    by (induction es arbitrary: acc) simp_all
  then show ?thesis by (simp add: visit_blobs_def)
qed

text \<open>
  C2. The reader accepts a byte string exactly if it is the container the writer makes of a valid holding (valid
  addresses, strictly ascending, within both limits), and then visits exactly the blobs of that holding in order:
  every holding has one container and every container one holding.
\<close>

theorem from_bytes_exact:
  assumes "length b \<le> usize_max"
  shows "(\<exists>src. from_bytes b = Inr src \<and> visit_blobs src (\<lambda>blob acc. Inr (acc @ [blob])) [] = (Inr blobs :: unit + _))
    \<longleftrightarrow> holding_ok blobs \<and> encode_bundle blobs = Inr b"
  unfolding visit_collect using bundle_exact [OF assms] by simp

section \<open>Examples\<close>

definition sample_holding :: "(bytes \<times> bytes) list" where
  "sample_holding = [(ascii ''a/b'', [7]), (ascii ''c'', [])]"

definition sample_host :: bundle_host where
  "sample_host = \<lparr>host_materialized = True, host_relative_paths = Some (map fst sample_holding),
     host_read_relative = map_of sample_holding, host_fully_verified = (\<lambda>_. Some True),
     host_target_in_holding = Some False, host_create_new = Created, host_write_all = (\<lambda>_. True),
     host_sync_all = True, host_sync_parent = True\<rparr>"

lemma sample_holding_ok: "holding_ok sample_holding"
  by (simp add: holding_ok_def sample_holding_def ascii_def path_ok_def validate_bundle_path_def bad_segment_def
      MAX_ARCHIVE_BLOBS_V1_def MAX_TOTAL_ARCHIVE_BYTES_V1_def)

lemma sample_encodes: "length (container sample_holding) \<le> usize_max" "encode_bundle sample_holding = Inr (container sample_holding)"
proof -
  show len: "length (container sample_holding) \<le> usize_max"
    by (simp add: container_length sample_holding_def ascii_def usize_max_def)
  then show "encode_bundle sample_holding = Inr (container sample_holding)"
    by (intro encode_bundle_complete) (simp_all add: sample_holding_def ascii_def)
qed

theorem from_bytes_exact_witness:
  "\<exists>src. from_bytes (container sample_holding) = Inr src
     \<and> visit_blobs src (\<lambda>blob acc. Inr (acc @ [blob])) [] = (Inr sample_holding :: unit + _)"
  using from_bytes_exact [OF sample_encodes(1), of sample_holding] sample_holding_ok sample_encodes(2) by blast


end
