(* ===== verification/EaArchivePath.thy ===== *)
theory EaArchivePath
  imports EaBundle
begin

text \<open>
  Transport addresses of an archive (\<^verbatim>\<open>crates/ea-archive/src/path.rs\<close>, \<^verbatim>\<open>layout.rs\<close>, and the addresses of
  \<^verbatim>\<open>transaction.rs\<close>) and the address check of the local commit store
  (\<^verbatim>\<open>crates/ea-archive-fs/src/sqlcipher_commit.rs\<close>). Addresses are UTF-8 byte strings.
\<close>

section \<open>Addresses\<close>

text \<open>\<^verbatim>\<open>ArchiveBackendError\<close>; a format error is carried by its code.\<close>

datatype backend_error = ByteConflict | AlreadyLocked | NotSameFilesystem | FlushFailed | BackendIo | PathInvalid
  | ProfileNotAllowed | UnprofiledNetworkPath | MissingLocalCommitComponent | ReauthMismatch | MigrationFault
  | PendingPublication | InventoryMismatch | VerificationFailed | AuditFailed | BackendFormat bytes

definition LAYOUT_PATHS_V1 :: "bytes list" where
  "LAYOUT_PATHS_V1 = map ascii [''trust/'', ''trust/organization.etb'', ''trust/registry-events/'',
     ''trust/operator-bindings/'', ''trust/authorizations/'', ''entries/'', ''destroyed-entries/'', ''grants/'',
     ''receipts/'', ''checkpoints/'', ''destructions/'', ''events/'', ''attestations/'', ''format/'',
     ''format/schemas/'', ''format/transformations/'', ''format/compatibility-matrix.json'',
     ''recovery-reports/'', ''README-FORMAT.txt'']"

definition STAGING_SUFFIX_V1 :: bytes where
  "STAGING_SUFFIX_V1 = ascii ''.staging''"

definition AT_REST_PROBE_RELATIVE_V1 :: bytes where
  "AT_REST_PROBE_RELATIVE_V1 = ascii ''.ea-at-rest-probe''"

record archive_path =
  ap_value :: bytes
  ap_directory_length :: nat

text \<open>\<^verbatim>\<open>str::ends_with\<close>, \<^verbatim>\<open>str::strip_prefix\<close> and \<^verbatim>\<open>str::rfind\<close>.\<close>

definition ends_with :: "bytes \<Rightarrow> bytes \<Rightarrow> bool" where
  "ends_with bs suf \<longleftrightarrow> length suf \<le> length bs \<and> drop (length bs - length suf) bs = suf"

definition strip_prefix :: "bytes \<Rightarrow> bytes \<Rightarrow> bytes option" where
  "strip_prefix pre bs = (if take (length pre) bs = pre then Some (drop (length pre) bs) else None)"

definition rfind :: "byte \<Rightarrow> bytes \<Rightarrow> nat option" where
  "rfind b bs = (if b \<in> set bs then Some (length bs - Suc (length (takeWhile (\<lambda>c. c \<noteq> b) (rev bs)))) else None)"

definition validate_relative :: "bytes \<Rightarrow> backend_error + unit" where
  "validate_relative relative =
     bindE (reject_if (relative = [] \<or> hd relative = 0x2F \<or> 0x5C \<in> set relative) PathInvalid) (\<lambda>_.
     reject_if (\<exists>s \<in> set (split_at 0x2F relative). bad_segment s) PathInvalid)"

definition in_dir :: "bytes \<Rightarrow> bytes \<Rightarrow> backend_error + archive_path" where
  "in_dir directory below =
     bindE (reject_if (directory \<notin> set LAYOUT_PATHS_V1 \<or> \<not> ends_with directory [0x2F]) PathInvalid) (\<lambda>_.
     bindE (validate_relative below) (\<lambda>_.
     Inr \<lparr>ap_value = directory @ below, ap_directory_length = length directory\<rparr>))"

definition at_layout_file :: "bytes \<Rightarrow> backend_error + archive_path" where
  "at_layout_file file =
     bindE (reject_if (file \<notin> set LAYOUT_PATHS_V1 \<or> ends_with file [0x2F]) PathInvalid) (\<lambda>_.
     Inr \<lparr>ap_value = file, ap_directory_length = (case rfind 0x2F file of None \<Rightarrow> 0 | Some at \<Rightarrow> at + 1)\<rparr>)"

definition ap_directory :: "archive_path \<Rightarrow> bytes" where
  "ap_directory p = take (ap_directory_length p) (ap_value p)"

definition is_staging_path :: "bytes \<Rightarrow> bool" where
  "is_staging_path relative \<longleftrightarrow> ends_with relative STAGING_SUFFIX_V1"

definition staging_path :: "archive_path \<Rightarrow> backend_error + archive_path" where
  "staging_path target =
     (let directory = ap_directory target; relative = drop (length directory) (ap_value target) in
      bindE (reject_if (directory = []) PathInvalid) (\<lambda>_.
      in_dir directory (relative @ STAGING_SUFFIX_V1)))"

text \<open>The address check of \<^verbatim>\<open>SqliteCommitStore\<close>: the first layout directory that is a prefix decides.\<close>

definition validate_path :: "bytes \<Rightarrow> backend_error + unit" where
  "validate_path relative =
     (if relative = AT_REST_PROBE_RELATIVE_V1 then Inr ()
      else bindE (reject_if (length relative > 4096 \<or> 0 \<in> set relative) PathInvalid) (\<lambda>_.
        case at_layout_file relative of
          Inr _ \<Rightarrow> Inr ()
        | Inl _ \<Rightarrow>
            (case List.map_filter (\<lambda>d. map_option (Pair d) (strip_prefix d relative))
                    (filter (\<lambda>d. ends_with d [0x2F]) LAYOUT_PATHS_V1) of
               (directory, below) # _ \<Rightarrow> bindE (in_dir directory below) (\<lambda>_. Inr ())
             | [] \<Rightarrow> Inl PathInvalid)))"

section \<open>The addresses that exist\<close>

text \<open>The fields of an address are private: every address comes from one of its two constructors.\<close>

definition path_built :: "archive_path \<Rightarrow> bool" where
  "path_built p \<longleftrightarrow> (\<exists>d r. in_dir d r = Inr p) \<or> (\<exists>f. at_layout_file f = Inr p)"

lemma split_at_nonempty [simp]: "split_at sep bs \<noteq> []"
  by (induction bs) (auto split: list.splits)

lemma split_at_join: "split_at sep (xs @ sep # ys) = split_at sep xs @ split_at sep ys"
proof (induction xs)
  case (Cons x xs)
  then show ?case
    by (cases "split_at sep xs") auto
qed simp

lemma validate_relative_Inr:
  "validate_relative r = Inr u \<longleftrightarrow>
     r \<noteq> [] \<and> hd r \<noteq> 0x2F \<and> 0x5C \<notin> set r \<and> (\<forall>s \<in> set (split_at 0x2F r). \<not> bad_segment s)"
  by (auto simp: validate_relative_def result_simps)

lemma validate_relative_cases: "validate_relative r = Inr () \<or> validate_relative r = Inl PathInvalid"
  by (auto simp: validate_relative_def reject_if_def bindE_def)

lemma validate_relative_append:
  assumes "validate_relative r = Inr ()" and "suf \<noteq> []" and "0x2F \<notin> set suf" and "0x5C \<notin> set suf"
    and "\<And>s. \<not> bad_segment s \<Longrightarrow> \<not> bad_segment (s @ suf)"
  shows "validate_relative (r @ suf) = Inr ()"
proof -
  have plain: "split_at 0x2F suf = [suf]" if "0x2F \<notin> set suf" for suf :: bytes
    using that by (induction suf) auto
  have last_grows: "\<exists>ss s. split_at 0x2F r = ss @ [s] \<and> split_at 0x2F (r @ suf) = ss @ [s @ suf]" for r
  proof (induction r)
    case Nil
    then show ?case using plain [OF assms(3)] by simp
  next
    case (Cons b r)
    then obtain ss s where IH: "split_at 0x2F r = ss @ [s]" "split_at 0x2F (r @ suf) = ss @ [s @ suf]"
      by blast
    show ?case
    proof (cases "b = 0x2F")
      case True
      then have "split_at 0x2F (b # r) = ([] # ss) @ [s] \<and> split_at 0x2F (b # r @ suf) = ([] # ss) @ [s @ suf]"
        using IH by simp
      then show ?thesis by (metis append_Cons)
    next
      case False
      then show ?thesis
      proof (cases ss)
        case Nil
        then have "split_at 0x2F (b # r) = [] @ [b # s] \<and> split_at 0x2F (b # r @ suf) = [] @ [(b # s) @ suf]"
          using IH False by simp
        then show ?thesis by (metis append_Cons)
      next
        case (Cons t ts)
        then have "split_at 0x2F (b # r) = ((b # t) # ts) @ [s] \<and> split_at 0x2F (b # r @ suf) = ((b # t) # ts) @ [s @ suf]"
          using IH False by simp
        then show ?thesis by (metis append_Cons)
      qed
    qed
  qed
  obtain ss s where "split_at 0x2F r = ss @ [s]" "split_at 0x2F (r @ suf) = ss @ [s @ suf]"
    using last_grows by blast
  then show ?thesis using assms by (auto simp: validate_relative_Inr)
qed

lemma ends_with_slash: "ends_with d [b] \<longleftrightarrow> d \<noteq> [] \<and> last d = b"
  by (cases d rule: rev_cases) (auto simp: ends_with_def)

lemma ends_with_append [simp]: "ends_with (bs @ suf) suf"
  by (simp add: ends_with_def)

text \<open>What the layout list contributes: no directory of it has a bad segment.\<close>

lemma layout_directories:
  "\<forall>d \<in> set LAYOUT_PATHS_V1. ends_with d [0x2F] \<longrightarrow>
     validate_relative (butlast d) = Inr () \<and> hd d \<noteq> 0x2F \<and> hd d \<noteq> 0x2E \<and> 0 \<notin> set d \<and> length d \<le> 4096"
  by code_simp

lemma layout_files:
  "\<forall>f \<in> set LAYOUT_PATHS_V1. \<not> ends_with f [0x2F] \<longrightarrow>
     validate_relative f = Inr () \<and> f \<noteq> AT_REST_PROBE_RELATIVE_V1 \<and> 0 \<notin> set f \<and> length f \<le> 4096 \<and>
     (case at_layout_file f of
        Inl _ \<Rightarrow> False
      | Inr p \<Rightarrow> ap_value p = f \<and> ap_directory_length p < length f \<and>
          (ap_directory p = [] \<or> ap_directory p \<in> set LAYOUT_PATHS_V1 \<and> ends_with (ap_directory p) [0x2F] \<and>
             validate_relative (drop (ap_directory_length p) f) = Inr ()))"
  by code_simp

lemma empty_segment_bad: "bad_segment []"
  by (simp add: bad_segment_def)

lemma good_segments_nonempty:
  assumes "\<forall>s \<in> set (split_at 0x2F r). \<not> bad_segment s"
  shows "r \<noteq> [] \<and> hd r \<noteq> 0x2F"
proof (cases r)
  case Nil
  then have "[] \<in> set (split_at 0x2F r)" by simp
  then show ?thesis using assms empty_segment_bad by blast
next
  case (Cons b bs)
  have "[] \<in> set (split_at 0x2F r)" if "b = 0x2F" by (simp add: Cons that)
  then show ?thesis using assms empty_segment_bad Cons by force
qed

lemma validate_relative_iff:
  "validate_relative r = Inr () \<longleftrightarrow> 0x5C \<notin> set r \<and> (\<forall>s \<in> set (split_at 0x2F r). \<not> bad_segment s)"
  unfolding validate_relative_Inr using good_segments_nonempty [of r] by blast

lemma directory_below:
  assumes "d \<in> set LAYOUT_PATHS_V1" and "ends_with d [0x2F]"
  shows "validate_relative (d @ r) = Inr () \<longleftrightarrow> validate_relative r = Inr ()"
proof -
  obtain xs where d: "d = xs @ [0x2F]"
    using assms(2) by (metis append_butlast_last_id ends_with_slash)
  have "validate_relative (butlast d) = Inr ()"
    using layout_directories assms by blast
  then have xs: "0x5C \<notin> set xs" "\<forall>s \<in> set (split_at 0x2F xs). \<not> bad_segment s"
    unfolding validate_relative_iff d by simp_all
  have "split_at 0x2F (d @ r) = split_at 0x2F xs @ split_at 0x2F r"
    by (simp add: d split_at_join)
  then show ?thesis
    unfolding validate_relative_iff using xs by (simp add: d ball_Un)
qed

lemma in_dir_Inr:
  "in_dir d r = Inr p \<longleftrightarrow>
     d \<in> set LAYOUT_PATHS_V1 \<and> ends_with d [0x2F] \<and> validate_relative r = Inr () \<and>
     p = \<lparr>ap_value = d @ r, ap_directory_length = length d\<rparr>"
  by (auto simp: in_dir_def result_simps)

lemma at_layout_file_Inr:
  "at_layout_file f = Inr p \<Longrightarrow> f \<in> set LAYOUT_PATHS_V1 \<and> \<not> ends_with f [0x2F]"
  by (auto simp: at_layout_file_def result_simps)

lemma layout_file_path:
  assumes "at_layout_file f = Inr p"
  shows "ap_value p = f" and "ap_directory_length p < length f"
    and "ap_directory p = [] \<or> in_dir (ap_directory p) (drop (ap_directory_length p) f) = Inr p"
proof -
  note f = at_layout_file_Inr [OF assms]
  then show v: "ap_value p = f" and l: "ap_directory_length p < length f"
    using layout_files assms by auto
  have "ap_directory p = [] \<or> ap_directory p \<in> set LAYOUT_PATHS_V1 \<and> ends_with (ap_directory p) [0x2F] \<and>
      validate_relative (drop (ap_directory_length p) f) = Inr ()"
    using layout_files f assms by auto
  then show "ap_directory p = [] \<or> in_dir (ap_directory p) (drop (ap_directory_length p) f) = Inr p"
    unfolding in_dir_Inr using v l by (auto simp: ap_directory_def)
qed

text \<open>An address is below a layout directory, or it is a layout file of the root.\<close>

lemma path_built_cases:
  assumes "path_built p"
  obtains (Below) d r where "in_dir d r = Inr p" and "ap_directory p = d" and "ap_value p = d @ r"
  | (Root) "at_layout_file (ap_value p) = Inr p" and "ap_directory p = []"
proof -
  have below: "ap_directory p = d \<and> ap_value p = d @ r" if "in_dir d r = Inr p" for d r
    using that by (simp add: in_dir_Inr ap_directory_def)
  show ?thesis
  proof (cases "\<exists>d r. in_dir d r = Inr p")
    case True
    then show ?thesis using below that(1) by blast
  next
    case False
    then obtain f where "at_layout_file f = Inr p" using assms by (auto simp: path_built_def)
    then show ?thesis using layout_file_path [of f p] False that(2) by auto
  qed
qed

lemma staging_suffix_good: "\<not> bad_segment (s @ STAGING_SUFFIX_V1)"
  by (cases s; cases "tl s") (simp_all add: bad_segment_def STAGING_SUFFIX_V1_def ascii_def)

lemma staging_relative:
  "validate_relative r = Inr () \<Longrightarrow> validate_relative (r @ STAGING_SUFFIX_V1) = Inr ()"
  by (rule validate_relative_append) (simp_all add: staging_suffix_good, simp_all add: STAGING_SUFFIX_V1_def ascii_def)

lemma staging_path_eq:
  assumes "path_built p"
  shows "staging_path p =
     (if ap_directory p = [] then Inl PathInvalid
      else Inr \<lparr>ap_value = ap_value p @ STAGING_SUFFIX_V1, ap_directory_length = ap_directory_length p\<rparr>)"
  using assms
proof (cases rule: path_built_cases)
  case (Below d r)
  then have "in_dir d (r @ STAGING_SUFFIX_V1) =
      Inr \<lparr>ap_value = ap_value p @ STAGING_SUFFIX_V1, ap_directory_length = ap_directory_length p\<rparr>"
    unfolding in_dir_Inr by (auto intro: staging_relative)
  moreover have "d \<noteq> []" using Below by (auto simp: in_dir_Inr ends_with_slash)
  ultimately show ?thesis using Below by (simp add: staging_path_def)
next
  case Root
  then show ?thesis by (simp add: staging_path_def)
qed

lemma path_built_facts:
  assumes "path_built p"
  shows "validate_relative (ap_value p) = Inr () \<and> ap_value p \<noteq> AT_REST_PROBE_RELATIVE_V1 \<and>
    ap_directory_length p < length (ap_value p) \<and>
    (ap_directory p = [] \<or> ap_directory p \<in> set LAYOUT_PATHS_V1 \<and> ends_with (ap_directory p) [0x2F])"
  using assms
proof (cases rule: path_built_cases)
  case (Below d r)
  note d = Below(1) [unfolded in_dir_Inr]
  then have "hd d \<noteq> 0x2E" and "d \<noteq> []" and "r \<noteq> []"
    using layout_directories by (auto simp: ends_with_slash validate_relative_Inr)
  moreover have "hd AT_REST_PROBE_RELATIVE_V1 = 0x2E"
    by (simp add: AT_REST_PROBE_RELATIVE_V1_def ascii_def)
  ultimately have "d @ r \<noteq> AT_REST_PROBE_RELATIVE_V1"
    by (metis hd_append2)
  then show ?thesis
    using d Below \<open>r \<noteq> []\<close> directory_below [of d r] by simp
next
  case Root
  note f = at_layout_file_Inr [OF Root(1)]
  then have "validate_relative (ap_value p) = Inr ()" "ap_value p \<noteq> AT_REST_PROBE_RELATIVE_V1"
    using layout_files by blast+
  then show ?thesis
    using Root layout_file_path(2) [OF Root(1)] by simp
qed

lemma path_built_value:
  assumes "path_built p"
  shows "validate_relative (ap_value p) = Inr ()" and "ap_value p \<noteq> AT_REST_PROBE_RELATIVE_V1"
    and "ap_directory_length p < length (ap_value p)"
    and "ap_directory p = [] \<or> ap_directory p \<in> set LAYOUT_PATHS_V1 \<and> ends_with (ap_directory p) [0x2F]"
  using path_built_facts [OF assms] by blast+

section \<open>The check of the commit store\<close>

lemma strip_prefix_Some: "strip_prefix pre bs = Some r \<longleftrightarrow> bs = pre @ r"
  by (auto simp: strip_prefix_def) (metis append_take_drop_id)

lemma map_filter_nonempty: "List.map_filter f xs \<noteq> [] \<longleftrightarrow> (\<exists>x \<in> set xs. f x \<noteq> None)"
  by (induction xs) (auto simp: List.map_filter_simps split: option.splits)

lemma map_filter_hd: "List.map_filter f xs = y # ys \<Longrightarrow> \<exists>x \<in> set xs. f x = Some y"
  by (induction xs) (auto simp: List.map_filter_simps split: option.splits)

lemma validate_path_sound:
  assumes "validate_path r = Inr ()" and "r \<noteq> AT_REST_PROBE_RELATIVE_V1"
  shows "length r \<le> 4096 \<and> 0 \<notin> set r \<and> (\<exists>p. path_built p \<and> ap_value p = r)"
proof -
  have len: "length r \<le> 4096" "0 \<notin> set r"
    using assms by (auto simp: validate_path_def result_simps)
  have "\<exists>p. path_built p \<and> ap_value p = r"
  proof (cases "at_layout_file r")
    case (Inr p)
    then show ?thesis using layout_file_path(1) path_built_def by blast
  next
    case (Inl e)
    let ?dirs = "List.map_filter (\<lambda>d. map_option (Pair d) (strip_prefix d r)) (filter (\<lambda>d. ends_with d [0x2F]) LAYOUT_PATHS_V1)"
    obtain d s rest where dirs: "?dirs = (d, s) # rest" and ok: "bindE (in_dir d s) (\<lambda>_. Inr ()) = Inr ()"
      using assms len Inl by (auto simp: validate_path_def split: list.splits)
    obtain p where p: "in_dir d s = Inr p" using ok by (auto simp: result_simps)
    have "strip_prefix d r = Some s" using map_filter_hd [OF dirs] by auto
    then have "ap_value p = r" using p by (simp add: in_dir_Inr strip_prefix_Some)
    then show ?thesis using p path_built_def by blast
  qed
  then show ?thesis using len by blast
qed

lemma validate_path_complete:
  assumes "path_built p" and "length (ap_value p) \<le> 4096" and "0 \<notin> set (ap_value p)"
  shows "validate_path (ap_value p) = Inr ()"
proof (cases "at_layout_file (ap_value p)")
  case (Inr q)
  then show ?thesis using assms by (simp add: validate_path_def)
next
  case (Inl e)
  let ?dirs = "List.map_filter (\<lambda>d. map_option (Pair d) (strip_prefix d (ap_value p))) (filter (\<lambda>d. ends_with d [0x2F]) LAYOUT_PATHS_V1)"
  obtain d r where below: "in_dir d r = Inr p" "ap_value p = d @ r"
    using assms(1) Inl by (cases rule: path_built_cases) auto
  then have "d \<in> set LAYOUT_PATHS_V1" and "ends_with d [0x2F]" and "strip_prefix d (ap_value p) = Some r"
    by (simp_all add: in_dir_Inr strip_prefix_Some)
  then have "?dirs \<noteq> []" unfolding map_filter_nonempty by auto
  then obtain d' r' rest where dirs: "?dirs = (d', r') # rest" by (cases ?dirs) auto
  have d': "d' \<in> set LAYOUT_PATHS_V1" "ends_with d' [0x2F]" "ap_value p = d' @ r'"
    using map_filter_hd [OF dirs] by (auto simp: strip_prefix_Some)
  then have "validate_relative r' = Inr ()"
    using directory_below [of d' r'] path_built_value(1) [OF assms(1)] by simp
  then have "\<exists>q. in_dir d' r' = Inr q" using d' by (simp add: in_dir_Inr)
  then show ?thesis using assms Inl dirs by (auto simp: validate_path_def)
qed


lemma sample_path: "path_built \<lparr>ap_value = ascii ''entries/1.eip'', ap_directory_length = 8\<rparr>"
  unfolding path_built_def
  by (rule disjI1, rule exI [of _ "ascii ''entries/''"], rule exI [of _ "ascii ''1.eip''"]) code_simp


end
