(* ===== verification/EaArchiveTx.thy ===== *)
theory EaArchiveTx
  imports EaArchivePath
begin

text \<open>
  The archive transaction (\<^verbatim>\<open>crates/ea-archive/src/transaction.rs\<close>) over the port \<^verbatim>\<open>ArchiveBackend\<close>
  (\<^verbatim>\<open>backend.rs\<close>), and the contract of that port as a locale. The state of a backend is a type of its own; an
  operation returns its result and the state it leaves behind, on errors too.
\<close>

section \<open>Operations on a state\<close>

type_synonym ('s, 'a) io = "'s \<Rightarrow> (backend_error + 'a) \<times> 's"

definition bindS :: "('s, 'a) io \<Rightarrow> ('a \<Rightarrow> ('s, 'b) io) \<Rightarrow> ('s, 'b) io" where
  "bindS m f s = (case m s of (Inl e, s') \<Rightarrow> (Inl e, s') | (Inr x, s') \<Rightarrow> f x s')"

definition liftS :: "backend_error + 'a \<Rightarrow> ('s, 'a) io" where
  "liftS r s = (r, s)"

fun forS :: "('a \<Rightarrow> ('s, unit) io) \<Rightarrow> 'a list \<Rightarrow> ('s, unit) io" where
  "forS f [] s = (Inr (), s)"
| "forS f (x # xs) s = bindS (f x) (\<lambda>_. forS f xs) s"

fun mapE :: "('a \<Rightarrow> 'e + 'b) \<Rightarrow> 'a list \<Rightarrow> 'e + 'b list" where
  "mapE f [] = Inr []"
| "mapE f (x # xs) = bindE (f x) (\<lambda>y. bindE (mapE f xs) (\<lambda>ys. Inr (y # ys)))"

lemma bindS_eq:
  "bindS m f s = (r, s'') \<longleftrightarrow>
     (\<exists>e. m s = (Inl e, s'') \<and> r = Inl e) \<or> (\<exists>x s'. m s = (Inr x, s') \<and> f x s' = (r, s''))"
  by (auto simp: bindS_def split: prod.splits sum.splits)

lemma liftS_eq [simp]: "liftS r s = (r', s') \<longleftrightarrow> r' = r \<and> s' = s"
  by (auto simp: liftS_def)

text \<open>A loop that keeps a relation between its first state and every later one.\<close>

lemma forS_keeps:
  assumes "forS f xs s = (r, s')" and "I s"
    and "\<And>x s r s'. x \<in> set xs \<Longrightarrow> I s \<Longrightarrow> f x s = (r, s') \<Longrightarrow> I s'"
  shows "I s'"
  using assms by (induction xs arbitrary: s) (auto simp: bindS_eq, blast+)

lemma forS_all:
  assumes "forS f xs s = (Inr u, s')" and "I s"
    and keeps: "\<And>x s r s'. x \<in> set xs \<Longrightarrow> I s \<Longrightarrow> f x s = (r, s') \<Longrightarrow> I s'"
    and does: "\<And>x s s'. x \<in> set xs \<Longrightarrow> I s \<Longrightarrow> f x s = (Inr (), s') \<Longrightarrow> Q x s'"
    and stays: "\<And>x y s r s'. x \<in> set xs \<Longrightarrow> I s \<Longrightarrow> Q y s \<Longrightarrow> f x s = (r, s') \<Longrightarrow> Q y s'"
  shows "\<forall>x \<in> set xs. Q x s'"
proof -
  have stay: "Q y s'" if "forS f ys s = (Inr u, s')" "Q y s" "I s" "set ys \<subseteq> set xs" for y ys s
    using that
  proof (induction ys arbitrary: s)
    case (Cons z ys)
    then obtain s1 where s1: "f z s = (Inr (), s1)" "forS f ys s1 = (Inr u, s')"
      by (auto simp: bindS_eq)
    have z: "z \<in> set xs" using Cons.prems(4) by simp
    show ?case
      using Cons.IH [OF s1(2) stays [OF z Cons.prems(3,2) s1(1)] keeps [OF z Cons.prems(3) s1(1)]] Cons.prems(4)
      by simp
  qed simp
  have "\<forall>x \<in> set ys. Q x s'" if "forS f ys s = (Inr u, s')" "I s" "set ys \<subseteq> set xs" for ys s
    using that
  proof (induction ys arbitrary: s)
    case (Cons z ys)
    then obtain s1 where s1: "f z s = (Inr (), s1)" "forS f ys s1 = (Inr u, s')"
      by (auto simp: bindS_eq)
    have z: "z \<in> set xs" using Cons.prems(3) by simp
    have I: "I s1" by (rule keeps [OF z Cons.prems(2) s1(1)])
    have "Q z s'"
      using stay [OF s1(2) does [OF z Cons.prems(2) s1(1)] I] Cons.prems(3) by simp
    then show ?case using Cons.IH [OF s1(2) I] Cons.prems(3) by simp
  qed simp
  then show ?thesis using assms(1,2) by blast
qed

lemma mapE_Inr: "mapE f xs = Inr ys \<longleftrightarrow> length ys = length xs \<and> (\<forall>(x, y) \<in> set (zip xs ys). f x = Inr y)"
proof (induction xs arbitrary: ys)
  case Nil
  then show ?case by auto
next
  case (Cons x xs)
  then show ?case by (cases ys) (auto simp: result_simps)
qed

section \<open>The transaction\<close>

datatype staged_bytes = Object bytes | NonObject bytes

record staged_object =
  so_target :: archive_path
  so_bytes :: staged_bytes

text \<open>The operations of \<^verbatim>\<open>&dyn ArchiveBackend\<close> the transaction calls.\<close>

record 's backend_port =
  create_if_absent :: "archive_path \<Rightarrow> bytes \<Rightarrow> ('s, unit) io"
  create_non_object_if_absent :: "archive_path \<Rightarrow> bytes \<Rightarrow> ('s, unit) io"
  sync_file :: "archive_path \<Rightarrow> ('s, unit) io"
  sync_directory :: "archive_path \<Rightarrow> ('s, unit) io"
  atomic_rename_same_fs :: "archive_path \<Rightarrow> archive_path \<Rightarrow> ('s, unit) io"

definition tx_new :: "staged_object list" where
  "tx_new = []"

definition tx_plan :: "staged_object \<Rightarrow> staged_object list \<Rightarrow> staged_object list" where
  "tx_plan object planned = planned @ [object]"

definition create_staged :: "'s backend_port \<Rightarrow> staged_object \<times> archive_path \<Rightarrow> ('s, unit) io" where
  "create_staged backend os =
     (case so_bytes (fst os) of
        Object bs \<Rightarrow> create_if_absent backend (snd os) bs
      | NonObject bs \<Rightarrow> create_non_object_if_absent backend (snd os) bs)"

definition publish_staged :: "'s backend_port \<Rightarrow> staged_object \<times> archive_path \<Rightarrow> ('s, unit) io" where
  "publish_staged backend os = atomic_rename_same_fs backend (snd os) (so_target (fst os))"

definition tx_commit :: "'s backend_port \<Rightarrow> staged_object list \<Rightarrow> ('s, unit) io" where
  "tx_commit backend planned =
     bindS (liftS (mapE (\<lambda>ob. staging_path (so_target ob)) planned)) (\<lambda>staged.
     bindS (forS (create_staged backend) (zip planned staged)) (\<lambda>_.
     bindS (forS (sync_file backend) staged) (\<lambda>_.
     bindS (forS (sync_directory backend) staged) (\<lambda>_.
     bindS (forS (publish_staged backend) (zip planned staged)) (\<lambda>_.
     forS (\<lambda>ob. sync_directory backend (so_target ob)) planned)))))"

section \<open>What a transaction promises\<close>

definition target_value :: "staged_object \<Rightarrow> bytes" where
  "target_value ob = ap_value (so_target ob)"

fun bytes_of :: "staged_bytes \<Rightarrow> bytes" where
  "bytes_of (Object bs) = bs"
| "bytes_of (NonObject bs) = bs"

abbreviation planned_bytes :: "staged_object \<Rightarrow> bytes" where
  "planned_bytes ob \<equiv> bytes_of (so_bytes ob)"

text \<open>The contents after some planned objects were published in addition to \<open>f\<close>.\<close>

fun published :: "staged_object list \<Rightarrow> (bytes \<Rightarrow> bytes option) \<Rightarrow> bytes \<Rightarrow> bytes option" where
  "published [] f a = f a"
| "published (ob # obs) f a = (if target_value ob = a then Some (planned_bytes ob) else published obs f a)"

text \<open>The directory that really holds an address: everything up to its last separator.\<close>

definition parent_dir :: "bytes \<Rightarrow> bytes" where
  "parent_dir a = (case rfind 0x2F a of None \<Rightarrow> [] | Some at \<Rightarrow> take (at + 1) a)"

text \<open>
  The effect of publishing some objects: they are visible under their targets with exactly their planned bytes, nothing
  was overwritten, what became visible was flushed first, and no other published address changed.
\<close>

definition publishes ::
    "('s \<Rightarrow> bytes \<Rightarrow> bytes option) \<Rightarrow> ('s \<Rightarrow> bytes \<Rightarrow> bool) \<Rightarrow> staged_object list \<Rightarrow> 's \<Rightarrow> 's \<Rightarrow> bool" where
  "publishes files durable obs s s' \<longleftrightarrow>
     (\<forall>a. \<not> is_staging_path a \<longrightarrow> files s' a = published obs (files s) a) \<and>
     (\<forall>ob \<in> set obs. files s (target_value ob) = None \<or> files s (target_value ob) = Some (planned_bytes ob)) \<and>
     (\<forall>ob \<in> set obs. files s (target_value ob) = None \<longrightarrow> durable s' (target_value ob)) \<and>
     (\<forall>a. \<not> is_staging_path a \<longrightarrow> files s a \<noteq> None \<longrightarrow> durable s a \<longrightarrow> durable s' a)"

text \<open>
  What a commit may leave behind: the first \<open>k\<close> planned objects are published, in the order of the plan; after a
  success all are, no staging address of the plan is left, and the names of targets that lie directly in their
  directory are flushed.
\<close>

definition commit_outcome ::
    "('s \<Rightarrow> bytes \<Rightarrow> bytes option) \<Rightarrow> ('s \<Rightarrow> bytes \<Rightarrow> bool) \<Rightarrow> ('s \<Rightarrow> bytes \<Rightarrow> bool) \<Rightarrow> staged_object list \<Rightarrow>
       's \<Rightarrow> backend_error + unit \<Rightarrow> 's \<Rightarrow> bool" where
  "commit_outcome files durable named planned s r s' \<longleftrightarrow>
     (\<exists>k \<le> length planned.
        publishes files durable (take k planned) s s' \<and>
        (r = Inr () \<longrightarrow> k = length planned \<and>
           (\<forall>ob \<in> set planned. files s' (target_value ob @ STAGING_SUFFIX_V1) = None \<and>
              (parent_dir (target_value ob) = ap_directory (so_target ob) \<longrightarrow> named s' (target_value ob)))))"

lemma published_cong: "f a = g a \<Longrightarrow> published obs f a = published obs g a"
  by (induction obs) auto

lemma published_cases:
  "published obs f a = f a \<or> (\<exists>ob \<in> set obs. target_value ob = a \<and> published obs f a = Some (planned_bytes ob))"
  by (induction obs) auto

section \<open>The contract of a backend\<close>

text \<open>A rename that took place: never over other bytes, and what was flushed stays flushed.\<close>

definition moved ::
    "('s \<Rightarrow> bytes \<Rightarrow> bytes option) \<Rightarrow> ('s \<Rightarrow> bytes \<Rightarrow> bool) \<Rightarrow> bytes \<Rightarrow> bytes \<Rightarrow> 's \<Rightarrow> 's \<Rightarrow> bool" where
  "moved files durable a b s s' \<longleftrightarrow>
     (\<exists>bs. files s a = Some bs \<and> (files s b = None \<or> files s b = Some bs) \<and>
        files s' = (files s)(a := None, b := Some bs) \<and>
        (files s b = None \<longrightarrow> durable s a \<longrightarrow> durable s' b) \<and>
        (\<forall>c. c \<noteq> a \<longrightarrow> files s c \<noteq> None \<longrightarrow> durable s c \<longrightarrow> durable s' c))"

lemma published_present: "ob \<in> set obs \<Longrightarrow> published obs f (target_value ob) \<noteq> None"
  by (induction obs) auto

lemma publishes_Nil:
  "(\<And>a. \<not> is_staging_path a \<Longrightarrow> files s' a = files s a \<and> (durable s a \<longrightarrow> durable s' a)) \<Longrightarrow> publishes files durable [] s s'"
  by (simp add: publishes_def)

lemma publishes_cong:
  assumes "publishes files durable obs s s1" and "files s1 = files s2" and "\<forall>a. durable s1 a \<longrightarrow> durable s2 a"
    and "\<And>a. \<not> is_staging_path a \<Longrightarrow> files s a = files s0 a \<and> (durable s0 a \<longrightarrow> durable s a)"
    and "\<forall>ob \<in> set obs. \<not> is_staging_path (target_value ob)"
  shows "publishes files durable obs s0 s2"
proof -
  have "published obs (files s) a = published obs (files s0) a" if "\<not> is_staging_path a" for a
    using assms(4) [OF that] by (intro published_cong) simp
  then show ?thesis using assms unfolding publishes_def by auto
qed

lemma publishes_Cons:
  assumes m: "moved files durable st (target_value ob) s s1" and st: "is_staging_path st"
    and staged: "files s st = Some (planned_bytes ob)" "durable s st"
    and rest: "publishes files durable obs s1 s'" and ob: "\<not> is_staging_path (target_value ob)"
    and obs: "\<forall>ob \<in> set obs. \<not> is_staging_path (target_value ob)"
  shows "publishes files durable (ob # obs) s s'"
proof -
  let ?t = "target_value ob" and ?b = "planned_bytes ob"
  have free: "files s ?t = None \<or> files s ?t = Some ?b"
    and f1: "files s1 = (files s)(st := None, ?t := Some ?b)"
    and new: "files s ?t = None \<Longrightarrow> durable s1 ?t"
    and kept: "\<And>c. c \<noteq> st \<Longrightarrow> files s c \<noteq> None \<Longrightarrow> durable s c \<Longrightarrow> durable s1 c"
    using m staged by (auto simp: moved_def)
  note r = rest [unfolded publishes_def]
  have f1': "files s1 a = (if a = ?t then Some ?b else files s a)" if "\<not> is_staging_path a" for a
    using f1 st that by auto
  have same: "planned_bytes o' = ?b" if "o' \<in> set obs" "target_value o' = ?t" for o'
    using r that f1' [OF ob] by fastforce
  have visible: "files s' a = published (ob # obs) (files s) a" if a: "\<not> is_staging_path a" for a
  proof (cases "?t = a")
    case True
    then have "files s1 a = Some ?b" using f1' [OF a] by simp
    then have "published obs (files s1) a = Some ?b"
      using published_cases [of obs "files s1" a] same True by auto
    then show ?thesis using r a True by simp
  next
    case False
    then have "published obs (files s1) a = published obs (files s) a"
      using f1' [OF a] by (intro published_cong) simp
    then show ?thesis using r a False by simp
  qed
  have first: "durable s' ?t" if "files s ?t = None"
    using r ob new [OF that] f1' [OF ob] by simp
  have later: "(files s (target_value o') = None \<or> files s (target_value o') = Some (planned_bytes o')) \<and>
      (files s (target_value o') = None \<longrightarrow> durable s' (target_value o'))" if o': "o' \<in> set obs" for o'
  proof (cases "target_value o' = ?t")
    case True
    then show ?thesis using free first same [OF o'] by simp
  next
    case False
    then have "files s1 (target_value o') = files s (target_value o')" using f1' obs o' by simp
    then show ?thesis using r o' by metis
  qed
  have stays: "durable s' a" if a: "\<not> is_staging_path a" "files s a \<noteq> None" "durable s a" for a
  proof -
    have "a \<noteq> st" using a(1) st by blast
    then have "durable s1 a" using kept a by blast
    moreover have "files s1 a \<noteq> None" using f1' [OF a(1)] a(2) by simp
    ultimately show ?thesis using r a(1) by blast
  qed
  show ?thesis
    unfolding publishes_def using visible free first later stays by auto
qed

text \<open>Planned objects with their staging addresses, as the first stage pairs them.\<close>

definition staging_pairs :: "(staged_object \<times> archive_path) list \<Rightarrow> bool" where
  "staging_pairs pairs \<longleftrightarrow>
     (\<forall>(ob, st) \<in> set pairs. path_built (so_target ob) \<and> path_built st \<and>
        ap_value st = target_value ob @ STAGING_SUFFIX_V1 \<and> \<not> is_staging_path (target_value ob))"

lemma staging_pairsD:
  assumes "staging_pairs pairs" and "(ob, st) \<in> set pairs"
  shows "path_built (so_target ob)" and "path_built st" and "ap_value st = target_value ob @ STAGING_SUFFIX_V1"
    and "\<not> is_staging_path (target_value ob)" and "is_staging_path (ap_value st)" and "ap_value st \<noteq> target_value ob"
proof -
  note facts = assms(1) [unfolded staging_pairs_def, rule_format, OF assms(2), unfolded prod.case]
  then show "path_built (so_target ob)" and "path_built st" and v: "ap_value st = target_value ob @ STAGING_SUFFIX_V1"
    and n: "\<not> is_staging_path (target_value ob)"
    by blast+
  show i: "is_staging_path (ap_value st)" unfolding v is_staging_path_def by simp
  show "ap_value st \<noteq> target_value ob" using n i by auto
qed

lemma staging_pairs_zip:
  assumes "mapE (\<lambda>ob. staging_path (so_target ob)) planned = Inr staged"
    and "\<forall>ob \<in> set planned. path_built (so_target ob) \<and> \<not> is_staging_path (target_value ob)"
  shows "staging_pairs (zip planned staged)" and "length staged = length planned"
proof -
  note m = assms(1) [unfolded mapE_Inr]
  then show "length staged = length planned" by simp
  have "path_built st \<and> ap_value st = target_value ob @ STAGING_SUFFIX_V1" if "(ob, st) \<in> set (zip planned staged)" for ob st
  proof -
    have ob: "path_built (so_target ob)" using assms(2) that by (meson set_zip_leftD)
    have st: "staging_path (so_target ob) = Inr st" using m that by auto
    then have "path_built st" by (auto simp: staging_path_def Let_def path_built_def result_simps)
    then show ?thesis using st staging_path_eq [OF ob] by (auto simp: target_value_def split: if_splits)
  qed
  then show "staging_pairs (zip planned staged)"
    unfolding staging_pairs_def using assms(2) by (auto dest: set_zip_leftD)
qed

text \<open>The staging addresses of a plan hold its bytes, flushed, as far as they are still there.\<close>

definition staged_ok ::
    "('s \<Rightarrow> bytes \<Rightarrow> bytes option) \<Rightarrow> ('s \<Rightarrow> bytes \<Rightarrow> bool) \<Rightarrow> (staged_object \<times> archive_path) list \<Rightarrow> 's \<Rightarrow> bool" where
  "staged_ok files durable pairs s \<longleftrightarrow>
     (\<forall>x \<in> set pairs. files s (ap_value (snd x)) \<noteq> None \<longrightarrow>
        files s (ap_value (snd x)) = Some (planned_bytes (fst x)) \<and> durable s (ap_value (snd x)))"

lemma moved_staging:
  assumes "moved files durable st t s s1" and "\<not> is_staging_path t" and "is_staging_path a"
  shows "files s1 a = (if a = st then None else files s a)"
  using assms by (auto simp: moved_def)

lemma moved_staged_ok:
  assumes m: "moved files durable st t s s1" and t: "\<not> is_staging_path t"
    and "staging_pairs pairs" and ok: "staged_ok files durable pairs s"
  shows "staged_ok files durable pairs s1"
  unfolding staged_ok_def
proof (intro ballI impI)
  fix x
  assume x: "x \<in> set pairs" and present: "files s1 (ap_value (snd x)) \<noteq> None"
  have "is_staging_path (ap_value (snd x))"
    using staging_pairsD(5) [OF assms(3), of "fst x" "snd x"] x by simp
  note a = moved_staging [OF m t this]
  have ne: "ap_value (snd x) \<noteq> st" and same: "files s1 (ap_value (snd x)) = files s (ap_value (snd x))"
    using a present by (auto split: if_splits)
  then have "files s (ap_value (snd x)) = Some (planned_bytes (fst x)) \<and> durable s (ap_value (snd x))"
    using ok x present by (simp add: staged_ok_def)
  then show "files s1 (ap_value (snd x)) = Some (planned_bytes (fst x)) \<and> durable s1 (ap_value (snd x))"
    using m ne same by (auto simp: moved_def)
qed

locale archive_backend =
  fixes backend :: "'s backend_port"
    and files :: "'s \<Rightarrow> bytes \<Rightarrow> bytes option"
    and durable :: "'s \<Rightarrow> bytes \<Rightarrow> bool"
    and named :: "'s \<Rightarrow> bytes \<Rightarrow> bool"
    and ready :: "'s \<Rightarrow> bool"
  assumes create_ready: "path_built p \<Longrightarrow> ready s \<Longrightarrow> create_if_absent backend p bs s = (r, s') \<Longrightarrow> ready s'"
    and create_done: "path_built p \<Longrightarrow> ready s \<Longrightarrow> create_if_absent backend p bs s = (Inr (), s') \<Longrightarrow>
      (files s (ap_value p) = None \<or> files s (ap_value p) = Some bs) \<and> files s' (ap_value p) = Some bs"
    and create_frame: "path_built p \<Longrightarrow> ready s \<Longrightarrow> create_if_absent backend p bs s = (r, s') \<Longrightarrow>
      a \<noteq> ap_value p \<or> files s a \<noteq> None \<Longrightarrow> files s' a = files s a \<and> (durable s a \<longrightarrow> durable s' a)"
    and create_same: "create_non_object_if_absent backend = create_if_absent backend"
    and sync_file_frame: "path_built p \<Longrightarrow> ready s \<Longrightarrow> sync_file backend p s = (r, s') \<Longrightarrow>
      ready s' \<and> files s' = files s \<and> (durable s a \<longrightarrow> durable s' a)"
    and sync_file_done: "path_built p \<Longrightarrow> ready s \<Longrightarrow> sync_file backend p s = (Inr (), s') \<Longrightarrow> durable s' (ap_value p)"
    and sync_directory_frame: "path_built p \<Longrightarrow> ready s \<Longrightarrow> sync_directory backend p s = (r, s') \<Longrightarrow>
      ready s' \<and> files s' = files s \<and> (durable s a \<longrightarrow> durable s' a) \<and> (named s a \<longrightarrow> named s' a)"
    and sync_directory_done: "path_built p \<Longrightarrow> ready s \<Longrightarrow> sync_directory backend p s = (Inr (), s') \<Longrightarrow>
      files s a \<noteq> None \<Longrightarrow> parent_dir a = ap_directory p \<Longrightarrow> named s' a"
    and rename_ready: "path_built p \<Longrightarrow> path_built q \<Longrightarrow> ap_value p \<noteq> ap_value q \<Longrightarrow> ready s \<Longrightarrow>
      atomic_rename_same_fs backend p q s = (r, s') \<Longrightarrow> ready s'"
    and rename_done: "path_built p \<Longrightarrow> path_built q \<Longrightarrow> ap_value p \<noteq> ap_value q \<Longrightarrow> ready s \<Longrightarrow>
      atomic_rename_same_fs backend p q s = (Inr (), s') \<Longrightarrow> moved files durable (ap_value p) (ap_value q) s s'"
    and rename_failed: "path_built p \<Longrightarrow> path_built q \<Longrightarrow> ap_value p \<noteq> ap_value q \<Longrightarrow> ready s \<Longrightarrow>
      atomic_rename_same_fs backend p q s = (Inl e, s') \<Longrightarrow>
      files s' = files s \<and> (\<forall>a. durable s a \<longrightarrow> durable s' a) \<or> moved files durable (ap_value p) (ap_value q) s s'"
begin

lemma create_staged_eq: "create_staged backend (ob, st) = create_if_absent backend st (planned_bytes ob)"
  by (cases "so_bytes ob") (simp_all add: create_staged_def create_same)

text \<open>Stage 1: only staging addresses change, and each ends up with its planned bytes.\<close>

lemma creates_frame:
  assumes "forS (create_staged backend) pairs s = (r, s')" and "staging_pairs pairs" and "ready s"
  shows "ready s' \<and> (\<forall>a. \<not> is_staging_path a \<longrightarrow> files s' a = files s a \<and> (durable s a \<longrightarrow> durable s' a))"
proof (rule forS_keeps [OF assms(1)])
  show "ready s \<and> (\<forall>a. \<not> is_staging_path a \<longrightarrow> files s a = files s a \<and> (durable s a \<longrightarrow> durable s a))"
    using assms(3) by simp
next
  fix x t r t'
  assume x: "x \<in> set pairs" and t: "ready t \<and> (\<forall>a. \<not> is_staging_path a \<longrightarrow> files t a = files s a \<and> (durable s a \<longrightarrow> durable t a))"
    and step: "create_staged backend x t = (r, t')"
  obtain ob st where [simp]: "x = (ob, st)" by (cases x)
  note st = staging_pairsD [OF assms(2) x [simplified]]
  note c = step [simplified create_staged_eq \<open>x = (ob, st)\<close>]
  have "files t' a = files t a \<and> (durable t a \<longrightarrow> durable t' a)" if "\<not> is_staging_path a" for a
    using create_frame [OF st(2) _ c, of a] t st(5) that by blast
  then show "ready t' \<and> (\<forall>a. \<not> is_staging_path a \<longrightarrow> files t' a = files s a \<and> (durable s a \<longrightarrow> durable t' a))"
    using create_ready [OF st(2) _ c] t by simp
qed

lemma creates_done:
  assumes "forS (create_staged backend) pairs s = (Inr u, s')" and "staging_pairs pairs" and "ready s"
  shows "\<forall>x \<in> set pairs. files s' (ap_value (snd x)) = Some (planned_bytes (fst x))"
proof (rule forS_all [OF assms(1), where I = ready])
  show "ready s" by (rule assms(3))
next
  fix x t r t'
  assume x: "x \<in> set pairs" and t: "ready t" and step: "create_staged backend x t = (r, t')"
  obtain ob st where [simp]: "x = (ob, st)" by (cases x)
  show "ready t'"
    using create_ready [OF staging_pairsD(2) [OF assms(2) x [simplified]] t] step by (simp add: create_staged_eq)
next
  fix x t t'
  assume x: "x \<in> set pairs" and t: "ready t" and step: "create_staged backend x t = (Inr (), t')"
  obtain ob st where [simp]: "x = (ob, st)" by (cases x)
  show "files t' (ap_value (snd x)) = Some (planned_bytes (fst x))"
    using create_done [OF staging_pairsD(2) [OF assms(2) x [simplified]] t] step by (simp add: create_staged_eq)
next
  fix x y t r t'
  assume x: "x \<in> set pairs" and t: "ready t" and y: "files t (ap_value (snd y)) = Some (planned_bytes (fst y))"
    and step: "create_staged backend x t = (r, t')"
  obtain ob st where [simp]: "x = (ob, st)" by (cases x)
  show "files t' (ap_value (snd y)) = Some (planned_bytes (fst y))"
    using create_frame [OF staging_pairsD(2) [OF assms(2) x [simplified]] t, of "planned_bytes ob" r t' "ap_value (snd y)"] step y
    by (simp add: create_staged_eq)
qed

text \<open>Stages 2, 3 and 5: flushing changes no contents.\<close>

lemma sync_files:
  assumes "forS (sync_file backend) ps s = (r, s')" and "\<forall>p \<in> set ps. path_built p" and "ready s"
  shows "ready s' \<and> files s' = files s \<and> (\<forall>a. durable s a \<longrightarrow> durable s' a)"
    and "r = Inr () \<Longrightarrow> \<forall>p \<in> set ps. durable s' (ap_value p)"
proof -
  have step: "ready t' \<and> files t' = files t \<and> (\<forall>a. durable t a \<longrightarrow> durable t' a)"
    if "p \<in> set ps" "ready t" "sync_file backend p t = (r, t')" for p t r t'
    using sync_file_frame [OF _ that(2,3)] assms(2) that(1) by blast
  show "ready s' \<and> files s' = files s \<and> (\<forall>a. durable s a \<longrightarrow> durable s' a)"
    by (rule forS_keeps [OF assms(1)]) (use assms(3) in simp, use step in metis)
  show "\<forall>p \<in> set ps. durable s' (ap_value p)" if "r = Inr ()"
    by (rule forS_all [OF assms(1) [unfolded that], where I = ready])
      (use assms(2,3) step sync_file_done in blast)+
qed

lemma sync_directories:
  assumes "forS (\<lambda>x. sync_directory backend (path x)) xs s = (r, s')" and "\<forall>x \<in> set xs. path_built (path x)" and "ready s"
  shows "ready s' \<and> files s' = files s \<and> (\<forall>a. durable s a \<longrightarrow> durable s' a)"
    and "r = Inr () \<Longrightarrow> \<forall>x \<in> set xs. \<forall>a. files s a \<noteq> None \<longrightarrow> parent_dir a = ap_directory (path x) \<longrightarrow> named s' a"
proof -
  have step: "ready t' \<and> files t' = files t \<and> (\<forall>a. (durable t a \<longrightarrow> durable t' a) \<and> (named t a \<longrightarrow> named t' a))"
    if "x \<in> set xs" "ready t" "sync_directory backend (path x) t = (r, t')" for x t r t'
    using sync_directory_frame [OF _ that(2,3)] assms(2) that(1) by blast
  show "ready s' \<and> files s' = files s \<and> (\<forall>a. durable s a \<longrightarrow> durable s' a)"
  proof (rule forS_keeps [OF assms(1)])
    fix x t r t'
    assume "x \<in> set xs" "ready t \<and> files t = files s \<and> (\<forall>a. durable s a \<longrightarrow> durable t a)" "sync_directory backend (path x) t = (r, t')"
    then show "ready t' \<and> files t' = files s \<and> (\<forall>a. durable s a \<longrightarrow> durable t' a)"
      using step [of x t r t'] by simp
  qed (use assms(3) in simp)
  show "\<forall>x \<in> set xs. \<forall>a. files s a \<noteq> None \<longrightarrow> parent_dir a = ap_directory (path x) \<longrightarrow> named s' a" if "r = Inr ()"
  proof (rule forS_all [OF assms(1) [unfolded that], where I = "\<lambda>t. ready t \<and> files t = files s"])
    fix x t t'
    assume x: "x \<in> set xs" and t: "ready t \<and> files t = files s" and st: "sync_directory backend (path x) t = (Inr (), t')"
    show "\<forall>a. files s a \<noteq> None \<longrightarrow> parent_dir a = ap_directory (path x) \<longrightarrow> named t' a"
    proof (intro allI impI)
      fix a
      assume "files s a \<noteq> None" and "parent_dir a = ap_directory (path x)"
      then show "named t' a" using sync_directory_done [OF _ _ st] assms(2) x t by simp
    qed
  next
    fix x t r t'
    assume "x \<in> set xs" "ready t \<and> files t = files s" "sync_directory backend (path x) t = (r, t')"
    then show "ready t' \<and> files t' = files s" using step [of x t r t'] by simp
  next
    fix x y t r t'
    assume "x \<in> set xs" "ready t \<and> files t = files s" "sync_directory backend (path x) t = (r, t')"
      and "\<forall>a. files s a \<noteq> None \<longrightarrow> parent_dir a = ap_directory (path y) \<longrightarrow> named t a"
    then show "\<forall>a. files s a \<noteq> None \<longrightarrow> parent_dir a = ap_directory (path y) \<longrightarrow> named t' a"
      using step [of x t r t'] by simp
  qed (use assms(3) in simp)
qed

text \<open>Stages 1 to 3 leave every published address as it was and flush the staged bytes.\<close>

lemma prepare:
  assumes run: "bindS (forS (create_staged backend) (zip planned staged)) (\<lambda>_.
      bindS (forS (sync_file backend) staged) (\<lambda>_. forS (sync_directory backend) staged)) s = (r, s')"
    and pairs: "staging_pairs (zip planned staged)" "\<forall>p \<in> set staged. path_built p" and "ready s"
  shows "ready s' \<and> (\<forall>a. \<not> is_staging_path a \<longrightarrow> files s' a = files s a \<and> (durable s a \<longrightarrow> durable s' a))"
    and "r = Inr () \<Longrightarrow> \<forall>x \<in> set (zip planned staged).
      files s' (ap_value (snd x)) = Some (planned_bytes (fst x)) \<and> durable s' (ap_value (snd x))"
proof -
  obtain r1 s1 where c1: "forS (create_staged backend) (zip planned staged) s = (r1, s1)" by fastforce
  note f1 = creates_frame [OF c1 pairs(1) assms(4)]
  obtain r2 s2 where c2: "forS (sync_file backend) staged s1 = (r2, s2)" by fastforce
  note f2 = sync_files [OF c2 pairs(2) conjunct1 [OF f1]]
  obtain r3 s3 where c3: "forS (sync_directory backend) staged s2 = (r3, s3)" by fastforce
  note f3 = sync_directories(1) [of "\<lambda>p. p", OF c3 pairs(2) conjunct1 [OF f2(1)]]
  have cases3: "s' = s1 \<and> r \<noteq> Inr () \<or> s' = s2 \<and> r \<noteq> Inr () \<or> s' = s3 \<and> r1 = Inr () \<and> r2 = Inr ()"
    using run c1 c2 c3 by (auto simp: bindS_eq)
  then show "ready s' \<and> (\<forall>a. \<not> is_staging_path a \<longrightarrow> files s' a = files s a \<and> (durable s a \<longrightarrow> durable s' a))"
    using f1 f2(1) f3 by auto
  show "\<forall>x \<in> set (zip planned staged). files s' (ap_value (snd x)) = Some (planned_bytes (fst x)) \<and> durable s' (ap_value (snd x))"
    if "r = Inr ()"
  proof -
    have s': "s' = s3" and r12: "r1 = Inr ()" "r2 = Inr ()" using cases3 that by auto
    have "durable s3 (ap_value (snd x))" if "x \<in> set (zip planned staged)" for x
      using f2(2) [OF r12(2)] f3 that by (metis prod.collapse set_zip_rightD)
    then show ?thesis
      using creates_done [OF c1 [unfolded r12] pairs(1) assms(4)] f2(1) f3 s' by simp
  qed
qed

text \<open>Stage 4, one object and then all of them.\<close>

lemma publish_step:
  assumes "publish_staged backend (ob, st) s = (r, s')" and "staging_pairs pairs" and "(ob, st) \<in> set pairs" and "ready s"
  shows "ready s'"
    and "moved files durable (ap_value st) (target_value ob) s s' \<or>
      files s' = files s \<and> (\<forall>a. durable s a \<longrightarrow> durable s' a) \<and> r \<noteq> Inr ()"
proof -
  note st = staging_pairsD [OF assms(2,3)]
  have step: "atomic_rename_same_fs backend st (so_target ob) s = (r, s')"
    using assms(1) by (simp add: publish_staged_def)
  have ne: "ap_value st \<noteq> ap_value (so_target ob)" using st(6) by (simp add: target_value_def)
  show "ready s'" by (rule rename_ready [OF st(2,1) ne assms(4) step])
  show "moved files durable (ap_value st) (target_value ob) s s' \<or>
      files s' = files s \<and> (\<forall>a. durable s a \<longrightarrow> durable s' a) \<and> r \<noteq> Inr ()"
  proof (cases r)
    case (Inl e)
    then show ?thesis using rename_failed [OF st(2,1) ne assms(4)] step by (auto simp: target_value_def)
  next
    case (Inr u)
    then show ?thesis using rename_done [OF st(2,1) ne assms(4)] step by (simp add: target_value_def)
  qed
qed

lemma publish_all:
  assumes "forS (publish_staged backend) pairs s = (r, s')" and "staging_pairs pairs" and "ready s"
    and "staged_ok files durable pairs s"
  shows "\<exists>k \<le> length pairs. ready s' \<and> publishes files durable (map fst (take k pairs)) s s' \<and>
      (\<forall>a. is_staging_path a \<longrightarrow> files s a = None \<longrightarrow> files s' a = None) \<and>
      (r = Inr () \<longrightarrow> k = length pairs \<and> (\<forall>x \<in> set pairs. files s' (ap_value (snd x)) = None))"
  using assms
proof (induction pairs arbitrary: s)
  case Nil
  then show ?case by (auto intro: publishes_Nil)
next
  case (Cons x pairs)
  obtain ob st where x [simp]: "x = (ob, st)" by (cases x)
  have wf: "staging_pairs ((ob, st) # pairs)" using Cons.prems(2) by simp
  note st = staging_pairsD [OF wf list.set_intros(1)]
  have wf': "staging_pairs pairs" and ok': "staged_ok files durable pairs s"
    using wf Cons.prems(4) by (simp_all add: staging_pairs_def staged_ok_def)
  obtain r1 s1 where step: "publish_staged backend (ob, st) s = (r1, s1)" by fastforce
  note p = publish_step [OF step wf list.set_intros(1) Cons.prems(3)]
  show ?case
  proof (cases "moved files durable (ap_value st) (target_value ob) s s1")
    case False
    then have "files s1 = files s" "\<forall>a. durable s a \<longrightarrow> durable s1 a" and r1: "r1 \<noteq> Inr ()" using p(2) by auto
    moreover have "r = r1" "s' = s1" using Cons.prems(1) step r1 by (auto simp: bindS_eq)
    ultimately show ?thesis using p(1) by (intro exI [of _ 0]) (auto intro: publishes_Nil)
  next
    case True
    note f1 = moved_staging [OF True st(4)]
    have staged: "files s (ap_value st) = Some (planned_bytes ob)" "durable s (ap_value st)"
      using True Cons.prems(4) by (auto simp: staged_ok_def moved_def)
    note first = publishes_Cons [OF True st(5) staged _ st(4)]
    show ?thesis
    proof (cases r1)
      case (Inl e)
      then have "r = Inl e" "s' = s1" using Cons.prems(1) step by (auto simp: bindS_eq)
      then show ?thesis
        using p(1) first [OF publishes_Nil] f1 by (intro exI [of _ 1]) auto
    next
      case (Inr u)
      then have run: "forS (publish_staged backend) pairs s1 = (r, s')" using Cons.prems(1) step by (auto simp: bindS_eq)
      obtain k where k: "k \<le> length pairs" "ready s'" "publishes files durable (map fst (take k pairs)) s1 s'"
          "\<forall>a. is_staging_path a \<longrightarrow> files s1 a = None \<longrightarrow> files s' a = None"
          "r = Inr () \<longrightarrow> k = length pairs \<and> (\<forall>x \<in> set pairs. files s' (ap_value (snd x)) = None)"
        using Cons.IH [OF run wf' p(1) moved_staged_ok [OF True st(4) wf' ok']] by blast
      have "\<forall>ob \<in> set (map fst (take k pairs)). \<not> is_staging_path (target_value ob)"
        using staging_pairsD(4) [OF wf'] by (auto dest: in_set_takeD)
      then have "publishes files durable (map fst (take (Suc k) (x # pairs))) s s'"
        using first [OF k(3)] by simp
      moreover have "\<forall>a. is_staging_path a \<longrightarrow> files s a = None \<longrightarrow> files s' a = None" using k(4) f1 by auto
      moreover have "files s' (ap_value st) = None" using k(4) f1 st(5) by simp
      ultimately show ?thesis using k(1,2,5) by (intro exI [of _ "Suc k"]) auto
    qed
  qed
qed

text \<open>Stages 4 and 5, from a state in which everything is staged.\<close>

lemma publish_and_flush:
  assumes run: "bindS (forS (publish_staged backend) (zip planned staged)) (\<lambda>_.
      forS (\<lambda>ob. sync_directory backend (so_target ob)) planned) s = (r, s')"
    and pairs: "staging_pairs (zip planned staged)" "length staged = length planned"
    and "ready s" and "staged_ok files durable (zip planned staged) s"
    and plan: "\<forall>ob \<in> set planned. path_built (so_target ob) \<and> \<not> is_staging_path (target_value ob)"
  shows "commit_outcome files durable named planned s r s'"
proof -
  let ?pairs = "zip planned staged"
  obtain r2 s2 where c2: "forS (publish_staged backend) ?pairs s = (r2, s2)" by fastforce
  obtain k where k: "k \<le> length ?pairs" "ready s2" "publishes files durable (map fst (take k ?pairs)) s s2"
      "r2 = Inr () \<longrightarrow> k = length ?pairs \<and> (\<forall>x \<in> set ?pairs. files s2 (ap_value (snd x)) = None)"
    using publish_all [OF c2 pairs(1) assms(4,5)] by blast
  have front: "map fst (take k ?pairs) = take k planned" using k(1) pairs(2) by (simp add: take_zip)
  show ?thesis
  proof (cases r2)
    case (Inl e)
    then have "s' = s2 \<and> r = Inl e" using run c2 by (auto simp: bindS_eq)
    then show ?thesis unfolding commit_outcome_def using k(1,3) front pairs(2) by auto
  next
    case (Inr u)
    then have c3: "forS (\<lambda>ob. sync_directory backend (so_target ob)) planned s2 = (r, s')"
      using run c2 by (auto simp: bindS_eq)
    have f3: "files s' = files s2" "\<forall>a. durable s2 a \<longrightarrow> durable s' a"
      "r = Inr () \<Longrightarrow> \<forall>ob \<in> set planned. \<forall>a. files s2 a \<noteq> None \<longrightarrow> parent_dir a = ap_directory (so_target ob) \<longrightarrow> named s' a"
      using sync_directories [OF c3 _ k(2)] plan by auto
    have all: "k = length planned" "\<forall>x \<in> set ?pairs. files s' (ap_value (snd x)) = None"
      using Inr k(4) pairs(2) f3(1) by auto
    have pub: "publishes files durable planned s s'"
    proof (rule publishes_cong)
      show "publishes files durable planned s s2" using k(3) front all(1) by simp
    qed (use f3 plan in auto)
    have gone: "files s' (target_value ob @ STAGING_SUFFIX_V1) = None" if ob: "ob \<in> set planned" for ob
    proof -
      obtain st where st: "(ob, st) \<in> set ?pairs" using ob pairs(2) by (metis in_set_impl_in_set_zip1)
      then show ?thesis using all(2) staging_pairsD(3) [OF pairs(1) st] by force
    qed
    have there: "files s2 (target_value ob) \<noteq> None" if "ob \<in> set planned" for ob
      using pub [unfolded publishes_def] f3(1) plan published_present [OF that] that by simp
    show ?thesis
      unfolding commit_outcome_def using pub gone there f3(3) by (intro exI [of _ "length planned"]) auto
  qed
qed

text \<open>The whole commit.\<close>

lemma commit_outcome_from:
  assumes "commit_outcome files durable named planned s1 r s'"
    and "\<forall>a. \<not> is_staging_path a \<longrightarrow> files s1 a = files s a \<and> (durable s a \<longrightarrow> durable s1 a)"
    and "\<forall>ob \<in> set planned. \<not> is_staging_path (target_value ob)"
  shows "commit_outcome files durable named planned s r s'"
proof -
  obtain k where k: "k \<le> length planned" "publishes files durable (take k planned) s1 s'"
      "r = Inr () \<longrightarrow> k = length planned \<and>
         (\<forall>ob \<in> set planned. files s' (target_value ob @ STAGING_SUFFIX_V1) = None \<and>
            (parent_dir (target_value ob) = ap_directory (so_target ob) \<longrightarrow> named s' (target_value ob)))"
    using assms(1) by (auto simp: commit_outcome_def)
  have "publishes files durable (take k planned) s s'"
    by (rule publishes_cong [OF k(2)]) (use assms(2,3) in \<open>auto dest: in_set_takeD\<close>)
  then show ?thesis unfolding commit_outcome_def using k by auto
qed

lemma commit_publishes:
  assumes run: "tx_commit backend planned s = (r, s')" and "ready s"
    and plan: "\<forall>ob \<in> set planned. path_built (so_target ob) \<and> \<not> is_staging_path (target_value ob)"
  shows "commit_outcome files durable named planned s r s'"
proof (cases "mapE (\<lambda>ob. staging_path (so_target ob)) planned")
  case (Inl e)
  then have "r = Inl e" "s' = s" using run by (auto simp: tx_commit_def bindS_eq)
  then show ?thesis unfolding commit_outcome_def by (intro exI [of _ 0]) (auto intro: publishes_Nil)
next
  case (Inr staged)
  let ?pairs = "zip planned staged"
  note pairs = staging_pairs_zip [OF Inr plan]
  have built: "\<forall>p \<in> set staged. path_built p"
    using pairs staging_pairsD(2) by (metis in_set_impl_in_set_zip2)
  obtain r1 s1 where c1: "bindS (forS (create_staged backend) ?pairs) (\<lambda>_.
      bindS (forS (sync_file backend) staged) (\<lambda>_. forS (sync_directory backend) staged)) s = (r1, s1)" by fastforce
  note f1 = prepare [OF c1 pairs(1) built assms(2)]
  show ?thesis
  proof (cases r1)
    case (Inl e)
    then have "s' = s1" "r = Inl e" using run Inr c1 by (auto simp: tx_commit_def bindS_eq)
    then show ?thesis
      unfolding commit_outcome_def using f1(1) by (intro exI [of _ 0]) (auto intro: publishes_Nil)
  next
    case r1: (Inr u)
    then have c2: "bindS (forS (publish_staged backend) ?pairs) (\<lambda>_.
        forS (\<lambda>ob. sync_directory backend (so_target ob)) planned) s1 = (r, s')"
      using run Inr c1 by (auto simp: tx_commit_def bindS_eq)
    have "staged_ok files durable ?pairs s1" using f1(2) r1 by (simp add: staged_ok_def)
    then have "commit_outcome files durable named planned s1 r s'"
      using publish_and_flush [OF c2 pairs _ _ plan] f1(1) by blast
    then show ?thesis using commit_outcome_from f1(1) plan by blast
  qed
qed

end

section \<open>A backend without faults\<close>

text \<open>
  While the host fails no call, the operations succeed where no other bytes are in the way, and a commit then reaches
  its end.
\<close>

lemma forS_succeeds:
  assumes "I s" and "\<And>x s. x \<in> set xs \<Longrightarrow> I s \<Longrightarrow> \<exists>s'. f x s = (Inr (), s') \<and> I s' \<and> Q x s' \<and> (\<forall>y. Q y s \<longrightarrow> Q y s')"
  shows "\<exists>s'. forS f xs s = (Inr (), s') \<and> I s' \<and> (\<forall>x \<in> set xs. Q x s') \<and> (\<forall>y. Q y s \<longrightarrow> Q y s')"
  using assms
proof (induction xs arbitrary: s)
  case (Cons x xs)
  obtain s1 where s1: "f x s = (Inr (), s1)" "I s1" "Q x s1" "\<forall>y. Q y s \<longrightarrow> Q y s1"
    using Cons.prems(2) [OF list.set_intros(1) Cons.prems(1)] by blast
  obtain s2 where s2: "forS f xs s1 = (Inr (), s2)" "I s2" "\<forall>x \<in> set xs. Q x s2" "\<forall>y. Q y s1 \<longrightarrow> Q y s2"
    using Cons.IH [OF s1(2) Cons.prems(2) [OF list.set_intros(2)]] by blast
  then have "forS f (x # xs) s = (Inr (), s2)" using s1(1) by (simp add: bindS_def)
  then show ?case using s1 s2 by auto
qed simp

lemma rfind_append: "b \<notin> set suf \<Longrightarrow> rfind b (a @ suf) = rfind b a"
proof -
  assume suf: "b \<notin> set suf"
  have "takeWhile (\<lambda>c. c \<noteq> b) (rev suf @ rev a) = rev suf @ takeWhile (\<lambda>c. c \<noteq> b) (rev a)"
    by (rule takeWhile_append2) (use suf in auto)
  then show ?thesis using suf by (simp add: rfind_def)
qed

lemma rfind_bound: "rfind b a = Some n \<Longrightarrow> n < length a"
  by (auto simp: rfind_def split: if_splits) (metis length_pos_if_in_set diff_less zero_less_Suc)

lemma parent_dir_staging: "parent_dir (a @ STAGING_SUFFIX_V1) = parent_dir a"
proof -
  have "0x2F \<notin> set STAGING_SUFFIX_V1" by (simp add: STAGING_SUFFIX_V1_def ascii_def)
  then show ?thesis
    by (auto simp: parent_dir_def rfind_append split: option.splits dest: rfind_bound)
qed

definition plan_fits :: "('s \<Rightarrow> bytes \<Rightarrow> bytes option) \<Rightarrow> staged_object list \<Rightarrow> 's \<Rightarrow> bool" where
  "plan_fits files planned s \<longleftrightarrow>
     distinct (map target_value planned) \<and>
     (\<forall>ob \<in> set planned. ap_directory (so_target ob) \<noteq> [] \<and>
        (files s (target_value ob) = None \<or> files s (target_value ob) = Some (planned_bytes ob)) \<and>
        (files s (target_value ob @ STAGING_SUFFIX_V1) = None \<or>
         files s (target_value ob @ STAGING_SUFFIX_V1) = Some (planned_bytes ob)))"

lemma staging_paths_exist:
  assumes "\<forall>ob \<in> set planned. path_built (so_target ob) \<and> ap_directory (so_target ob) \<noteq> []"
  shows "\<exists>staged. mapE (\<lambda>ob. staging_path (so_target ob)) planned = Inr staged"
  using assms by (induction planned) (auto simp: staging_path_eq)

lemma staging_pair_directory:
  assumes "mapE (\<lambda>ob. staging_path (so_target ob)) planned = Inr staged" and "(ob, st) \<in> set (zip planned staged)"
    and "path_built (so_target ob)"
  shows "ap_directory st = ap_directory (so_target ob)"
proof -
  have "staging_path (so_target ob) = Inr st" using assms(1,2) by (auto simp: mapE_Inr)
  then show ?thesis
    using staging_path_eq [OF assms(3)] path_built_value(3) [OF assms(3)]
    by (auto simp: ap_directory_def split: if_splits)
qed

text \<open>The plan paired with its staging addresses: both sides are distinct, and each target lies where its staging address does.\<close>

lemma plan_pairs:
  assumes staged: "mapE (\<lambda>ob. staging_path (so_target ob)) planned = Inr staged"
    and plan: "\<forall>ob \<in> set planned. path_built (so_target ob) \<and> \<not> is_staging_path (target_value ob)"
    and "distinct (map target_value planned)"
  shows "x \<in> set (zip planned staged) \<Longrightarrow> path_built (snd x) \<and> ap_value (snd x) = target_value (fst x) @ STAGING_SUFFIX_V1 \<and>
      fst x \<in> set planned \<and> ap_directory (snd x) = ap_directory (so_target (fst x))"
    and "distinct (map (\<lambda>x. target_value (fst x)) (zip planned staged))"
    and "distinct (map (\<lambda>x. ap_value (snd x)) (zip planned staged))"
    and "p \<in> set staged \<Longrightarrow> \<exists>x \<in> set (zip planned staged). snd x = p"
    and "ob \<in> set planned \<Longrightarrow> \<exists>x \<in> set (zip planned staged). fst x = ob"
proof -
  let ?pairs = "zip planned staged"
  note pairs = staging_pairs_zip [OF staged plan]
  have facts: "path_built (snd x) \<and> ap_value (snd x) = target_value (fst x) @ STAGING_SUFFIX_V1 \<and>
      fst x \<in> set planned \<and> ap_directory (snd x) = ap_directory (so_target (fst x))" if "x \<in> set ?pairs" for x
    using staging_pairsD(2,3) [OF pairs(1), of "fst x" "snd x"] staging_pair_directory [OF staged, of "fst x" "snd x"]
      that plan set_zip_leftD [of "fst x" "snd x" planned staged] by auto
  then show "x \<in> set ?pairs \<Longrightarrow> path_built (snd x) \<and> ap_value (snd x) = target_value (fst x) @ STAGING_SUFFIX_V1 \<and>
      fst x \<in> set planned \<and> ap_directory (snd x) = ap_directory (so_target (fst x))" .
  have "map (\<lambda>x. target_value (fst x)) ?pairs = map target_value planned"
    using pairs(2) by (simp add: list_eq_iff_nth_eq)
  then show dt: "distinct (map (\<lambda>x. target_value (fst x)) ?pairs)" using assms(3) by simp
  have "map (\<lambda>x. ap_value (snd x)) ?pairs = map (\<lambda>a. a @ STAGING_SUFFIX_V1) (map (\<lambda>x. target_value (fst x)) ?pairs)"
    using facts by simp
  then show "distinct (map (\<lambda>x. ap_value (snd x)) ?pairs)" using dt by (simp add: distinct_map inj_on_def)
  show "\<exists>x \<in> set ?pairs. snd x = p" if "p \<in> set staged"
    using that pairs(2) by (metis in_set_impl_in_set_zip2 snd_conv)
  show "\<exists>x \<in> set ?pairs. fst x = ob" if "ob \<in> set planned"
    using that pairs(2) by (metis in_set_impl_in_set_zip1 fst_conv)
qed

locale healthy_archive_backend = archive_backend +
  fixes healthy :: "'a \<Rightarrow> bool"
    and has_dir :: "'a \<Rightarrow> bytes \<Rightarrow> bool"
  assumes healthy_ready: "healthy s \<Longrightarrow> ready s"
    and create_succeeds: "path_built p \<Longrightarrow> healthy s \<Longrightarrow> files s (ap_value p) = None \<or> files s (ap_value p) = Some bs \<Longrightarrow>
      \<exists>s'. create_if_absent backend p bs s = (Inr (), s') \<and> healthy s' \<and> has_dir s' (ap_directory p) \<and>
        (\<forall>d. has_dir s d \<longrightarrow> has_dir s' d)"
    and sync_file_succeeds: "path_built p \<Longrightarrow> healthy s \<Longrightarrow> files s (ap_value p) \<noteq> None \<Longrightarrow>
      \<exists>s'. sync_file backend p s = (Inr (), s') \<and> healthy s' \<and> (\<forall>d. has_dir s d \<longrightarrow> has_dir s' d)"
    and sync_directory_succeeds: "path_built p \<Longrightarrow> healthy s \<Longrightarrow> has_dir s (ap_directory p) \<Longrightarrow>
      \<exists>s'. sync_directory backend p s = (Inr (), s') \<and> healthy s' \<and> (\<forall>d. has_dir s d \<longrightarrow> has_dir s' d)"
    and rename_succeeds: "path_built p \<Longrightarrow> path_built q \<Longrightarrow> ap_value p \<noteq> ap_value q \<Longrightarrow> healthy s \<Longrightarrow>
      parent_dir (ap_value p) = parent_dir (ap_value q) \<Longrightarrow>
      files s (ap_value p) = Some bs \<Longrightarrow> files s (ap_value q) = None \<or> files s (ap_value q) = Some bs \<Longrightarrow>
      \<exists>s'. atomic_rename_same_fs backend p q s = (Inr (), s') \<and> healthy s' \<and> (\<forall>d. has_dir s d \<longrightarrow> has_dir s' d)"
begin

lemma creates_succeed:
  assumes wf: "staging_pairs pairs" and dist: "distinct (map (\<lambda>x. ap_value (snd x)) pairs)" and "healthy s"
    and "\<forall>x \<in> set pairs. files s (ap_value (snd x)) = None \<or> files s (ap_value (snd x)) = Some (planned_bytes (fst x))"
  shows "\<exists>s'. forS (create_staged backend) pairs s = (Inr (), s') \<and> healthy s' \<and>
    (\<forall>x \<in> set pairs. has_dir s' (ap_directory (snd x)))"
proof -
  let ?I = "\<lambda>t. healthy t \<and> (\<forall>x \<in> set pairs. files t (ap_value (snd x)) = None \<or> files t (ap_value (snd x)) = Some (planned_bytes (fst x)))"
  have "\<exists>t'. create_staged backend x t = (Inr (), t') \<and> ?I t' \<and> has_dir t' (ap_directory (snd x)) \<and>
      (\<forall>y. has_dir t (ap_directory (snd y)) \<longrightarrow> has_dir t' (ap_directory (snd y)))"
    if x: "x \<in> set pairs" and I: "?I t" for x t
  proof -
    have st: "path_built (snd x)" using staging_pairsD(2) [OF wf, of "fst x" "snd x"] x by simp
    obtain t' where t': "create_if_absent backend (snd x) (planned_bytes (fst x)) t = (Inr (), t')" "healthy t'"
        "has_dir t' (ap_directory (snd x))" "\<forall>d. has_dir t d \<longrightarrow> has_dir t' d"
      using create_succeeds [OF st] I x by blast
    have ready: "ready t" using I healthy_ready by blast
    have "files t' (ap_value (snd y)) = None \<or> files t' (ap_value (snd y)) = Some (planned_bytes (fst y))" if y: "y \<in> set pairs" for y
    proof (cases "y = x")
      case True
      then show ?thesis using create_done [OF st ready t'(1)] by simp
    next
      case False
      then have "ap_value (snd y) \<noteq> ap_value (snd x)" using dist x y by (auto simp: distinct_map dest: inj_onD)
      then show ?thesis using create_frame [OF st ready t'(1)] I y by simp
    qed
    then show ?thesis using t' create_staged_eq [of "fst x" "snd x"] by auto
  qed
  from forS_succeeds [of ?I s pairs "create_staged backend" "\<lambda>x t. has_dir t (ap_directory (snd x))", OF _ this]
  show ?thesis using assms(3,4) by blast
qed

lemma syncs_succeed:
  assumes "\<forall>p \<in> set ps. path_built p \<and> files s (ap_value p) \<noteq> None" and "healthy s" and dirs: "\<forall>d \<in> D. has_dir s d"
  shows "\<exists>s'. forS (sync_file backend) ps s = (Inr (), s') \<and> healthy s' \<and> files s' = files s \<and> (\<forall>d \<in> D. has_dir s' d)"
proof -
  let ?I = "\<lambda>t. healthy t \<and> files t = files s \<and> (\<forall>d \<in> D. has_dir t d)"
  have "\<exists>t'. sync_file backend p t = (Inr (), t') \<and> ?I t' \<and> True \<and> (\<forall>y::unit. True \<longrightarrow> True)" if p: "p \<in> set ps" and I: "?I t" for p t
  proof -
    have "path_built p" "files t (ap_value p) \<noteq> None" using assms(1) p I by auto
    then show ?thesis using sync_file_succeeds [of p t] sync_file_frame [of p t] healthy_ready [of t] I by metis
  qed
  from forS_succeeds [of ?I s ps "sync_file backend" "\<lambda>_ _. True"] this show ?thesis using assms(2,3) by auto
qed

lemma sync_directories_succeed:
  assumes "\<forall>x \<in> set xs. path_built (path x) \<and> has_dir s (ap_directory (path x))" and "healthy s" and dirs: "\<forall>d \<in> D. has_dir s d"
  shows "\<exists>s'. forS (\<lambda>x. sync_directory backend (path x)) xs s = (Inr (), s') \<and> healthy s' \<and> files s' = files s \<and> (\<forall>d \<in> D. has_dir s' d)"
proof -
  let ?I = "\<lambda>t. healthy t \<and> files t = files s \<and> (\<forall>d. has_dir s d \<longrightarrow> has_dir t d)"
  have "\<exists>t'. sync_directory backend (path x) t = (Inr (), t') \<and> ?I t' \<and> True \<and> (\<forall>y::unit. True \<longrightarrow> True)" if x: "x \<in> set xs" and I: "?I t" for x t
  proof -
    have "path_built (path x)" "has_dir t (ap_directory (path x))" using assms(1) x I by auto
    then show ?thesis using sync_directory_succeeds [of "path x" t] sync_directory_frame [of "path x" t] healthy_ready [of t] I by metis
  qed
  from forS_succeeds [of ?I s xs "\<lambda>x. sync_directory backend (path x)" "\<lambda>_ _. True"] this show ?thesis using assms(2,3) by auto
qed

lemma publishes_succeed:
  assumes "staging_pairs pairs" and "distinct (map (\<lambda>x. target_value (fst x)) pairs)" and "healthy s"
    and "\<forall>x \<in> set pairs. files s (ap_value (snd x)) = Some (planned_bytes (fst x)) \<and>
      (files s (target_value (fst x)) = None \<or> files s (target_value (fst x)) = Some (planned_bytes (fst x)))"
    and "\<forall>d \<in> D. has_dir s d"
  shows "\<exists>s'. forS (publish_staged backend) pairs s = (Inr (), s') \<and> healthy s' \<and> (\<forall>d \<in> D. has_dir s' d)"
  using assms
proof (induction pairs arbitrary: s)
  case (Cons x pairs)
  have x: "(fst x, snd x) \<in> set (x # pairs)" by simp
  note st = staging_pairsD [OF Cons.prems(1) x]
  have wf': "staging_pairs pairs" using Cons.prems(1) by (simp add: staging_pairs_def)
  have ne: "ap_value (snd x) \<noteq> ap_value (so_target (fst x))" using st(6) by (simp add: target_value_def)
  have same_parent: "parent_dir (ap_value (snd x)) = parent_dir (ap_value (so_target (fst x)))"
    using st(3) parent_dir_staging by (simp add: target_value_def)
  obtain s1 where s1: "atomic_rename_same_fs backend (snd x) (so_target (fst x)) s = (Inr (), s1)" "healthy s1"
      "\<forall>d. has_dir s d \<longrightarrow> has_dir s1 d"
    using rename_succeeds [OF st(2,1) ne Cons.prems(3) same_parent] Cons.prems(4) by (auto simp: target_value_def)
  have m: "moved files durable (ap_value (snd x)) (target_value (fst x)) s s1"
    using rename_done [OF st(2,1) ne healthy_ready [OF Cons.prems(3)] s1(1)] by (simp add: target_value_def)
  have "files s1 (ap_value (snd y)) = Some (planned_bytes (fst y)) \<and>
      (files s1 (target_value (fst y)) = None \<or> files s1 (target_value (fst y)) = Some (planned_bytes (fst y)))"
    if y: "y \<in> set pairs" for y
  proof -
    note yt = staging_pairsD [OF wf', of "fst y" "snd y", simplified, OF y]
    have ty: "target_value (fst y) \<noteq> target_value (fst x)" using Cons.prems(2) imageI [OF y, of "\<lambda>x. target_value (fst x)"]
      by (simp only: list.map distinct.simps list.set_map) metis
    then have "ap_value (snd y) \<noteq> ap_value (snd x)" using yt(3) st(3) by simp
    then have "files s1 (ap_value (snd y)) = files s (ap_value (snd y))"
      using moved_staging [OF m st(4) yt(5)] by simp
    moreover have "files s1 (target_value (fst y)) = files s (target_value (fst y))"
      using m ty yt(4) st(5) by (auto simp: moved_def)
    ultimately show ?thesis using Cons.prems(4) y by simp
  qed
  then obtain s2 where "forS (publish_staged backend) pairs s1 = (Inr (), s2)" "healthy s2" "\<forall>d \<in> D. has_dir s2 d"
    using Cons.IH [OF wf' _ s1(2)] Cons.prems(2,5) s1(3) by auto
  moreover have "publish_staged backend x s = (Inr (), s1)" using s1(1) by (simp add: publish_staged_def)
  ultimately show ?case by (auto simp: bindS_def)
qed simp

lemma commit_succeeds:
  assumes "healthy s" and fits: "plan_fits files planned s"
    and plan: "\<forall>ob \<in> set planned. path_built (so_target ob) \<and> \<not> is_staging_path (target_value ob)"
  shows "\<exists>s'. tx_commit backend planned s = (Inr (), s')"
proof -
  note fits' = fits [unfolded plan_fits_def]
  obtain staged where staged: "mapE (\<lambda>ob. staging_path (so_target ob)) planned = Inr staged"
    using staging_paths_exist plan fits' by blast
  let ?pairs = "zip planned staged" and ?D = "(\<lambda>ob. ap_directory (so_target ob)) ` set planned"
  note pairs = staging_pairs_zip [OF staged plan]
  note pp = plan_pairs [OF staged plan conjunct1 [OF fits']]
  obtain s1 where s1: "forS (create_staged backend) ?pairs s = (Inr (), s1)" "healthy s1"
      "\<forall>x \<in> set ?pairs. has_dir s1 (ap_directory (snd x))"
    using creates_succeed [OF pairs(1) pp(3) assms(1)] fits' pp(1) by auto
  note f1 = creates_frame [OF s1(1) pairs(1) healthy_ready [OF assms(1)]]
    creates_done [OF s1(1) pairs(1) healthy_ready [OF assms(1)]]
  have d1: "\<forall>d \<in> ?D. has_dir s1 d" using s1(3) pp(1,5) by fastforce
  have p1: "\<forall>p \<in> set staged. path_built p \<and> files s1 (ap_value p) \<noteq> None"
    using f1(2) pp(1,4) by fastforce
  obtain s2 where s2: "forS (sync_file backend) staged s1 = (Inr (), s2)" "healthy s2" "files s2 = files s1" "\<forall>d \<in> ?D. has_dir s2 d"
    using syncs_succeed [OF p1 s1(2) d1] by blast
  have p2: "\<forall>p \<in> set staged. path_built p \<and> has_dir s2 (ap_directory p)"
    using s2(4) pp(1,4) by fastforce
  obtain s3 where s3: "forS (sync_directory backend) staged s2 = (Inr (), s3)" "healthy s3" "files s3 = files s2" "\<forall>d \<in> ?D. has_dir s3 d"
    using sync_directories_succeed [of staged "\<lambda>p. p", OF p2 s2(2,4)] by blast
  have ready3: "files s3 (ap_value (snd x)) = Some (planned_bytes (fst x)) \<and>
      (files s3 (target_value (fst x)) = None \<or> files s3 (target_value (fst x)) = Some (planned_bytes (fst x)))" if "x \<in> set ?pairs" for x
    using that f1 s2(3) s3(3) pp(1) [OF that] plan fits' by auto
  obtain s4 where s4: "forS (publish_staged backend) ?pairs s3 = (Inr (), s4)" "healthy s4" "\<forall>d \<in> ?D. has_dir s4 d"
    using publishes_succeed [OF pairs(1) pp(2) s3(2) _ s3(4)] ready3 by blast
  obtain s5 where "forS (\<lambda>ob. sync_directory backend (so_target ob)) planned s4 = (Inr (), s5)"
    using sync_directories_succeed [of planned so_target, OF _ s4(2,3)] s4(3) plan by blast
  then show ?thesis using staged s1(1) s2(1) s3(1) s4(1) by (simp add: tx_commit_def bindS_def liftS_def)
qed

end

end
