(* ===== verification/EaLocalBackend.thy ===== *)
theory EaLocalBackend
  imports EaArchiveTx
begin

text \<open>
  The archive on a local file system (\<^verbatim>\<open>crates/ea-archive-fs/src/local_path.rs\<close>) over a model of the calls of
  \<^verbatim>\<open>std::fs\<close> it makes. The state holds the files by their address below the root, which contents and which names were
  flushed, and a schedule of faults: every call that can fail takes the next entry, and a failed write may have left a
  prefix of the bytes. The set \<^verbatim>\<open>foreign\<close> and the flag \<^verbatim>\<open>existing_only\<close> are fields of the backend itself. Directories
  end in a separator and the root is the empty name, so the code's test that a directory lies below the root always
  holds.
\<close>

section \<open>The file system\<close>

record local_fs =
  lb_existing_only :: bool
  lb_foreign :: "bytes list"
  fs_files :: "bytes \<Rightarrow> bytes option"
  fs_unreadable :: "bytes \<Rightarrow> bool"
  fs_dirs :: "bytes \<Rightarrow> bool"
  fs_device :: "bytes \<Rightarrow> u64 option"
  fs_synced :: "bytes \<Rightarrow> bool"
  fs_named :: "bytes \<Rightarrow> bool"
  fs_faults :: "nat option list"

text \<open>One call: the scheduled fault, if any. \<open>Some n\<close> is a failure after \<open>n\<close> bytes.\<close>

definition fs_call :: "local_fs \<Rightarrow> nat option \<times> local_fs" where
  "fs_call s = (case fs_faults s of [] \<Rightarrow> (None, s) | fault # rest \<Rightarrow> (fault, s\<lparr>fs_faults := rest\<rparr>))"

definition fs_try :: "backend_error \<Rightarrow> (local_fs \<Rightarrow> bool) \<Rightarrow> (local_fs \<Rightarrow> local_fs) \<Rightarrow> (local_fs, unit) io" where
  "fs_try e possible effect s =
     (case fs_call s of
        (Some _, s) \<Rightarrow> (Inl e, s)
      | (None, s) \<Rightarrow> if possible s then (Inr (), effect s) else (Inl e, s))"

definition fs_read :: "bytes \<Rightarrow> local_fs \<Rightarrow> bytes option" where
  "fs_read a s = (if fs_unreadable s a then None else fs_files s a)"

definition fs_create_dir_all :: "bytes \<Rightarrow> (local_fs, unit) io" where
  "fs_create_dir_all d =
     fs_try BackendIo (\<lambda>_. True)
       (\<lambda>s. s\<lparr>fs_dirs := \<lambda>a. fs_dirs s a \<or> take (length a) d = a \<and> (a = [] \<or> last a = 0x2F)\<rparr>)"

definition fs_create_dir :: "bytes \<Rightarrow> local_fs \<Rightarrow> create_outcome \<times> local_fs" where
  "fs_create_dir d s =
     (case fs_call s of
        (Some _, s) \<Rightarrow> (CreateFailed, s)
      | (None, s) \<Rightarrow> if fs_dirs s d then (AlreadyExists, s) else (Created, s\<lparr>fs_dirs := (fs_dirs s)(d := True)\<rparr>))"

text \<open>\<^verbatim>\<open>OpenOptions::create_new\<close>, \<^verbatim>\<open>write_all\<close>, \<^verbatim>\<open>remove_file\<close> and \<^verbatim>\<open>rename\<close>, which replaces an existing target.\<close>

definition fs_create_new :: "bytes \<Rightarrow> (local_fs, unit) io" where
  "fs_create_new a =
     fs_try BackendIo (\<lambda>s. fs_files s a = None \<and> fs_dirs s (parent_dir a))
       (\<lambda>s. s\<lparr>fs_files := (fs_files s)(a := Some []), fs_synced := (fs_synced s)(a := False),
              fs_named := (fs_named s)(a := False)\<rparr>)"

definition fs_write_all :: "bytes \<Rightarrow> bytes \<Rightarrow> (local_fs, unit) io" where
  "fs_write_all a bytes s =
     (case fs_call s of
        (Some n, s) \<Rightarrow> (Inl BackendIo, s\<lparr>fs_files := (fs_files s)(a := Some (take n bytes))\<rparr>)
      | (None, s) \<Rightarrow> (Inr (), s\<lparr>fs_files := (fs_files s)(a := Some bytes)\<rparr>))"

definition fs_removed :: "bytes \<Rightarrow> local_fs \<Rightarrow> local_fs" where
  "fs_removed a s =
     s\<lparr>fs_files := (fs_files s)(a := None), fs_synced := (fs_synced s)(a := False), fs_named := (fs_named s)(a := False)\<rparr>"

definition fs_remove_file :: "bytes \<Rightarrow> (local_fs, unit) io" where
  "fs_remove_file a = fs_try BackendIo (\<lambda>s. fs_files s a \<noteq> None) (fs_removed a)"

definition fs_rename :: "bytes \<Rightarrow> bytes \<Rightarrow> (local_fs, unit) io" where
  "fs_rename a b =
     fs_try BackendIo (\<lambda>s. fs_files s a \<noteq> None \<and> fs_dirs s (parent_dir b))
       (\<lambda>s. s\<lparr>fs_files := (fs_files s)(a := None, b := fs_files s a),
              fs_synced := (fs_synced s)(a := False, b := fs_synced s a),
              fs_named := (fs_named s)(a := False, b := False)\<rparr>)"

section \<open>The backend\<close>

definition require_directory :: "bytes \<Rightarrow> (local_fs, unit) io" where
  "require_directory d = fs_try BackendIo (\<lambda>s. fs_dirs s d) (\<lambda>s. s)"

definition require_existing_root :: "(local_fs, unit) io" where
  "require_existing_root s = (if lb_existing_only s then require_directory [] s else (Inr (), s))"

definition local_ensure_directory :: "bytes \<Rightarrow> (local_fs, unit) io" where
  "local_ensure_directory d s =
     (if \<not> lb_existing_only s then fs_create_dir_all d s
      else bindS require_existing_root (\<lambda>_.
        if d = [] then liftS (Inr ())
        else bindS (require_directory (parent_dir (butlast d))) (\<lambda>_ s.
          case fs_create_dir d s of
            (Created, s) \<Rightarrow> (Inr (), s)
          | (AlreadyExists, s) \<Rightarrow> require_directory d s
          | (CreateFailed, s) \<Rightarrow> (Inl BackendIo, s))) s)"

definition create_bytes_if_absent :: "archive_path \<Rightarrow> bytes \<Rightarrow> (local_fs, unit) io" where
  "create_bytes_if_absent p bytes =
     bindS require_existing_root (\<lambda>_ s.
     case fs_read (ap_value p) s of
       Some existing \<Rightarrow> (if existing = bytes then Inr () else Inl ByteConflict, s)
     | None \<Rightarrow>
         bindS (local_ensure_directory (parent_dir (ap_value p))) (\<lambda>_.
         bindS (fs_create_new (ap_value p)) (\<lambda>_.
         fs_write_all (ap_value p) bytes)) s)"

definition local_sync_file :: "archive_path \<Rightarrow> (local_fs, unit) io" where
  "local_sync_file p =
     bindS (fs_try FlushFailed (\<lambda>s. fs_read (ap_value p) s \<noteq> None) (\<lambda>s. s)) (\<lambda>_.
     fs_try FlushFailed (\<lambda>_. True) (\<lambda>s. s\<lparr>fs_synced := (fs_synced s)(ap_value p := True)\<rparr>))"

definition sync_directory_at :: "bytes \<Rightarrow> (local_fs, unit) io" where
  "sync_directory_at d =
     bindS (fs_try FlushFailed (\<lambda>s. fs_dirs s d) (\<lambda>s. s)) (\<lambda>_.
     fs_try FlushFailed (\<lambda>_. True)
       (\<lambda>s. s\<lparr>fs_named := \<lambda>a. fs_named s a \<or> fs_files s a \<noteq> None \<and> parent_dir a = d\<rparr>))"

definition local_sync_directory :: "archive_path \<Rightarrow> (local_fs, unit) io" where
  "local_sync_directory p = sync_directory_at (ap_directory p)"

definition local_remove_if_present :: "archive_path \<Rightarrow> (local_fs, unit) io" where
  "local_remove_if_present p =
     bindS require_existing_root (\<lambda>_ s.
     case fs_call s of
       (Some _, s) \<Rightarrow> (Inl BackendIo, s)
     | (None, s) \<Rightarrow>
         if fs_files s (ap_value p) = None then (Inr (), s)
         else sync_directory_at (ap_directory p) (fs_removed (ap_value p) s))"

definition other_device :: "u64 option \<Rightarrow> u64 option \<Rightarrow> bool" where
  "other_device l r = (case (l, r) of (Some l, Some r) \<Rightarrow> l \<noteq> r | _ \<Rightarrow> False)"

definition local_atomic_rename_same_fs :: "archive_path \<Rightarrow> archive_path \<Rightarrow> (local_fs, unit) io" where
  "local_atomic_rename_same_fs p q s =
     (if ap_value p \<in> set (lb_foreign s) \<or> ap_value q \<in> set (lb_foreign s) then (Inl NotSameFilesystem, s)
      else bindS require_existing_root (\<lambda>_.
        bindS (local_ensure_directory (ap_directory q)) (\<lambda>_ s.
        if other_device (fs_device s (ap_directory p)) (fs_device s (ap_directory q)) then (Inl NotSameFilesystem, s)
        else case fs_read (ap_value q) s of
          Some existing \<Rightarrow>
            (case fs_read (ap_value p) s of
               None \<Rightarrow> (Inl BackendIo, s)
             | Some staged \<Rightarrow>
                 if existing \<noteq> staged then (Inl ByteConflict, s) else fs_remove_file (ap_value p) s)
        | None \<Rightarrow> fs_rename (ap_value p) (ap_value q) s)) s)"

definition local_create_directory_if_absent :: "bytes \<Rightarrow> (local_fs, unit) io" where
  "local_create_directory_if_absent directory =
     bindS (liftS (reject_if (directory \<notin> set LAYOUT_PATHS_V1 \<or> \<not> ends_with directory [0x2F]) PathInvalid)) (\<lambda>_.
     bindS (local_ensure_directory directory) (\<lambda>_.
     bindS (sync_directory_at directory) (\<lambda>_.
     sync_directory_at (parent_dir (butlast directory)))))"

definition local_backend :: "local_fs backend_port" where
  "local_backend =
     \<lparr>create_if_absent = create_bytes_if_absent, create_non_object_if_absent = create_bytes_if_absent,
      sync_file = local_sync_file, sync_directory = local_sync_directory,
      atomic_rename_same_fs = local_atomic_rename_same_fs\<rparr>"

section \<open>The contract\<close>

text \<open>Calls that look at directories leave the files, and what is flushed, as they are.\<close>

definition same_files :: "local_fs \<Rightarrow> local_fs \<Rightarrow> bool" where
  "same_files s s' \<longleftrightarrow>
     fs_files s' = fs_files s \<and> fs_synced s' = fs_synced s \<and> fs_named s' = fs_named s \<and> fs_unreadable s' = fs_unreadable s"

lemma same_files_refl [simp]: "same_files s s"
  by (simp add: same_files_def)

lemma same_files_trans: "same_files s s' \<Longrightarrow> same_files s' s'' \<Longrightarrow> same_files s s''"
  by (simp add: same_files_def)

lemma fs_call_same: "fs_call s = (f, s') \<Longrightarrow> same_files s s' \<and> fs_dirs s' = fs_dirs s"
  by (auto simp: fs_call_def same_files_def split: list.splits)

lemma fs_try_eq:
  "fs_try e possible effect s = (r, s') \<Longrightarrow>
     r = Inl e \<and> same_files s s' \<or> r = Inr () \<and> (\<exists>t. same_files s t \<and> possible t \<and> s' = effect t)"
  by (auto simp: fs_try_def split: prod.splits option.splits if_splits dest: fs_call_same)

lemma require_directory_same: "require_directory d s = (r, s') \<Longrightarrow> same_files s s'"
  by (auto simp: require_directory_def dest!: fs_try_eq)

lemma require_existing_root_same: "require_existing_root s = (r, s') \<Longrightarrow> same_files s s'"
  by (auto simp: require_existing_root_def split: if_splits dest: require_directory_same)

lemma fs_create_dir_all_same: "fs_create_dir_all d s = (r, s') \<Longrightarrow> same_files s s'"
  unfolding fs_create_dir_all_def by (drule fs_try_eq) (auto simp: same_files_def)

lemma fs_create_dir_same: "fs_create_dir d s = (r, s') \<Longrightarrow> same_files s s'"
  by (auto simp: fs_create_dir_def same_files_def split: prod.splits option.splits if_splits dest!: fs_call_same)

lemma local_ensure_directory_same:
  assumes "local_ensure_directory d s = (r, s')"
  shows "same_files s s'"
proof (cases "lb_existing_only s")
  case False
  then show ?thesis using assms fs_create_dir_all_same by (simp add: local_ensure_directory_def)
next
  case True
  have last: "same_files t t'"
    if "(case fs_create_dir d t of (Created, s) \<Rightarrow> (Inr (), s) | (AlreadyExists, s) \<Rightarrow> require_directory d s
        | (CreateFailed, s) \<Rightarrow> (Inl BackendIo, s)) = (r, t')" for t t'
  proof -
    obtain c t1 where c: "fs_create_dir d t = (c, t1)" by fastforce
    then have "same_files t t1" by (rule fs_create_dir_same)
    moreover have "same_files t1 t'"
      using that c require_directory_same by (cases c) auto
    ultimately show ?thesis by (rule same_files_trans)
  qed
  show ?thesis
    using assms True last
    by (auto simp: local_ensure_directory_def bindS_eq split: if_splits
        dest!: require_directory_same require_existing_root_same intro: same_files_trans)
qed

text \<open>Every file that is there can be read.\<close>

definition readable :: "local_fs \<Rightarrow> bool" where
  "readable s \<longleftrightarrow> (\<forall>a. \<not> fs_unreadable s a)"

lemma readable_same: "same_files s s' \<Longrightarrow> readable s' = readable s"
  by (simp add: same_files_def readable_def)

lemma fs_read_readable [simp]: "readable s \<Longrightarrow> fs_read a s = fs_files s a"
  by (simp add: fs_read_def readable_def)

definition written :: "bytes \<Rightarrow> bytes \<Rightarrow> local_fs \<Rightarrow> local_fs \<Rightarrow> bool" where
  "written a c s s' \<longleftrightarrow>
     fs_files s a = None \<and> fs_files s' = (fs_files s)(a := Some c) \<and> fs_synced s' = (fs_synced s)(a := False) \<and>
     fs_unreadable s' = fs_unreadable s"

lemma fs_create_write:
  assumes "bindS (fs_create_new a) (\<lambda>_. fs_write_all a bytes) s = (r, s')"
  shows "same_files s s' \<and> r \<noteq> Inr () \<or> (\<exists>c. written a c s s' \<and> (r = Inr () \<longrightarrow> c = bytes))"
proof -
  obtain r1 s1 where c1: "fs_create_new a s = (r1, s1)" by fastforce
  note t1 = fs_try_eq [OF c1 [unfolded fs_create_new_def]]
  show ?thesis
  proof (cases r1)
    case (Inl e)
    then show ?thesis using assms c1 t1 by (auto simp: bindS_eq)
  next
    case (Inr u)
    then have w1: "written a [] s s1" using t1 by (auto simp: written_def same_files_def)
    have "fs_write_all a bytes s1 = (r, s')" using assms c1 Inr by (auto simp: bindS_eq)
    then obtain f t c where t: "fs_call s1 = (f, t)" and c: "fs_files s' = (fs_files t)(a := Some c)"
        "fs_synced s' = fs_synced t" "fs_unreadable s' = fs_unreadable t" "r = Inr () \<longrightarrow> c = bytes"
      by (auto simp: fs_write_all_def split: prod.splits option.splits)
    then have "written a c s s'" using w1 fs_call_same [OF t] by (auto simp: written_def same_files_def)
    then show ?thesis using c(4) by blast
  qed
qed

lemma written_same: "same_files s t \<Longrightarrow> written a c t s' \<Longrightarrow> written a c s s'"
  by (simp add: written_def same_files_def)

lemma create_bytes_cases:
  assumes "create_bytes_if_absent p bytes s = (r, s')" and "readable s"
  shows "same_files s s' \<and> (r = Inr () \<longrightarrow> fs_files s (ap_value p) = Some bytes) \<or>
    (\<exists>c. written (ap_value p) c s s' \<and> (r = Inr () \<longrightarrow> c = bytes))"
proof -
  let ?a = "ap_value p"
  obtain r1 s1 where c1: "require_existing_root s = (r1, s1)" by fastforce
  note s1 = require_existing_root_same [OF c1]
  have rd: "readable s1" using readable_same [OF s1] assms(2) by simp
  have f1: "fs_files s1 = fs_files s" using s1 by (simp add: same_files_def)
  consider e where "r1 = Inl e" "r = Inl e" "s' = s1"
    | ex where "fs_files s ?a = Some ex" "s' = s1" "r = (if ex = bytes then Inr () else Inl ByteConflict)"
    | "bindS (local_ensure_directory (parent_dir ?a)) (\<lambda>_. bindS (fs_create_new ?a) (\<lambda>_. fs_write_all ?a bytes)) s1 = (r, s')"
    using assms(1) c1 rd f1
    by (cases r1; cases "fs_files s ?a") (simp_all add: create_bytes_if_absent_def bindS_def [of require_existing_root])
  then show ?thesis
  proof cases
    case 1
    then show ?thesis using s1 by simp
  next
    case 2
    then show ?thesis using s1 by (simp split: if_splits)
  next
    case 3
    obtain r2 s2 where c2: "local_ensure_directory (parent_dir ?a) s1 = (r2, s2)" by fastforce
    have s2: "same_files s s2" using same_files_trans [OF s1 local_ensure_directory_same [OF c2]] .
    show ?thesis
    proof (cases r2)
      case (Inl e)
      then show ?thesis using 3 c2 s2 by (auto simp: bindS_def)
    next
      case (Inr u)
      then have "bindS (fs_create_new ?a) (\<lambda>_. fs_write_all ?a bytes) s2 = (r, s')"
        using 3 c2 by (simp add: bindS_def [of "local_ensure_directory (parent_dir ?a)"])
      from fs_create_write [OF this] show ?thesis
        using same_files_trans [OF s2] written_same [OF s2] by blast
    qed
  qed
qed

lemma local_sync_file_cases:
  assumes "local_sync_file p s = (r, s')"
  shows "same_files s s' \<and> r \<noteq> Inr () \<or>
    (\<exists>t. same_files s t \<and> s' = t\<lparr>fs_synced := (fs_synced t)(ap_value p := True)\<rparr>)"
  using assms unfolding local_sync_file_def bindS_eq
  by (auto dest!: fs_try_eq intro: same_files_trans)

lemma sync_directory_at_cases:
  assumes "sync_directory_at d s = (r, s')"
  shows "same_files s s' \<and> r \<noteq> Inr () \<or>
    (\<exists>t. same_files s t \<and> s' = t\<lparr>fs_named := \<lambda>a. fs_named t a \<or> fs_files t a \<noteq> None \<and> parent_dir a = d\<rparr>)"
  using assms unfolding sync_directory_at_def bindS_eq
  by (auto dest!: fs_try_eq intro: same_files_trans)

lemma fs_remove_file_cases:
  assumes "fs_remove_file a s = (r, s')" and "fs_files s a = Some bs" and "fs_files s b = Some bs" and "a \<noteq> b"
  shows "fs_unreadable s' = fs_unreadable s \<and> (same_files s s' \<and> r \<noteq> Inr () \<or> moved fs_files fs_synced a b s s')"
proof -
  have "(fs_files s)(a := None) = (fs_files s)(a := None, b := Some bs)"
    using assms(3,4) by (simp add: fun_eq_iff)
  then have "moved fs_files fs_synced a b s (fs_removed a t)" if "same_files s t" for t
    using that assms(2,3) by (auto simp: moved_def fs_removed_def same_files_def)
  then show ?thesis
    using fs_try_eq [OF assms(1) [unfolded fs_remove_file_def]] by (auto simp: same_files_def fs_removed_def)
qed

lemma fs_rename_cases:
  assumes "fs_rename a b s = (r, s')" and "fs_files s b = None" and "a \<noteq> b"
  shows "fs_unreadable s' = fs_unreadable s \<and> (same_files s s' \<and> r \<noteq> Inr () \<or> moved fs_files fs_synced a b s s')"
proof -
  let ?effect = "\<lambda>s. s\<lparr>fs_files := (fs_files s)(a := None, b := fs_files s a),
      fs_synced := (fs_synced s)(a := False, b := fs_synced s a), fs_named := (fs_named s)(a := False, b := False)\<rparr>"
  have "moved fs_files fs_synced a b s (?effect t)" if "same_files s t" "fs_files t a \<noteq> None" for t
    using that assms(2) by (auto simp: moved_def same_files_def)
  then show ?thesis
    using fs_try_eq [OF assms(1) [unfolded fs_rename_def]] by (auto simp: same_files_def)
qed

lemma moved_same: "same_files s t \<Longrightarrow> moved fs_files fs_synced a b t s' \<Longrightarrow> moved fs_files fs_synced a b s s'"
  by (simp add: moved_def same_files_def)

lemma local_rename_cases:
  assumes "local_atomic_rename_same_fs p q s = (r, s')" and "readable s" and "ap_value p \<noteq> ap_value q"
  shows "readable s' \<and> (same_files s s' \<and> r \<noteq> Inr () \<or> moved fs_files fs_synced (ap_value p) (ap_value q) s s')"
proof -
  let ?a = "ap_value p" and ?b = "ap_value q"
  let ?last = "\<lambda>s. if other_device (fs_device s (ap_directory p)) (fs_device s (ap_directory q)) then (Inl NotSameFilesystem, s)
        else case fs_read ?b s of
          Some existing \<Rightarrow> (case fs_read ?a s of None \<Rightarrow> (Inl BackendIo, s)
             | Some staged \<Rightarrow> if existing \<noteq> staged then (Inl ByteConflict, s) else fs_remove_file ?a s)
        | None \<Rightarrow> fs_rename ?a ?b s"
  have last: "readable s' \<and> (same_files s s' \<and> r \<noteq> Inr () \<or> moved fs_files fs_synced ?a ?b s s')"
    if same: "same_files s t" and run: "?last t = (r, s')" for t
  proof -
    have rd: "readable t" using readable_same [OF same] assms(2) by simp
    consider (refused) "same_files t s'" "r \<noteq> Inr ()"
      | (remove) bs where "fs_files t ?a = Some bs" "fs_files t ?b = Some bs" "fs_remove_file ?a t = (r, s')"
      | (rename) "fs_files t ?b = None" "fs_rename ?a ?b t = (r, s')"
      using run rd by (cases "fs_files t ?a"; cases "fs_files t ?b") (auto split: if_splits)
    then show ?thesis
    proof cases
      case refused
      then show ?thesis using same_files_trans [OF same] readable_same [OF refused(1)] rd by auto
    next
      case remove
      show ?thesis
        using fs_remove_file_cases [OF remove(3,1,2) assms(3)] rd same_files_trans [OF same] moved_same [OF same]
        by (auto simp: readable_def)
    next
      case rename
      show ?thesis
        using fs_rename_cases [OF rename(2,1) assms(3)] rd same_files_trans [OF same] moved_same [OF same]
        by (auto simp: readable_def)
    qed
  qed
  show ?thesis
  proof (cases "?a \<in> set (lb_foreign s) \<or> ?b \<in> set (lb_foreign s)")
    case True
    then show ?thesis using assms(1,2) by (auto simp: local_atomic_rename_same_fs_def)
  next
    case False
    then have run: "bindS require_existing_root (\<lambda>_. bindS (local_ensure_directory (ap_directory q)) (\<lambda>_. ?last)) s = (r, s')"
      using assms(1) by (simp add: local_atomic_rename_same_fs_def)
    obtain r1 s1 where c1: "require_existing_root s = (r1, s1)" by fastforce
    note s1 = require_existing_root_same [OF c1]
    obtain r2 s2 where c2: "local_ensure_directory (ap_directory q) s1 = (r2, s2)" by fastforce
    note s2 = same_files_trans [OF s1 local_ensure_directory_same [OF c2]]
    have "r = r1 \<and> s' = s1 \<and> r \<noteq> Inr () \<or> r = r2 \<and> s' = s2 \<and> r \<noteq> Inr () \<or> ?last s2 = (r, s')"
      using run c1 c2 by (cases r1; cases r2) (auto simp: bindS_def [of require_existing_root] bindS_def [of "local_ensure_directory (ap_directory q)"])
    then show ?thesis
      using last [OF s2] s1 s2 assms(2) readable_same [OF s1] readable_same [OF s2] by blast
  qed
qed

lemma local_create_law:
  assumes "create_bytes_if_absent p bytes s = (r, s')" and "readable s"
  shows "readable s'"
    and "r = Inr () \<Longrightarrow> (fs_files s (ap_value p) = None \<or> fs_files s (ap_value p) = Some bytes) \<and> fs_files s' (ap_value p) = Some bytes"
    and "a \<noteq> ap_value p \<or> fs_files s a \<noteq> None \<Longrightarrow> fs_files s' a = fs_files s a \<and> (fs_synced s a \<longrightarrow> fs_synced s' a)"
  using create_bytes_cases [OF assms] assms(2) by (auto simp: written_def same_files_def readable_def)

lemma local_sync_file_law:
  assumes "local_sync_file p s = (r, s')" and "readable s"
  shows "readable s' \<and> fs_files s' = fs_files s \<and> (fs_synced s a \<longrightarrow> fs_synced s' a)"
    and "r = Inr () \<Longrightarrow> fs_synced s' (ap_value p)"
  using local_sync_file_cases [OF assms(1)] assms(2) by (auto simp: same_files_def readable_def)

lemma local_sync_directory_law:
  assumes "local_sync_directory p s = (r, s')" and "readable s"
  shows "readable s' \<and> fs_files s' = fs_files s \<and> (fs_synced s a \<longrightarrow> fs_synced s' a) \<and> (fs_named s a \<longrightarrow> fs_named s' a)"
    and "r = Inr () \<Longrightarrow> fs_files s a \<noteq> None \<Longrightarrow> parent_dir a = ap_directory p \<Longrightarrow> fs_named s' a"
  using sync_directory_at_cases [OF assms(1) [unfolded local_sync_directory_def]] assms(2)
  by (auto simp: same_files_def readable_def)

lemma local_rename_law:
  assumes "local_atomic_rename_same_fs p q s = (r, s')" and "readable s" and "ap_value p \<noteq> ap_value q"
  shows "r = Inr () \<Longrightarrow> moved fs_files fs_synced (ap_value p) (ap_value q) s s'"
    and "fs_files s' = fs_files s \<and> (\<forall>a. fs_synced s a \<longrightarrow> fs_synced s' a) \<or> moved fs_files fs_synced (ap_value p) (ap_value q) s s'"
    and "readable s'"
  using local_rename_cases [OF assms] by (auto simp: same_files_def)

lemma local_backend_simps [simp]:
  "create_if_absent local_backend = create_bytes_if_absent"
  "create_non_object_if_absent local_backend = create_bytes_if_absent"
  "sync_file local_backend = local_sync_file"
  "sync_directory local_backend = local_sync_directory"
  "atomic_rename_same_fs local_backend = local_atomic_rename_same_fs"
  by (simp_all add: local_backend_def)

interpretation lp: archive_backend local_backend fs_files fs_synced fs_named readable
proof (unfold_locales, goal_cases)
  case (1 p s bs r s')
  then show ?case using local_create_law(1) by simp
next
  case (2 p s bs s')
  then show ?case using local_create_law(2) by simp
next
  case (3 p s bs r s' a)
  then show ?case using local_create_law(3) by simp
next
  case 4
  show ?case by simp
next
  case (5 p s r s' a)
  then show ?case using local_sync_file_law(1) by simp
next
  case (6 p s s')
  then show ?case using local_sync_file_law(2) by simp
next
  case (7 p s r s' a)
  then show ?case using local_sync_directory_law(1) by simp
next
  case (8 p s s' a)
  then show ?case using local_sync_directory_law(2) by simp
next
  case (9 p q s r s')
  then show ?case using local_rename_law(3) by simp
next
  case (10 p q s s')
  then show ?case using local_rename_law(1) by simp
next
  case (11 p q s e s')
  then show ?case using local_rename_law(2) by simp
qed

section \<open>A host without faults\<close>

text \<open>The directories above an address exist whenever a file lies there.\<close>

definition dir_above :: "bytes \<Rightarrow> bytes \<Rightarrow> bool" where
  "dir_above d a \<longleftrightarrow> take (length d) a = d \<and> (d = [] \<or> last d = 0x2F)"

definition local_healthy :: "local_fs \<Rightarrow> bool" where
  "local_healthy s \<longleftrightarrow>
     fs_faults s = [] \<and> \<not> lb_existing_only s \<and> lb_foreign s = [] \<and> readable s \<and>
     (\<forall>d d'. \<not> other_device (fs_device s d) (fs_device s d')) \<and>
     (\<forall>a d. fs_files s a \<noteq> None \<longrightarrow> dir_above d a \<longrightarrow> fs_dirs s d)"

lemma rfind_split: "b \<notin> set ys \<Longrightarrow> rfind b (xs @ b # ys) = Some (length xs)"
  using rfind_append [of b ys "xs @ [b]"] by (simp add: rfind_def)

lemma parent_dir_split: "0x2F \<notin> set ys \<Longrightarrow> parent_dir (xs @ 0x2F # ys) = xs @ [0x2F]"
  by (simp add: parent_dir_def rfind_split)

lemma parent_dir_flat: "0x2F \<notin> set a \<Longrightarrow> parent_dir a = []"
  by (simp add: parent_dir_def rfind_def)

lemma above_append: "dir_above d a \<longleftrightarrow> (\<exists>r. a = d @ r) \<and> (d = [] \<or> last d = 0x2F)"
  unfolding dir_above_def by (metis append_eq_conv_conj append_take_drop_id)

lemma above_parent:
  assumes "dir_above d a"
  shows "dir_above d (parent_dir a)"
proof (cases "d = []")
  case True
  then show ?thesis by (simp add: dir_above_def)
next
  case False
  then obtain d' r where d: "d = d' @ [0x2F]" and a: "a = d @ r"
    using assms unfolding above_append by (metis append_butlast_last_id)
  show ?thesis
  proof (cases "0x2F \<in> set r")
    case True
    then obtain us vs where r: "r = us @ 0x2F # vs" "0x2F \<notin> set vs" by (metis split_list_last)
    have "parent_dir ((d @ us) @ 0x2F # vs) = (d @ us) @ [0x2F]" by (rule parent_dir_split [OF r(2)])
    then show ?thesis using a r(1) d by (simp add: above_append)
  next
    case False
    then have "parent_dir (d' @ 0x2F # r) = d" using parent_dir_split d by simp
    then show ?thesis using a d by (simp add: above_append)
  qed
qed

lemma parent_above: "dir_above (parent_dir a) a"
proof (cases "0x2F \<in> set a")
  case True
  then obtain us vs where "a = us @ 0x2F # vs" "0x2F \<notin> set vs" by (metis split_list_last)
  then show ?thesis by (simp add: parent_dir_split above_append)
next
  case False
  then show ?thesis by (simp add: parent_dir_flat dir_above_def)
qed

lemma above_trans: "dir_above d e \<Longrightarrow> dir_above e a \<Longrightarrow> dir_above d a"
  by (auto simp: above_append)

lemma directory_above: "path_built p \<Longrightarrow> dir_above (ap_directory p) (ap_value p)"
  using path_built_value(3,4) [of p] by (auto simp: dir_above_def ap_directory_def ends_with_slash)

text \<open>Without faults every call has its effect.\<close>

lemma fs_try_ok: "fs_faults s = [] \<Longrightarrow> possible s \<Longrightarrow> fs_try e possible effect s = (Inr (), effect s)"
  by (simp add: fs_try_def fs_call_def)

definition dirs_made :: "bytes \<Rightarrow> local_fs \<Rightarrow> local_fs" where
  "dirs_made d s = s\<lparr>fs_dirs := \<lambda>a. fs_dirs s a \<or> dir_above a d\<rparr>"

lemma healthy_root: "local_healthy s \<Longrightarrow> require_existing_root s = (Inr (), s)"
  by (simp add: local_healthy_def require_existing_root_def)

lemma healthy_directory: "local_healthy s \<Longrightarrow> local_ensure_directory d s = (Inr (), dirs_made d s)"
  by (simp add: local_healthy_def local_ensure_directory_def fs_create_dir_all_def fs_try_ok dirs_made_def dir_above_def)

lemma healthy_dirs_made: "local_healthy s \<Longrightarrow> local_healthy (dirs_made d s)"
  by (auto simp: local_healthy_def dirs_made_def readable_def)

lemma healthy_create:
  assumes "path_built p" and h: "local_healthy s" and free: "fs_files s (ap_value p) = None \<or> fs_files s (ap_value p) = Some bs"
  shows "\<exists>s'. create_bytes_if_absent p bs s = (Inr (), s') \<and> local_healthy s' \<and> fs_dirs s' (ap_directory p) \<and>
    (\<forall>d. fs_dirs s d \<longrightarrow> fs_dirs s' d)"
proof (cases "fs_files s (ap_value p)")
  case (Some x)
  then have "create_bytes_if_absent p bs s = (Inr (), s)"
    using free h healthy_root [OF h] by (simp add: create_bytes_if_absent_def bindS_def local_healthy_def)
  moreover have "fs_dirs s (ap_directory p)"
    using h Some directory_above [OF assms(1)] unfolding local_healthy_def by blast
  ultimately show ?thesis using h by blast
next
  case None
  let ?a = "ap_value p"
  let ?t = "dirs_made (parent_dir ?a) s"
  let ?u = "?t\<lparr>fs_files := (fs_files ?t)(?a := Some []), fs_synced := (fs_synced ?t)(?a := False), fs_named := (fs_named ?t)(?a := False)\<rparr>"
  let ?s = "?u\<lparr>fs_files := (fs_files ?u)(?a := Some bs)\<rparr>"
  have t: "local_healthy ?t" by (rule healthy_dirs_made [OF h])
  have there: "fs_dirs ?t d" if "dir_above d ?a" for d
    using above_parent [OF that] by (simp add: dirs_made_def)
  have "fs_create_new ?a ?t = (Inr (), ?u)"
    unfolding fs_create_new_def using t None there [OF parent_above] by (intro fs_try_ok) (simp_all add: local_healthy_def dirs_made_def)
  moreover have "fs_write_all ?a bs ?u = (Inr (), ?s)"
    using t by (simp add: fs_write_all_def fs_call_def local_healthy_def dirs_made_def)
  ultimately have "create_bytes_if_absent p bs s = (Inr (), ?s)"
    using None h healthy_root [OF h] healthy_directory [OF h]
    by (simp add: create_bytes_if_absent_def bindS_def local_healthy_def)
  moreover have "local_healthy ?s"
    using t there by (auto simp: local_healthy_def readable_def)
  ultimately show ?thesis using there [OF directory_above [OF assms(1)]] by (auto simp: dirs_made_def)
qed

lemma healthy_sync_file:
  assumes h: "local_healthy s" and "fs_files s (ap_value p) \<noteq> None"
  shows "\<exists>s'. local_sync_file p s = (Inr (), s') \<and> local_healthy s' \<and> (\<forall>d. fs_dirs s d \<longrightarrow> fs_dirs s' d)"
proof -
  have "local_sync_file p s = (Inr (), s\<lparr>fs_synced := (fs_synced s)(ap_value p := True)\<rparr>)"
    using assms by (simp add: local_sync_file_def bindS_def fs_try_ok local_healthy_def)
  moreover have "local_healthy (s\<lparr>fs_synced := (fs_synced s)(ap_value p := True)\<rparr>)"
    using h by (simp add: local_healthy_def readable_def)
  ultimately show ?thesis by auto
qed

lemma healthy_sync_directory:
  assumes h: "local_healthy s" and "fs_dirs s (ap_directory p)"
  shows "\<exists>s'. local_sync_directory p s = (Inr (), s') \<and> local_healthy s' \<and> (\<forall>d. fs_dirs s d \<longrightarrow> fs_dirs s' d)"
proof -
  let ?s = "s\<lparr>fs_named := \<lambda>a. fs_named s a \<or> fs_files s a \<noteq> None \<and> parent_dir a = ap_directory p\<rparr>"
  have "local_sync_directory p s = (Inr (), ?s)"
    using assms by (simp add: local_sync_directory_def sync_directory_at_def bindS_def fs_try_ok local_healthy_def)
  moreover have "local_healthy ?s" using h by (simp add: local_healthy_def readable_def)
  ultimately show ?thesis by auto
qed

lemma healthy_rename:
  assumes ne: "ap_value p \<noteq> ap_value q" and h: "local_healthy s" and same: "parent_dir (ap_value p) = parent_dir (ap_value q)"
    and p: "fs_files s (ap_value p) = Some bs" and q: "fs_files s (ap_value q) = None \<or> fs_files s (ap_value q) = Some bs"
  shows "\<exists>s'. local_atomic_rename_same_fs p q s = (Inr (), s') \<and> local_healthy s' \<and> (\<forall>d. fs_dirs s d \<longrightarrow> fs_dirs s' d)"
proof -
  let ?a = "ap_value p" and ?b = "ap_value q"
  let ?t = "dirs_made (ap_directory q) s"
  let ?r = "?t\<lparr>fs_files := (fs_files ?t)(?a := None, ?b := fs_files ?t ?a),
      fs_synced := (fs_synced ?t)(?a := False, ?b := fs_synced ?t ?a), fs_named := (fs_named ?t)(?a := False, ?b := False)\<rparr>"
  have t: "local_healthy ?t" by (rule healthy_dirs_made [OF h])
  have there: "fs_dirs s d" if "dir_above d ?b" for d
    using above_trans [OF above_parent [OF that] parent_above [of ?a, unfolded same]] h p by (auto simp: local_healthy_def)
  show ?thesis
  proof (cases "fs_files s ?b")
    case None
    have "fs_rename ?a ?b ?t = (Inr (), ?r)"
      unfolding fs_rename_def using t p there [OF parent_above] by (intro fs_try_ok) (simp_all add: local_healthy_def dirs_made_def)
    then have "local_atomic_rename_same_fs p q s = (Inr (), ?r)"
      using None h t healthy_root [OF h] healthy_directory [OF h]
      by (simp add: local_atomic_rename_same_fs_def bindS_def local_healthy_def dirs_made_def fs_read_def readable_def)
    moreover have "local_healthy ?r"
      using t there by (auto simp: local_healthy_def readable_def dirs_made_def)
    ultimately show ?thesis by (auto simp: dirs_made_def)
  next
    case (Some x)
    have "fs_remove_file ?a ?t = (Inr (), fs_removed ?a ?t)"
      unfolding fs_remove_file_def using t p by (intro fs_try_ok) (simp_all add: local_healthy_def dirs_made_def)
    then have "local_atomic_rename_same_fs p q s = (Inr (), fs_removed ?a ?t)"
      using Some p q h t healthy_root [OF h] healthy_directory [OF h]
      by (simp add: local_atomic_rename_same_fs_def bindS_def local_healthy_def dirs_made_def fs_read_def readable_def)
    moreover have "local_healthy (fs_removed ?a ?t)"
      using t by (auto simp: local_healthy_def readable_def fs_removed_def)
    ultimately show ?thesis by (auto simp: dirs_made_def fs_removed_def)
  qed
qed

interpretation lph: healthy_archive_backend local_backend fs_files fs_synced fs_named readable local_healthy fs_dirs
proof (unfold_locales, goal_cases)
  case (1 s)
  then show ?case by (simp add: local_healthy_def)
next
  case (2 p s bs)
  then show ?case using healthy_create by simp
next
  case (3 p s)
  then show ?case using healthy_sync_file by simp
next
  case (4 p s)
  then show ?case using healthy_sync_directory by simp
next
  case (5 p q s bs)
  then show ?case using healthy_rename by simp
qed

section \<open>Publication on the local file system\<close>


definition sample_object :: "string \<Rightarrow> staged_object" where
  "sample_object name =
     \<lparr>so_target = \<lparr>ap_value = ascii (''entries/'' @ name), ap_directory_length = 8\<rparr>, so_bytes = Object [1, 2]\<rparr>"

definition empty_fs :: local_fs where
  "empty_fs = \<lparr>lb_existing_only = False, lb_foreign = [], fs_files = \<lambda>_. None, fs_unreadable = \<lambda>_. False,
     fs_dirs = \<lambda>_. False, fs_device = \<lambda>_. Some 1, fs_synced = \<lambda>_. False, fs_named = \<lambda>_. False, fs_faults = []\<rparr>"

lemma sample_object_built: "path_built (so_target (sample_object ''1.eip''))"
  using sample_path by (simp add: sample_object_def)

lemma empty_fs_healthy: "local_healthy empty_fs"
  by (simp add: local_healthy_def empty_fs_def readable_def other_device_def)

lemma sample_plan_fits: "plan_fits fs_files [sample_object ''1.eip''] empty_fs"
  by (simp add: plan_fits_def empty_fs_def sample_object_def ap_directory_def ascii_def)

lemma sample_not_staging: "\<not> is_staging_path (target_value (sample_object ''1.eip''))"
  by code_simp


section \<open>Where the backend departs from its contract\<close>

text \<open>
  A target that exists but cannot be read counts as absent: the rename then replaces its bytes and reports success,
  although the contract of the port is never to rename over an existing address.
\<close>

lemma rename_over_unreadable_target:
  "(case local_atomic_rename_same_fs
        \<lparr>ap_value = ascii ''entries/1.eip.staging'', ap_directory_length = 8\<rparr>
        \<lparr>ap_value = ascii ''entries/1.eip'', ap_directory_length = 8\<rparr>
        (empty_fs\<lparr>fs_files := [ascii ''entries/1.eip'' \<mapsto> [9], ascii ''entries/1.eip.staging'' \<mapsto> [1, 2]],
           fs_dirs := \<lambda>_. True, fs_unreadable := \<lambda>a. a = ascii ''entries/1.eip''\<rparr>) of
      (r, s') \<Rightarrow> r = Inr () \<and> fs_files s' (ascii ''entries/1.eip'') = Some [1, 2])"
  by code_simp

text \<open>A rename of an address onto itself finds equal bytes at its target and removes the only copy.\<close>

lemma rename_onto_itself_removes:
  "(case local_atomic_rename_same_fs
        \<lparr>ap_value = ascii ''entries/1.eip'', ap_directory_length = 8\<rparr>
        \<lparr>ap_value = ascii ''entries/1.eip'', ap_directory_length = 8\<rparr>
        (empty_fs\<lparr>fs_files := [ascii ''entries/1.eip'' \<mapsto> [9]], fs_dirs := \<lambda>_. True\<rparr>) of
      (r, s') \<Rightarrow> r = Inr () \<and> fs_files s' (ascii ''entries/1.eip'') = None)"
  by code_simp

text \<open>
  The directory of an address below a subdirectory is the layout directory, not the one that holds its name: a
  transaction that succeeds has flushed the wrong directory.
\<close>

lemma nested_name_not_flushed:
  "(case tx_commit local_backend
        [\<lparr>so_target = \<lparr>ap_value = ascii ''destructions/a/1.etb'', ap_directory_length = 13\<rparr>, so_bytes = Object [1]\<rparr>]
        empty_fs of
      (r, s') \<Rightarrow> r = Inr () \<and> fs_files s' (ascii ''destructions/a/1.etb'') = Some [1] \<and>
        \<not> fs_named s' (ascii ''destructions/a/1.etb''))"
  by code_simp

end
