(* ===== verification/Spec2Isabelle.thy ===== *)
theory Spec2Isabelle
  imports EaSyncRetry EaRegistrySelection EaRollback EaCborCanonical EaDestructionAssess EaIndex EaLocalBackend
begin

text \<open>
  Verification of the Einsatzarchiv core crates (Rust).
\<close>

end
